(* ===== verification/Prelude.thy ===== *)
theory Prelude
  imports Main "HOL-Library.Word"
begin

section \<open>Shared vocabulary of the development\<close>

text \<open>
  What every component uses: the exceptions the Python code can raise, the outcome of a
  state-changing call (an exception or a value, together with the state the call leaves
  behind, because Python keeps the mutations made before a raise), \<open>OrderedDict\<close> as an
  association list with the oldest entry first, the handful of \<open>torch\<close> operations the
  sources use on one-dimensional index tensors (lists of \<open>int\<close>), and flat byte
  buffers (functions from byte addresses to bytes) with scatter writes.
\<close>

named_theorems od_simps \<open>lookup and key laws of ordered dictionaries\<close>
named_theorems buf_simps \<open>reading a buffer after a scatter or a slice write\<close>

datatype exn =
    AttributeError
  | IndexError
  | RuntimeError
  | AssertionError
  | ValueError
  | KeyError
  | NotImplementedError

type_synonym byte = "8 word"

text \<open>The flat bytes of a contiguous \<open>uint8\<close> tensor (its \<open>view(-1)\<close>).\<close>

type_synonym buf = "int \<Rightarrow> byte"

text \<open>The outcome of a call: an exception or a value, and the state it leaves.\<close>

type_synonym ('a, 's) outcome = "(exn + 'a) \<times> 's"


subsection \<open>One-dimensional index tensors\<close>

text \<open>\<open>torch.unique\<close>: the distinct elements, ascending.\<close>

definition unique :: "int list \<Rightarrow> int list" where
  "unique xs = sort (remdups xs)"

lemma set_unique [simp]: "set (unique xs) = set xs"
  by (simp add: unique_def)

lemma distinct_unique [simp]: "distinct (unique xs)"
  by (simp add: unique_def)

lemma sorted_unique [simp]: "sorted (unique xs)"
  by (simp add: unique_def)

lemma unique_Nil [simp]: "unique [] = []"
  by (simp add: unique_def)

lemma unique_eq_Nil_iff [simp]: "unique xs = [] \<longleftrightarrow> xs = []"
  by (metis set_empty2 set_unique unique_Nil)

text \<open>\<open>x.clamp(lo, hi)\<close>.\<close>

definition clamp :: "int \<Rightarrow> int \<Rightarrow> int \<Rightarrow> int" where
  "clamp lo hi x = min hi (max lo x)"

lemma clamp_id [simp]: "lo \<le> x \<Longrightarrow> x \<le> hi \<Longrightarrow> clamp lo hi x = x"
  by (simp add: clamp_def)

lemma clamp_bounds: "lo \<le> hi \<Longrightarrow> lo \<le> clamp lo hi x \<and> clamp lo hi x \<le> hi"
  by (simp add: clamp_def)

text \<open>\<open>range(a, a + n)\<close>.\<close>

definition int_range :: "int \<Rightarrow> nat \<Rightarrow> int list" where
  "int_range a n = map (\<lambda>k. a + int k) [0..<n]"

lemma length_int_range [simp]: "length (int_range a n) = n"
  by (simp add: int_range_def)

lemma nth_int_range [simp]: "k < n \<Longrightarrow> int_range a n ! k = a + int k"
  by (simp add: int_range_def)

lemma set_int_range [simp]: "set (int_range a n) = {a..<a + int n}"
proof -
  have "x \<in> (\<lambda>k. a + int k) ` {0..<n}" if "a \<le> x" "x < a + int n" for x
    using that by (intro image_eqI [of _ _ "nat (x - a)"]) auto
  then show ?thesis by (auto simp: int_range_def)
qed

lemma distinct_int_range [simp]: "distinct (int_range a n)"
  by (simp add: int_range_def distinct_map inj_on_def)

lemma int_range_0 [simp]: "int_range a 0 = []"
  by (simp add: int_range_def)

lemma int_range_Suc: "int_range a (Suc n) = a # int_range (a + 1) n"
proof -
  have "[0..<Suc n] = 0 # map Suc [0..<n]"
    by (simp add: map_Suc_upt upt_conv_Cons del: upt_Suc)
  then show ?thesis
    by (simp add: int_range_def comp_def add.assoc del: upt_Suc)
qed

lemma int_range_append: "int_range a (m + n) = int_range a m @ int_range (a + int m) n"
  by (induction m arbitrary: a) (simp_all add: int_range_Suc add.assoc)


subsection \<open>Python slices\<close>

text \<open>A slice bound on a sequence of length \<open>n\<close>: negative bounds count from the end, and
  both ends are cut to the sequence.\<close>

definition slice_bound :: "int \<Rightarrow> int \<Rightarrow> int" where
  "slice_bound n i = (if i < 0 then max 0 (i + n) else min i n)"

lemma slice_bound_id [simp]: "0 \<le> i \<Longrightarrow> i \<le> n \<Longrightarrow> slice_bound n i = i"
  by (simp add: slice_bound_def)

text \<open>\<open>b[start:stop] = vals\<close> on a flat tensor of \<open>n\<close> bytes: the lengths must agree.\<close>

definition slice_assign :: "int \<Rightarrow> buf \<Rightarrow> int \<Rightarrow> int \<Rightarrow> byte list \<Rightarrow> exn + buf" where
  "slice_assign n b start stop vals =
     (let s = slice_bound n start; t = slice_bound n stop
      in if t - s = int (length vals)
         then Inr (\<lambda>i. if s \<le> i \<and> i < t then vals ! nat (i - s) else b i)
         else Inl RuntimeError)"


subsection \<open>Scatter writes\<close>

text \<open>\<open>b[idx] = vals\<close> with index tensors: writes in order, so the last write to an address
  stays. That is what the CPU does; on a GPU the order of duplicate indices is not specified.\<close>

definition scatter :: "(int \<times> 'a) list \<Rightarrow> (int \<Rightarrow> 'a) \<Rightarrow> int \<Rightarrow> 'a" where
  "scatter ws b = fold (\<lambda>(i, v) b. b(i := v)) ws b"

lemma scatter_Nil [simp]: "scatter [] b = b"
  by (simp add: scatter_def)

lemma scatter_Cons: "scatter ((i, v) # ws) b = scatter ws (b(i := v))"
  by (simp add: scatter_def)

lemma scatter_append: "scatter (us @ ws) b = scatter ws (scatter us b)"
  by (simp add: scatter_def)

lemma scatter_other [buf_simps]: "a \<notin> fst ` set ws \<Longrightarrow> scatter ws b a = b a"
  by (induction ws arbitrary: b) (auto simp: scatter_Cons)

lemma scatter_distinct:
  "distinct (map fst ws) \<Longrightarrow> (a, v) \<in> set ws \<Longrightarrow> scatter ws b a = v"
proof (induction ws arbitrary: b)
  case (Cons w ws)
  obtain i x where w: "w = (i, x)" by (cases w)
  show ?case
  proof (cases "(a, v) = (i, x)")
    case True
    with Cons.prems w have "a \<notin> fst ` set ws" by auto
    with True show ?thesis by (simp add: w scatter_Cons buf_simps)
  next
    case False
    with Cons.prems w have "distinct (map fst ws)" "(a, v) \<in> set ws" by auto
    then show ?thesis by (simp add: w scatter_Cons Cons.IH)
  qed
qed simp

lemma scatter_if:
  "scatter ws b a = (case map_of (rev ws) a of Some v \<Rightarrow> v | None \<Rightarrow> b a)"
proof (induction ws arbitrary: b)
  case (Cons w ws)
  obtain i x where w: "w = (i, x)" by (cases w)
  show ?case
    by (simp add: w scatter_Cons Cons.IH map_add_def split: option.splits)
qed simp

text \<open>Writing a run of consecutive addresses.\<close>

definition write_run :: "int \<Rightarrow> 'a list \<Rightarrow> (int \<Rightarrow> 'a) \<Rightarrow> int \<Rightarrow> 'a" where
  "write_run a vs b = (\<lambda>i. if a \<le> i \<and> i < a + int (length vs) then vs ! nat (i - a) else b i)"

lemma write_run_Nil [simp]: "write_run a [] b = b"
  by (auto simp: write_run_def fun_eq_iff)

lemma write_run_Cons: "write_run a (v # vs) b = write_run (a + 1) vs (b(a := v))"
proof
  fix i
  have *: "nat (i - a) = Suc (nat (i - (a + 1)))" if "a + 1 \<le> i" using that by simp
  show "write_run a (v # vs) b i = write_run (a + 1) vs (b(a := v)) i"
    by (auto simp: write_run_def *)
qed

lemma scatter_run: "scatter (zip (int_range a (length vs)) vs) b = write_run a vs b"
  by (induction vs arbitrary: a b) (simp_all add: int_range_Suc scatter_Cons write_run_Cons)

lemma write_run_out [buf_simps]: "i < a \<or> a + int (length vs) \<le> i \<Longrightarrow> write_run a vs b i = b i"
  by (auto simp: write_run_def)

lemma write_run_in [buf_simps]:
  "a \<le> i \<Longrightarrow> i < a + int (length vs) \<Longrightarrow> write_run a vs b i = vs ! nat (i - a)"
  by (simp add: write_run_def)

lemma map_write_run [simp]: "map (write_run a vs b) (int_range a (length vs)) = vs"
  by (rule nth_equalityI) (auto simp: write_run_def)

lemma map_write_run_out:
  "(\<And>i. i \<in> set xs \<Longrightarrow> i < a \<or> a + int (length vs) \<le> i) \<Longrightarrow>
     map (write_run a vs b) xs = map b xs"
  by (simp add: buf_simps)

lemma row_div_mod:
  fixes k rb r :: int
  assumes "0 \<le> r" "r < rb"
  shows "(k * rb + r) div rb = k" and "(k * rb + r) mod rb = r"
  using assms by (simp_all add: div_pos_pos_trivial mod_pos_pos_trivial)

text \<open>A scatter of one value over a list of indices.\<close>

definition fill :: "int list \<Rightarrow> 'a \<Rightarrow> (int \<Rightarrow> 'a) \<Rightarrow> int \<Rightarrow> 'a" where
  "fill idx v b = (\<lambda>i. if i \<in> set idx then v else b i)"

lemma fill_in [simp]: "i \<in> set idx \<Longrightarrow> fill idx v b i = v"
  by (simp add: fill_def)

lemma fill_out [simp]: "i \<notin> set idx \<Longrightarrow> fill idx v b i = b i"
  by (simp add: fill_def)


subsection \<open>Ordered dictionaries\<close>

text \<open>\<open>collections.OrderedDict\<close> (and \<open>dict\<close>, which keeps insertion order too): an
  association list, oldest entry first. Assignment to a present key keeps its position.\<close>

type_synonym ('k, 'v) odict = "('k \<times> 'v) list"

abbreviation od_get :: "('k, 'v) odict \<Rightarrow> 'k \<Rightarrow> 'v option" where
  "od_get d k \<equiv> map_of d k"

abbreviation od_keys :: "('k, 'v) odict \<Rightarrow> 'k list" where
  "od_keys d \<equiv> map fst d"

abbreviation od_vals :: "('k, 'v) odict \<Rightarrow> 'v list" where
  "od_vals d \<equiv> map snd d"

definition od_mem :: "'k \<Rightarrow> ('k, 'v) odict \<Rightarrow> bool" where
  "od_mem k d = list_ex (\<lambda>p. fst p = k) d"

lemma od_mem_iff: "od_mem k d \<longleftrightarrow> k \<in> fst ` set d"
  by (induction d) (auto simp: od_mem_def)

lemma od_mem_get [od_simps]: "od_mem k d \<longleftrightarrow> od_get d k \<noteq> None"
  by (simp add: od_mem_iff map_of_eq_None_iff)

definition od_set :: "'k \<Rightarrow> 'v \<Rightarrow> ('k, 'v) odict \<Rightarrow> ('k, 'v) odict" where
  "od_set k v d =
     (if od_mem k d then map (\<lambda>p. if fst p = k then (k, v) else p) d else d @ [(k, v)])"

definition od_pop :: "'k \<Rightarrow> ('k, 'v) odict \<Rightarrow> ('k, 'v) odict" where
  "od_pop k d = filter (\<lambda>p. fst p \<noteq> k) d"

definition od_move_to_end :: "'k \<Rightarrow> ('k, 'v) odict \<Rightarrow> ('k, 'v) odict" where
  "od_move_to_end k d =
     (case od_get d k of None \<Rightarrow> d | Some v \<Rightarrow> od_pop k d @ [(k, v)])"

lemma od_get_map_upd:
  "od_get (map (\<lambda>p. if fst p = k then (k, v) else p) d) k'
     = (if k' = k \<and> od_mem k d then Some v else od_get d k')"
  by (induction d) (auto simp: od_mem_def)

lemma od_get_set [od_simps]: "od_get (od_set k v d) k' = (if k' = k then Some v else od_get d k')"
  by (auto simp: od_set_def od_get_map_upd od_simps map_add_def split: option.splits)

lemma od_get_pop [od_simps]: "od_get (od_pop k d) k' = (if k' = k then None else od_get d k')"
  by (induction d) (auto simp: od_pop_def)

lemma od_get_move [od_simps]: "od_get (od_move_to_end k d) k' = od_get d k'"
  by (auto simp: od_move_to_end_def od_get_pop map_add_def split: option.splits)

lemma od_keys_pop: "od_keys (od_pop k d) = filter (\<lambda>x. x \<noteq> k) (od_keys d)"
  by (induction d) (auto simp: od_pop_def)

lemma od_keys_upd: "od_keys (map (\<lambda>p. if fst p = k then (k, v) else p) d) = od_keys d"
  by (induction d) auto

lemma od_keys_set: "od_keys (od_set k v d) = (if od_mem k d then od_keys d else od_keys d @ [k])"
  by (simp add: od_set_def od_keys_upd)

lemma distinct_od_set [simp]: "distinct (od_keys d) \<Longrightarrow> distinct (od_keys (od_set k v d))"
  by (simp only: od_keys_set) (auto simp: od_mem_iff)

lemma distinct_od_pop [simp]: "distinct (od_keys d) \<Longrightarrow> distinct (od_keys (od_pop k d))"
  by (simp only: od_keys_pop distinct_filter)

lemma distinct_od_move [simp]:
  "distinct (od_keys d) \<Longrightarrow> distinct (od_keys (od_move_to_end k d))"
  by (auto simp: od_move_to_end_def od_pop_def distinct_map_filter split: option.splits)

lemma od_pop_absent: "\<not> od_mem k d \<Longrightarrow> od_pop k d = d"
  by (induction d) (auto simp: od_pop_def od_mem_def)

text \<open>The first key that is not protected: the victim of a least-recently-used scan.\<close>

definition first_unprotected :: "'k list \<Rightarrow> ('k, 'v) odict \<Rightarrow> ('k \<times> 'v) option" where
  "first_unprotected prot d = List.find (\<lambda>p. fst p \<notin> set prot) d"

lemma first_unprotected_Some:
  assumes "first_unprotected prot d = Some (k, v)"
  shows "(k, v) \<in> set d" and "k \<notin> set prot"
proof -
  from assms obtain i where "i < length d" "fst (d ! i) \<notin> set prot" "(k, v) = d ! i"
    by (auto simp: first_unprotected_def find_Some_iff)
  then show "(k, v) \<in> set d" and "k \<notin> set prot"
    by (metis nth_mem, metis fst_conv)
qed

lemma first_unprotected_None:
  "first_unprotected prot d = None \<longleftrightarrow> fst ` set d \<subseteq> set prot"
  by (auto simp: first_unprotected_def find_None_iff)

text \<open>The scan passes over protected entries only.\<close>

lemma first_unprotected_oldest:
  "first_unprotected prot d = Some (k, v) \<Longrightarrow>
     \<exists>us vs. d = us @ (k, v) # vs \<and> fst ` set us \<subseteq> set prot"
proof (induction d)
  case (Cons p d)
  show ?case
  proof (cases "fst p \<in> set prot")
    case True
    with Cons.prems have "first_unprotected prot d = Some (k, v)"
      by (simp add: first_unprotected_def)
    then obtain us vs where "d = us @ (k, v) # vs" "fst ` set us \<subseteq> set prot"
      using Cons.IH by blast
    with True have "p # d = (p # us) @ (k, v) # vs \<and> fst ` set (p # us) \<subseteq> set prot" by simp
    then show ?thesis by blast
  next
    case False
    with Cons.prems have "p = (k, v)" by (simp add: first_unprotected_def)
    then show ?thesis by fastforce
  qed
qed (simp add: first_unprotected_def)


subsection \<open>Bit length\<close>

text \<open>\<open>int.bit_length\<close> of a non-negative number.\<close>

function bit_length :: "int \<Rightarrow> nat" where
  "bit_length n = (if n \<le> 0 then 0 else Suc (bit_length (n div 2)))"
  by pat_completeness auto
termination
  by (relation "measure nat") auto

declare bit_length.simps [simp del]

lemma bit_length_mersenne: "bit_length (2 ^ k - 1) = k"
proof (induction k)
  case 0
  then show ?case by (simp add: bit_length.simps)
next
  case (Suc k)
  have half: "(2 ^ Suc k - 1 :: int) div 2 = 2 ^ k - 1" by simp
  have "(1 :: int) < 2 ^ Suc k" by (rule one_less_power) simp_all
  then have nz: "\<not> (2 ^ Suc k - 1 :: int) \<le> 0" by linarith
  show ?case unfolding bit_length.simps [of "2 ^ Suc k - 1"] if_not_P [OF nz] half Suc.IH ..
qed

text \<open>Division that rounds up.\<close>

lemma ceil_div:
  fixes x k :: int
  assumes "0 < k"
  shows "x \<le> k * ((x + k - 1) div k)" "(x * k + k - 1) div k = x"
proof -
  have "(x + k - 1) mod k < k" using assms by simp
  moreover have "k * ((x + k - 1) div k) = x + k - 1 - (x + k - 1) mod k" by (simp add: minus_mod_eq_mult_div)
  ultimately show "x \<le> k * ((x + k - 1) div k)" by linarith
  have "(x * k + k - 1) div k = (k - 1 + x * k) div k" by (simp add: algebra_simps)
  also have "\<dots> = x + (k - 1) div k" using assms by (simp add: div_mult_self1)
  finally show "(x * k + k - 1) div k = x" using assms by (simp add: div_pos_pos_trivial)
qed

end
