(* ===== verification/C4Layout.thy ===== *)
theory C4Layout
  imports Prelude
begin

section \<open>The byte layout of compressed KV pages\<close>

text \<open>
  A page row of the c4 attention-KV pool packs 64 chunks. Chunk \<open>off\<close> of a page owns two
  segments of the row: 576 bytes at \<open>off * 576\<close> (448 bytes of fp8 \<open>nope\<close> and 64 bf16
  \<open>rope\<close> values) and 8 bytes at \<open>36864 + off * 8\<close> (7 scale bytes and one byte of
  padding). This theory models the layout constants and \<open>_row_bytes\<close> of
  \<^verbatim>\<open>swap_engine_p.py\<close>, its two chunk copies \<open>_copy_chunks_layer\<close> (flat byte indices) and
  \<open>_copy_chunks_all_layers\<close> (strided rows), and the two stores of
  \<^verbatim>\<open>index_buf_accessor_v4.py\<close>, \<open>_set_k_and_s_torch\<close> and \<open>_set_k_and_s_triton\<close>. Every
  buffer is the flat byte view of its tensor.
\<close>

subsection \<open>Layout constants\<close>

definition C4_PAGE_SIZE :: int where [simp]: "C4_PAGE_SIZE = 64"
definition SEG1_BYTES :: int where [simp]: "SEG1_BYTES = 448 + 64 * 2"
definition SCALE_STRIDE :: int where [simp]: "SCALE_STRIDE = 448 div 64 + 1"
definition SCALE_BASE :: int where [simp]: "SCALE_BASE = C4_PAGE_SIZE * SEG1_BYTES"

text \<open>\<open>math.ceil(nonpad / 576) * 576\<close>.\<close>

definition row_bytes_of :: "int \<Rightarrow> int \<Rightarrow> int" where
  "row_bytes_of qk_nope_head_dim qk_rope_head_dim =
     (let bpt = qk_nope_head_dim + qk_rope_head_dim * 2 + qk_nope_head_dim div 64 + 1;
          nonpad = C4_PAGE_SIZE * bpt
      in - ((- nonpad) div 576) * 576)"

definition seg1_addr :: "int \<Rightarrow> int \<Rightarrow> int" where
  "seg1_addr rb c = c div C4_PAGE_SIZE * rb + c mod C4_PAGE_SIZE * SEG1_BYTES"

definition scale_addr :: "int \<Rightarrow> int \<Rightarrow> int" where
  "scale_addr rb c = c div C4_PAGE_SIZE * rb + SCALE_BASE + c mod C4_PAGE_SIZE * SCALE_STRIDE"

text \<open>The 584 bytes of chunk \<open>c\<close> in a buffer.\<close>

definition chunk_bytes :: "int \<Rightarrow> buf \<Rightarrow> int \<Rightarrow> byte list" where
  "chunk_bytes rb b c =
     map b (int_range (seg1_addr rb c) 576) @ map b (int_range (scale_addr rb c) 8)"


subsection \<open>Chunk copies\<close>

text \<open>\<open>mirror[src] \<rightarrow> reserve[dst]\<close> for one layer. Pairs out of range are skipped.\<close>

definition in_bounds :: "int \<Rightarrow> int \<Rightarrow> int \<times> int \<Rightarrow> bool" where
  "in_bounds n_logical_pages reserve_pages p =
     (0 \<le> fst p \<and> fst p < n_logical_pages * C4_PAGE_SIZE
      \<and> 0 \<le> snd p \<and> snd p < reserve_pages * C4_PAGE_SIZE)"

definition copy_chunks_layer ::
  "int \<Rightarrow> int \<Rightarrow> int \<Rightarrow> buf \<Rightarrow> buf \<Rightarrow> int list \<Rightarrow> int list \<Rightarrow> buf" where
  "copy_chunks_layer rb n_logical_pages reserve_pages mirror b src_chunk dst_cell =
     (let ok = filter (in_bounds n_logical_pages reserve_pages) (zip src_chunk dst_cell);
          src = map fst ok; dst = map snd ok
      in if src = [] then b
         else
           let s1_src = concat (map (\<lambda>s. int_range (s div C4_PAGE_SIZE * rb
                                       + s mod C4_PAGE_SIZE * SEG1_BYTES) 576) src);
               s1_dst = concat (map (\<lambda>d. int_range (d div C4_PAGE_SIZE * rb
                                       + d mod C4_PAGE_SIZE * SEG1_BYTES) 576) dst);
               sc_src = concat (map (\<lambda>s. int_range (s div C4_PAGE_SIZE * rb + SCALE_BASE
                                       + s mod C4_PAGE_SIZE * SCALE_STRIDE) 8) src);
               sc_dst = concat (map (\<lambda>d. int_range (d div C4_PAGE_SIZE * rb + SCALE_BASE
                                       + d mod C4_PAGE_SIZE * SCALE_STRIDE) 8) dst);
               b1 = scatter (zip s1_dst (map mirror s1_src)) b
           in scatter (zip sc_dst (map mirror sc_src)) b1)"

text \<open>\<open>t.as_strided((pages, 64, w), (rb, w, 1), base)[pg, off]\<close>: one row of \<open>w\<close> bytes, and
  the assignment of a row.\<close>

definition strided_row :: "int \<Rightarrow> nat \<Rightarrow> int \<Rightarrow> buf \<Rightarrow> int \<Rightarrow> int \<Rightarrow> byte list" where
  "strided_row rb w base b pg off = map b (int_range (base + pg * rb + off * int w) w)"

definition strided_row_set ::
  "int \<Rightarrow> nat \<Rightarrow> int \<Rightarrow> int \<Rightarrow> int \<Rightarrow> byte list \<Rightarrow> buf \<Rightarrow> buf" where
  "strided_row_set rb w base pg off row b =
     scatter (zip (int_range (base + pg * rb + off * int w) w) row) b"

definition copy_chunks_all_layers ::
  "int \<Rightarrow> int \<Rightarrow> int \<Rightarrow> (nat \<Rightarrow> buf) \<Rightarrow> (nat \<Rightarrow> buf) \<Rightarrow> int list \<Rightarrow> int list \<Rightarrow> nat \<Rightarrow> buf" where
  "copy_chunks_all_layers rb n_logical_pages reserve_pages mirrors bufs src_chunk dst_cell =
     (let ok = filter (in_bounds n_logical_pages reserve_pages) (zip src_chunk dst_cell)
      in if src_chunk = [] \<or> ok = [] then bufs
         else
           let src_pg = map (\<lambda>p. fst p div C4_PAGE_SIZE) ok;
               src_off = map (\<lambda>p. fst p mod C4_PAGE_SIZE) ok;
               dst_pg = map (\<lambda>p. snd p div C4_PAGE_SIZE) ok;
               dst_off = map (\<lambda>p. snd p mod C4_PAGE_SIZE) ok;
               all_s1 = (\<lambda>l. map2 (strided_row rb 576 0 (mirrors l)) src_pg src_off);
               all_sc = (\<lambda>l. map2 (strided_row rb 8 SCALE_BASE (mirrors l)) src_pg src_off)
           in (\<lambda>l. fold (\<lambda>((pg, off), row). strided_row_set rb 8 SCALE_BASE pg off row)
                        (zip (zip dst_pg dst_off) (all_sc l))
                        (fold (\<lambda>((pg, off), row). strided_row_set rb 576 0 pg off row)
                              (zip (zip dst_pg dst_off) (all_s1 l)) (bufs l))))"


subsection \<open>Stores of quantised packs\<close>

text \<open>\<open>NopeFp8RopeBf16Pack\<close>: one row per token; a bf16 value is two bytes.\<close>

record pack =
  k_nope_fp8 :: "byte list list"
  k_rope_bf16 :: "byte list list"
  scale_k_nope_ue8m0 :: "byte list list"

definition pack_rows :: "pack \<Rightarrow> (byte list \<times> byte list \<times> byte list) list" where
  "pack_rows p = zip (k_nope_fp8 p) (zip (k_rope_bf16 p) (scale_k_nope_ue8m0 p))"

definition pack_dims :: "pack \<Rightarrow> bool" where
  "pack_dims p \<longleftrightarrow> list_all (\<lambda>r. length r = 448) (k_nope_fp8 p)
     \<and> list_all (\<lambda>r. length r = 2 * 64) (k_rope_bf16 p)
     \<and> list_all (\<lambda>r. length r = 7) (scale_k_nope_ue8m0 p)"

definition pack_len :: "nat \<Rightarrow> pack \<Rightarrow> bool" where
  "pack_len n p \<longleftrightarrow> length (k_nope_fp8 p) = n \<and> length (k_rope_bf16 p) = n
     \<and> length (scale_k_nope_ue8m0 p) = n"

text \<open>A slice assignment through the bf16 view: \<open>n\<close> is the number of bytes.\<close>

definition slice_assign_bf16 :: "int \<Rightarrow> buf \<Rightarrow> int \<Rightarrow> int \<Rightarrow> byte list \<Rightarrow> exn + buf" where
  "slice_assign_bf16 n b start stop vals =
     (let s = slice_bound (n div 2) start; t = slice_bound (n div 2) stop
      in if 2 * (t - s) = int (length vals)
         then Inr (\<lambda>i. if 2 * s \<le> i \<and> i < 2 * t then vals ! nat (i - 2 * s) else b i)
         else Inl RuntimeError)"

definition set_k_and_s_torch_row ::
  "int \<Rightarrow> int \<Rightarrow> int \<Rightarrow> int \<Rightarrow> byte list \<times> byte list \<times> byte list \<Rightarrow> buf \<Rightarrow> (unit, buf) outcome" where
  "set_k_and_s_torch_row num_pages rb page_size loc row b =
     (case row of (nope, rope, scl) \<Rightarrow>
       let numel = num_pages * rb;
           pg = loc div page_size;
           off = loc mod page_size;
           nope_offset = pg * rb + off * (448 + 64 * 2);
           rope_offset = pg * rb div 2 + (off * (448 + 64 * 2) + 448) div 2;
           s_offset = pg * rb + page_size * (448 + 64 * 2) + off * (7 + 1)
       in case slice_assign numel b nope_offset (nope_offset + 448) nope of
            Inl x \<Rightarrow> (Inl x, b)
          | Inr b1 \<Rightarrow>
             (case slice_assign_bf16 numel b1 rope_offset (rope_offset + 64) rope of
                Inl x \<Rightarrow> (Inl x, b1)
              | Inr b2 \<Rightarrow>
                 (case slice_assign numel b2 s_offset (s_offset + 7) scl of
                    Inl x \<Rightarrow> (Inl x, b2)
                  | Inr b3 \<Rightarrow> (Inr (), b3))))"

fun set_k_and_s_torch_loop ::
  "int \<Rightarrow> int \<Rightarrow> int \<Rightarrow> (int \<times> byte list \<times> byte list \<times> byte list) list \<Rightarrow> buf \<Rightarrow> (unit, buf) outcome" where
  "set_k_and_s_torch_loop num_pages rb page_size [] b = (Inr (), b)"
| "set_k_and_s_torch_loop num_pages rb page_size ((loc, row) # rest) b =
     (case set_k_and_s_torch_row num_pages rb page_size loc row b of
        (Inl x, b') \<Rightarrow> (Inl x, b')
      | (Inr _, b') \<Rightarrow> set_k_and_s_torch_loop num_pages rb page_size rest b')"

definition set_k_and_s_torch ::
  "int \<Rightarrow> int \<Rightarrow> buf \<Rightarrow> int list \<Rightarrow> pack \<Rightarrow> int \<Rightarrow> (unit, buf) outcome" where
  "set_k_and_s_torch num_pages rb b loc p page_size =
     (if \<not> pack_len (length loc) p then (Inl AssertionError, b)
      else set_k_and_s_torch_loop num_pages rb page_size (zip loc (pack_rows p)) b)"

text \<open>The kernel: one program per token, without bounds checks, element addresses computed
  in each view's own unit.\<close>

definition set_k_and_s_triton_kernel ::
  "int \<Rightarrow> int \<Rightarrow> int \<times> byte list \<times> byte list \<times> byte list \<Rightarrow> buf \<Rightarrow> buf" where
  "set_k_and_s_triton_kernel BUF_NUMEL_PER_PAGE PAGE_SIZE tok b =
     (case tok of (loc, nope, rope, scl) \<Rightarrow>
       let pg = loc div PAGE_SIZE;
           off = loc mod PAGE_SIZE;
           out_k_nope = int_range (pg * BUF_NUMEL_PER_PAGE + off * (448 + 64 * 2)) 448;
           out_k_rope = int_range (pg * BUF_NUMEL_PER_PAGE div 2
                          + off * ((448 + 64 * 2) div 2) + 448 div 2) 64;
           out_s = int_range (pg * BUF_NUMEL_PER_PAGE + PAGE_SIZE * (448 + 64 * 2)
                          + off * (7 + 1)) 7;
           b1 = scatter (zip out_k_nope nope) b;
           b2 = scatter (zip (concat (map (\<lambda>e. [2 * e, 2 * e + 1]) out_k_rope)) rope) b1
       in scatter (zip out_s scl) b2)"

definition set_k_and_s_triton ::
  "int \<Rightarrow> buf \<Rightarrow> int list \<Rightarrow> pack \<Rightarrow> int \<Rightarrow> (unit, buf) outcome" where
  "set_k_and_s_triton rb b loc p page_size =
     (if \<not> pack_len (length loc) p then (Inl AssertionError, b)
      else (Inr (), fold (set_k_and_s_triton_kernel rb page_size) (zip loc (pack_rows p)) b))"


subsection \<open>Chunks own disjoint bytes\<close>

text \<open>A row is wide enough for its 64 chunks.\<close>

abbreviation row_fits :: "int \<Rightarrow> bool" where
  "row_fits rb \<equiv> 64 * (576 + 8) \<le> rb"

definition chunk_addrs :: "int \<Rightarrow> int \<Rightarrow> int set" where
  "chunk_addrs rb c = {seg1_addr rb c ..< seg1_addr rb c + 576}
     \<union> {scale_addr rb c ..< scale_addr rb c + 8}"

lemma chunk_addr_row:
  assumes "row_fits rb" "a \<in> chunk_addrs rb c"
  shows "a div rb = c div 64"
    and "a mod rb < 36864 \<longrightarrow> a mod rb div 576 = c mod 64"
    and "36864 \<le> a mod rb \<longrightarrow> (a mod rb - 36864) div 8 = c mod 64"
proof -
  define o' where "o' = c mod 64"
  have o: "0 \<le> o'" "o' < 64" by (simp_all add: o'_def)
  consider j where "0 \<le> j" "j < 576" "a = c div 64 * rb + (o' * 576 + j)"
    | j where "0 \<le> j" "j < 8" "a = c div 64 * rb + (36864 + o' * 8 + j)"
  proof -
    from assms(2) consider "seg1_addr rb c \<le> a \<and> a < seg1_addr rb c + 576"
      | "scale_addr rb c \<le> a \<and> a < scale_addr rb c + 8"
      by (auto simp: chunk_addrs_def)
    then show thesis
    proof cases
      case 1
      then show ?thesis
        by (intro that(1) [of "a - seg1_addr rb c"]) (auto simp: seg1_addr_def o'_def)
    next
      case 2
      then show ?thesis
        by (intro that(2) [of "a - scale_addr rb c"]) (auto simp: scale_addr_def o'_def)
    qed
  qed
  then have "a div rb = c div 64 \<and> (a mod rb < 36864 \<longrightarrow> a mod rb div 576 = o')
      \<and> (36864 \<le> a mod rb \<longrightarrow> (a mod rb - 36864) div 8 = o')"
  proof cases
    case (1 j)
    have r: "0 \<le> o' * 576 + j" "o' * 576 + j < 36864" "(o' * 576 + j) div 576 = o'"
      using o 1 by auto
    with 1 assms(1) row_div_mod [of "o' * 576 + j" rb "c div 64"] show ?thesis by simp
  next
    case (2 j)
    have r: "36864 \<le> 36864 + o' * 8 + j" "36864 + o' * 8 + j < 37376" "(o' * 8 + j) div 8 = o'"
      using o 2 by auto
    with 2 assms(1) row_div_mod [of "36864 + o' * 8 + j" rb "c div 64"] show ?thesis
      by (simp add: add.assoc)
  qed
  then show "a div rb = c div 64"
    and "a mod rb < 36864 \<longrightarrow> a mod rb div 576 = c mod 64"
    and "36864 \<le> a mod rb \<longrightarrow> (a mod rb - 36864) div 8 = c mod 64"
    by (simp_all add: o'_def)
qed

lemma chunk_addrs_disjoint:
  assumes "row_fits rb" "c \<noteq> d"
  shows "chunk_addrs rb c \<inter> chunk_addrs rb d = {}"
proof (rule ccontr)
  assume "chunk_addrs rb c \<inter> chunk_addrs rb d \<noteq> {}"
  then obtain a where a: "a \<in> chunk_addrs rb c" "a \<in> chunk_addrs rb d" by blast
  have "c div 64 = d div 64" "c mod 64 = d mod 64"
    using chunk_addr_row [OF assms(1) a(1)] chunk_addr_row [OF assms(1) a(2)]
    by (metis, metis linorder_not_le)
  then have "c = d" by (metis mult_div_mod_eq)
  with assms(2) show False by simp
qed

lemma seg_scale_disjoint:
  assumes "row_fits rb"
  shows "{seg1_addr rb c ..< seg1_addr rb c + 576} \<inter> {scale_addr rb d ..< scale_addr rb d + 8} = {}"
proof (cases "c = d")
  case True
  have "0 \<le> d mod 64" "d mod 64 < 64" by simp_all
  then show ?thesis unfolding True by (auto simp: seg1_addr_def scale_addr_def)
next
  case False
  from chunk_addrs_disjoint [OF assms this] show ?thesis unfolding chunk_addrs_def by blast
qed

lemma chunk_addrs_bounds:
  assumes "row_fits rb" "0 \<le> c" "c < n * 64" "a \<in> chunk_addrs rb c"
  shows "0 \<le> a" "a < n * rb"
proof -
  have row: "a div rb = c div 64" using chunk_addr_row(1) [OF assms(1,4)] .
  have rb: "0 < rb" using assms(1) by simp
  have "0 \<le> c div 64" "c div 64 + 1 \<le> n" using assms(2,3) by auto
  moreover have "a = a div rb * rb + a mod rb" by simp
  moreover have "0 \<le> a mod rb" "a mod rb < rb" using rb by simp_all
  ultimately show "0 \<le> a"
    using row rb by (metis add_nonneg_nonneg less_imp_le mult_nonneg_nonneg)
  have "a < (c div 64 + 1) * rb"
    using \<open>a = a div rb * rb + a mod rb\<close> \<open>a mod rb < rb\<close> row by (simp add: distrib_right)
  also have "\<dots> \<le> n * rb" using \<open>c div 64 + 1 \<le> n\<close> rb by (simp add: mult_right_mono)
  finally show "a < n * rb" .
qed

lemma chunk_bytes_cong:
  "(\<And>a. a \<in> chunk_addrs rb c \<Longrightarrow> b a = b' a) \<Longrightarrow> chunk_bytes rb b c = chunk_bytes rb b' c"
  by (auto simp: chunk_bytes_def chunk_addrs_def)

lemma chunk_bytes_eqD:
  assumes "chunk_bytes rb b c = chunk_bytes rb b' d" "k < 576"
  shows "b (seg1_addr rb c + int k) = b' (seg1_addr rb d + int k)"
proof -
  have "map b (int_range (seg1_addr rb c) 576) = map b' (int_range (seg1_addr rb d) 576)"
    using assms(1) by (simp add: chunk_bytes_def)
  from arg_cong [OF this, of "\<lambda>xs. xs ! k"] assms(2) show ?thesis by simp
qed


subsection \<open>Both chunk copies move whole chunks\<close>

text \<open>One pair of a copy: the two segments of chunk \<open>s\<close> of the mirror land on cell \<open>d\<close>.\<close>

definition copy_seg1 :: "int \<Rightarrow> buf \<Rightarrow> int \<times> int \<Rightarrow> buf \<Rightarrow> buf" where
  "copy_seg1 rb mirror p = write_run (seg1_addr rb (snd p)) (map mirror (int_range (seg1_addr rb (fst p)) 576))"

definition copy_scale :: "int \<Rightarrow> buf \<Rightarrow> int \<times> int \<Rightarrow> buf \<Rightarrow> buf" where
  "copy_scale rb mirror p = write_run (scale_addr rb (snd p)) (map mirror (int_range (scale_addr rb (fst p)) 8))"

definition copy_pairs :: "int \<Rightarrow> buf \<Rightarrow> (int \<times> int) list \<Rightarrow> buf \<Rightarrow> buf" where
  "copy_pairs rb mirror ps b = fold (copy_scale rb mirror) ps (fold (copy_seg1 rb mirror) ps b)"

lemma scatter_runs:
  "scatter (zip (concat (map (\<lambda>p. int_range (A p) n) ps))
                (map m (concat (map (\<lambda>p. int_range (S p) n) ps)))) b
     = fold (\<lambda>p. write_run (A p) (map m (int_range (S p) n))) ps b"
proof (induction ps arbitrary: b)
  case (Cons p ps)
  have "scatter (zip (int_range (A p) n) (map m (int_range (S p) n))) b
      = write_run (A p) (map m (int_range (S p) n)) b"
    using scatter_run [of "A p" "map m (int_range (S p) n)" b] by simp
  then show ?case by (simp add: scatter_append Cons.IH)
qed simp

lemma copy_chunks_layer_pairs:
  "copy_chunks_layer rb np rp mirror b src dst
     = copy_pairs rb mirror (filter (in_bounds np rp) (zip src dst)) b"
proof -
  define ok where "ok = filter (in_bounds np rp) (zip src dst)"
  have c: "concat (map f (map g ok)) = concat (map (\<lambda>p. f (g p)) ok)" for f :: "int \<Rightarrow> int list" and g
    by (simp add: comp_def)
  show ?thesis
    unfolding copy_chunks_layer_def Let_def ok_def [symmetric] c scatter_runs
    by (simp add: copy_pairs_def copy_seg1_def [abs_def] copy_scale_def [abs_def]
        seg1_addr_def scale_addr_def add.assoc)
qed

lemma strided_rows_fold:
  "fold (\<lambda>((pg, off), row). strided_row_set rb w base pg off row)
     (zip (zip (map D1 ok) (map D2 ok)) (map2 (strided_row rb w base m) (map S1 ok) (map S2 ok))) b
   = fold (\<lambda>p. write_run (base + D1 p * rb + D2 p * int w)
              (map m (int_range (base + S1 p * rb + S2 p * int w) w))) ok b"
proof (induction ok arbitrary: b)
  case (Cons p ok)
  have "strided_row_set rb w base (D1 p) (D2 p) (strided_row rb w base m (S1 p) (S2 p)) b
      = write_run (base + D1 p * rb + D2 p * int w)
          (map m (int_range (base + S1 p * rb + S2 p * int w) w)) b"
    using scatter_run [of "base + D1 p * rb + D2 p * int w"
        "map m (int_range (base + S1 p * rb + S2 p * int w) w)" b]
    by (simp add: strided_row_set_def strided_row_def)
  then show ?case by (simp add: Cons.IH)
qed simp

lemma copy_chunks_all_layers_pairs:
  "copy_chunks_all_layers rb np rp mirrors bufs src dst l
     = copy_pairs rb (mirrors l) (filter (in_bounds np rp) (zip src dst)) (bufs l)"
proof -
  define ok where "ok = filter (in_bounds np rp) (zip src dst)"
  have empty: "src = [] \<Longrightarrow> ok = []" by (simp add: ok_def)
  show ?thesis
    unfolding copy_chunks_all_layers_def Let_def ok_def [symmetric] strided_rows_fold
    using empty
    by (auto simp: copy_pairs_def copy_seg1_def [abs_def] copy_scale_def [abs_def]
        seg1_addr_def scale_addr_def add_ac)
qed


lemma fold_runs_other:
  "(\<And>p. p \<in> set ps \<Longrightarrow> a \<notin> {A p ..< A p + int n}) \<Longrightarrow>
     fold (\<lambda>p. write_run (A p) (map m (int_range (S p) n))) ps b a = b a"
proof (induction ps arbitrary: b)
  case (Cons p ps)
  have "a \<notin> {A p ..< A p + int n}" using Cons.prems by simp
  then have "write_run (A p) (map m (int_range (S p) n)) b a = b a"
    by (intro write_run_out) auto
  with Cons show ?case by simp
qed simp

lemma fold_runs_in:
  assumes "p \<in> set ps" "k < n"
    and "\<And>p q. p \<in> set ps \<Longrightarrow> q \<in> set ps \<Longrightarrow> p \<noteq> q \<Longrightarrow>
           {A p ..< A p + int n} \<inter> {A q ..< A q + int n} = {}"
  shows "fold (\<lambda>p. write_run (A p) (map m (int_range (S p) n))) ps b (A p + int k) = m (S p + int k)"
  using assms
proof (induction ps arbitrary: b)
  case (Cons q ps)
  show ?case
  proof (cases "p \<in> set ps")
    case True
    have "fold (\<lambda>p. write_run (A p) (map m (int_range (S p) n))) ps
        (write_run (A q) (map m (int_range (S q) n)) b) (A p + int k) = m (S p + int k)"
      by (rule Cons.IH [OF True Cons.prems(2)]) (rule Cons.prems(3), auto)
    then show ?thesis by simp
  next
    case False
    with Cons.prems have q: "p = q" by simp
    have "A p + int k \<notin> {A r ..< A r + int n}" if "r \<in> set ps" for r
    proof -
      have "r \<noteq> q" using that False q by blast
      with Cons.prems(3) [of q r] that q Cons.prems(2) show ?thesis by auto
    qed
    then have "fold (\<lambda>p. write_run (A p) (map m (int_range (S p) n))) ps
        (write_run (A q) (map m (int_range (S q) n)) b) (A p + int k)
      = write_run (A q) (map m (int_range (S q) n)) b (A p + int k)"
      by (rule fold_runs_other)
    also have "\<dots> = m (S p + int k)"
      using Cons.prems(2) q by (simp add: write_run_def)
    finally show ?thesis by simp
  qed
qed simp

lemma copy_pairs_other:
  assumes "\<And>p. p \<in> set ps \<Longrightarrow> a \<notin> chunk_addrs rb (snd p)"
  shows "copy_pairs rb mirror ps b a = b a"
proof -
  have 1: "a \<notin> {seg1_addr rb (snd p) ..< seg1_addr rb (snd p) + int 576}"
    and 2: "a \<notin> {scale_addr rb (snd p) ..< scale_addr rb (snd p) + int 8}" if "p \<in> set ps" for p
    using assms [OF that] by (auto simp: chunk_addrs_def)
  show ?thesis
    unfolding copy_pairs_def copy_scale_def copy_seg1_def
    by (simp only: fold_runs_other [OF 2] fold_runs_other [OF 1])
qed

lemma copy_pairs_untouched:
  assumes "row_fits rb" "d \<notin> snd ` set ps"
  shows "chunk_bytes rb (copy_pairs rb mirror ps b) d = chunk_bytes rb b d"
proof (rule chunk_bytes_cong, rule copy_pairs_other)
  fix a p assume a: "a \<in> chunk_addrs rb d" and p: "p \<in> set ps"
  with assms have "d \<noteq> snd p" by force
  from chunk_addrs_disjoint [OF assms(1) this] a show "a \<notin> chunk_addrs rb (snd p)" by blast
qed

lemma seg1_runs_disjoint:
  assumes "row_fits rb" "c \<noteq> d"
  shows "{seg1_addr rb c ..< seg1_addr rb c + int 576} \<inter> {seg1_addr rb d ..< seg1_addr rb d + int 576} = {}"
  using chunk_addrs_disjoint [OF assms] unfolding chunk_addrs_def of_nat_numeral by blast

lemma scale_runs_disjoint:
  assumes "row_fits rb" "c \<noteq> d"
  shows "{scale_addr rb c ..< scale_addr rb c + int 8} \<inter> {scale_addr rb d ..< scale_addr rb d + int 8} = {}"
  using chunk_addrs_disjoint [OF assms] unfolding chunk_addrs_def of_nat_numeral by blast

lemma distinct_snd_neq:
  "distinct (map snd ps) \<Longrightarrow> p \<in> set ps \<Longrightarrow> q \<in> set ps \<Longrightarrow> p \<noteq> q \<Longrightarrow> snd p \<noteq> snd q"
  by (auto simp: distinct_map inj_on_def)

lemma copy_pairs_copied:
  assumes fits: "row_fits rb" and dst: "distinct (map snd ps)" and p: "(s, d) \<in> set ps"
  shows "chunk_bytes rb (copy_pairs rb mirror ps b) d = chunk_bytes rb mirror s"
proof -
  let ?b1 = "fold (copy_seg1 rb mirror) ps b"
  let ?b2 = "copy_pairs rb mirror ps b"
  have seg: "?b1 (seg1_addr rb d + int k) = mirror (seg1_addr rb s + int k)" if "k < 576" for k
    using fold_runs_in [where A = "\<lambda>p. seg1_addr rb (snd p)" and S = "\<lambda>p. seg1_addr rb (fst p)",
        OF p that seg1_runs_disjoint [OF fits distinct_snd_neq [OF dst]], of mirror b]
    unfolding copy_seg1_def fst_conv snd_conv .
  have keep: "?b2 a = ?b1 a" if "a \<in> {seg1_addr rb d ..< seg1_addr rb d + 576}" for a
  proof -
    have "a \<notin> {scale_addr rb (snd q) ..< scale_addr rb (snd q) + int 8}" for q
      using seg_scale_disjoint [OF fits, of d "snd q"] that by auto
    then show ?thesis unfolding copy_pairs_def copy_scale_def by (rule fold_runs_other)
  qed
  have scl: "?b2 (scale_addr rb d + int k) = mirror (scale_addr rb s + int k)" if "k < 8" for k
    using fold_runs_in [where A = "\<lambda>p. scale_addr rb (snd p)" and S = "\<lambda>p. scale_addr rb (fst p)",
        OF p that scale_runs_disjoint [OF fits distinct_snd_neq [OF dst]], of mirror ?b1]
    unfolding copy_pairs_def copy_scale_def fst_conv snd_conv .
  have "map ?b2 (int_range (seg1_addr rb d) 576) = map mirror (int_range (seg1_addr rb s) 576)"
    by (rule nth_equalityI) (simp_all add: keep seg)
  moreover have "map ?b2 (int_range (scale_addr rb d) 8) = map mirror (int_range (scale_addr rb s) 8)"
    by (rule nth_equalityI) (simp_all add: scl)
  ultimately show ?thesis by (simp add: chunk_bytes_def)
qed


subsection \<open>Both stores write the same bytes\<close>

text \<open>What storing one token at chunk \<open>c\<close> writes.\<close>

definition put_chunk :: "int \<Rightarrow> int \<Rightarrow> byte list \<times> byte list \<times> byte list \<Rightarrow> buf \<Rightarrow> buf" where
  "put_chunk rb c row b = (case row of (nope, rope, scl) \<Rightarrow>
     write_run (scale_addr rb c) scl (write_run (seg1_addr rb c + 448) rope
       (write_run (seg1_addr rb c) nope b)))"

definition row_dims :: "byte list \<times> byte list \<times> byte list \<Rightarrow> bool" where
  "row_dims row = (case row of (nope, rope, scl) \<Rightarrow>
     length nope = 448 \<and> length rope = 128 \<and> length scl = 7)"

lemma pack_rows_dims:
  assumes "pack_dims p" "r \<in> set (pack_rows p)"
  shows "row_dims r"
proof -
  obtain nope rope scl where r: "r = (nope, rope, scl)" by (cases r)
  with assms(2) have "nope \<in> set (k_nope_fp8 p)" "(rope, scl) \<in> set (zip (k_rope_bf16 p) (scale_k_nope_ue8m0 p))"
    by (auto simp: pack_rows_def dest: set_zip_leftD set_zip_rightD)
  moreover from this(2) have "rope \<in> set (k_rope_bf16 p)" "scl \<in> set (scale_k_nope_ue8m0 p)"
    by (auto dest: set_zip_leftD set_zip_rightD)
  ultimately show ?thesis using assms(1) by (simp add: r pack_dims_def row_dims_def list_all_iff)
qed

lemma length_pack_rows [simp]: "pack_len n p \<Longrightarrow> length (pack_rows p) = n"
  by (simp add: pack_len_def pack_rows_def)

lemma slice_assign_run:
  assumes "0 \<le> s" "s + int (length vs) \<le> n"
  shows "slice_assign n b s (s + int (length vs)) vs = Inr (write_run s vs b)"
  using assms by (simp add: slice_assign_def write_run_def)

lemma slice_assign_bf16_run:
  assumes "0 \<le> s" "2 * (s + int k) \<le> n" "length vs = 2 * k"
  shows "slice_assign_bf16 n b s (s + int k) vs = Inr (write_run (2 * s) vs b)"
proof -
  have "slice_bound (n div 2) s = s" "slice_bound (n div 2) (s + int k) = s + int k"
    using assms(1,2) by (auto intro!: slice_bound_id)
  with assms(3) show ?thesis
    by (simp add: slice_assign_bf16_def write_run_def distrib_left)
qed

lemma chunk_fits_buffer:
  assumes "row_fits rb" "0 \<le> c" "c < n * 64"
  shows "0 \<le> seg1_addr rb c" "seg1_addr rb c + 576 \<le> n * rb"
    and "0 \<le> scale_addr rb c" "scale_addr rb c + 8 \<le> n * rb"
proof -
  have "seg1_addr rb c \<in> chunk_addrs rb c" "seg1_addr rb c + 575 \<in> chunk_addrs rb c"
    "scale_addr rb c \<in> chunk_addrs rb c" "scale_addr rb c + 7 \<in> chunk_addrs rb c"
    by (auto simp: chunk_addrs_def)
  from chunk_addrs_bounds [OF assms this(1)] chunk_addrs_bounds [OF assms this(2)]
    chunk_addrs_bounds [OF assms this(3)] chunk_addrs_bounds [OF assms this(4)]
  show "0 \<le> seg1_addr rb c" "seg1_addr rb c + 576 \<le> n * rb"
    and "0 \<le> scale_addr rb c" "scale_addr rb c + 8 \<le> n * rb" by auto
qed

lemma even_half: "even (x :: int) \<Longrightarrow> 2 * (x div 2) = x"
  by simp

lemma rope_offset_torch:
  assumes "even rb"
  shows "2 * (c div 64 * rb div 2 + (c mod 64 * 576 + 448) div 2) = seg1_addr rb c + 448"
proof -
  have "2 * (c div 64 * rb div 2) = c div 64 * rb" using assms by (intro even_half) simp
  moreover have "2 * ((c mod 64 * 576 + 448) div 2) = c mod 64 * 576 + 448"
    by (intro even_half) simp
  ultimately show ?thesis by (simp add: seg1_addr_def distrib_left)
qed

lemma set_k_and_s_torch_row_put:
  assumes "row_fits rb" "even rb" "0 \<le> c" "c < n * 64" "row_dims row"
  shows "set_k_and_s_torch_row n rb 64 c row b = (Inr (), put_chunk rb c row b)"
proof -
  obtain nope rope scl where row: "row = (nope, rope, scl)" by (cases row)
  note f = chunk_fits_buffer [OF assms(1,3,4)]
  let ?ro = "c div 64 * rb div 2 + (c mod 64 * 576 + 448) div 2"
  note ro = rope_offset_torch [OF assms(2), of c]
  have dims: "length nope = 448" "length rope = 128" "length scl = 7"
    using assms(5) by (simp_all add: row row_dims_def)
  have s1: "slice_assign (n * rb) b (seg1_addr rb c) (seg1_addr rb c + 448) nope
      = Inr (write_run (seg1_addr rb c) nope b)"
    using slice_assign_run [of "seg1_addr rb c" nope "n * rb" b] f dims by simp
  have s2: "slice_assign_bf16 (n * rb) b' ?ro (?ro + 64) rope
      = Inr (write_run (seg1_addr rb c + 448) rope b')" for b'
  proof -
    have "0 \<le> 2 * ?ro" using f(1) unfolding ro by simp
    then have "0 \<le> ?ro" by (simp only: zero_le_mult_iff) simp
    moreover have "2 * (?ro + int 64) \<le> n * rb" using f(2) unfolding distrib_left [of 2 ?ro] ro by simp
    ultimately show ?thesis
      using slice_assign_bf16_run [of ?ro 64 "n * rb" rope b'] dims(2) unfolding ro by simp
  qed
  have s3: "slice_assign (n * rb) b' (scale_addr rb c) (scale_addr rb c + 7) scl
      = Inr (write_run (scale_addr rb c) scl b')" for b'
    using slice_assign_run [of "scale_addr rb c" scl "n * rb" b'] f dims by simp
  have o1: "c div 64 * rb + c mod 64 * (448 + 64 * 2) = seg1_addr rb c"
    and o3: "c div 64 * rb + 64 * (448 + 64 * 2) + c mod 64 * (7 + 1) = scale_addr rb c"
    and o2: "(448 + 64 * 2 :: int) = 576"
    by (simp_all add: seg1_addr_def scale_addr_def)
  show ?thesis
    unfolding row set_k_and_s_torch_row_def put_chunk_def Let_def prod.case o1 o3
    unfolding o2 s1 s2 s3 sum.case ..
qed

lemma byte_pairs_int_range:
  "concat (map (\<lambda>e. [2 * e, 2 * e + 1]) (int_range E n)) = int_range (2 * E) (2 * n)"
  by (induction n arbitrary: E) (simp_all add: int_range_Suc distrib_left add.commute)

lemma set_k_and_s_triton_kernel_put:
  assumes "even rb" "row_dims row"
  shows "set_k_and_s_triton_kernel rb 64 (c, row) b = put_chunk rb c row b"
proof -
  obtain nope rope scl where row: "row = (nope, rope, scl)" by (cases row)
  let ?ro = "c div 64 * rb div 2 + c mod 64 * 288 + 224"
  have dims: "length nope = 448" "length rope = 128" "length scl = 7"
    using assms(2) by (simp_all add: row row_dims_def)
  have "2 * (c div 64 * rb div 2) = c div 64 * rb" using assms(1) by (intro even_half) simp
  then have ro: "2 * ?ro = seg1_addr rb c + 448" by (simp add: seg1_addr_def)
  have r: "scatter (zip (concat (map (\<lambda>e. [2 * e, 2 * e + 1]) (int_range ?ro 64))) rope) b'
      = write_run (seg1_addr rb c + 448) rope b'" for b'
    unfolding byte_pairs_int_range ro using scatter_run [of "seg1_addr rb c + 448" rope b'] dims by simp
  have n: "scatter (zip (int_range (seg1_addr rb c) 448) nope) b = write_run (seg1_addr rb c) nope b"
    using scatter_run [of "seg1_addr rb c" nope b] dims by simp
  have s: "scatter (zip (int_range (scale_addr rb c) 7) scl) b' = write_run (scale_addr rb c) scl b'" for b'
    using scatter_run [of "scale_addr rb c" scl b'] dims by simp
  show ?thesis
    using r n s
    by (simp add: row set_k_and_s_triton_kernel_def put_chunk_def seg1_addr_def scale_addr_def Let_def)
qed

lemma set_k_and_s_torch_loop_put:
  assumes "row_fits rb" "even rb"
    and "\<forall>(c, row) \<in> set toks. 0 \<le> c \<and> c < n * 64 \<and> row_dims row"
  shows "set_k_and_s_torch_loop n rb 64 toks b = (Inr (), fold (\<lambda>(c, row). put_chunk rb c row) toks b)"
  using assms(3)
proof (induction toks arbitrary: b)
  case (Cons t toks)
  obtain c row where t: "t = (c, row)" by (cases t)
  with Cons show ?case by (simp add: set_k_and_s_torch_row_put [OF assms(1,2)])
qed simp

lemma put_chunk_other: "row_dims row \<Longrightarrow> a \<notin> chunk_addrs rb c \<Longrightarrow> put_chunk rb c row b a = b a"
  by (auto simp: put_chunk_def row_dims_def chunk_addrs_def write_run_def split: prod.splits)

lemma put_chunk_untouched:
  assumes "row_fits rb" "row_dims row" "d \<noteq> c"
  shows "chunk_bytes rb (put_chunk rb c row b) d = chunk_bytes rb b d"
  using chunk_addrs_disjoint [OF assms(1,3)]
  by (intro chunk_bytes_cong put_chunk_other [OF assms(2)]) blast

text \<open>The bytes a store leaves at its chunk: the pack row, and the old byte of padding.\<close>

lemma put_chunk_bytes:
  assumes fits: "row_fits rb" and dims: "row_dims (nope, rope, scl)"
  shows "chunk_bytes rb (put_chunk rb c (nope, rope, scl) b) c
     = nope @ rope @ scl @ [b (scale_addr rb c + 7)]"
proof -
  let ?s = "seg1_addr rb c" and ?t = "scale_addr rb c"
  let ?b1 = "write_run ?s nope b" and ?b3 = "put_chunk rb c (nope, rope, scl) b"
  have len: "length nope = 448" "length rope = 128" "length scl = 7"
    using dims by (simp_all add: row_dims_def)
  have sep: "i < ?t \<or> ?t + 8 \<le> i" if "?s \<le> i" "i < ?s + 576" for i
  proof (rule ccontr)
    assume "\<not> (i < ?t \<or> ?t + 8 \<le> i)"
    with that have "i \<in> {?s ..< ?s + 576} \<inter> {?t ..< ?t + 8}" by simp
    with seg_scale_disjoint [OF fits, of c c] show False by blast
  qed
  have seg: "?b3 i = write_run (?s + 448) rope ?b1 i" if "?s \<le> i" "i < ?s + 576" for i
    unfolding put_chunk_def prod.case using sep [OF that] len by (intro write_run_out) auto
  have 1: "map ?b3 (int_range ?s 448) = nope"
    using len by (intro nth_equalityI) (simp_all add: seg write_run_def)
  have 2: "map ?b3 (int_range (?s + 448) 128) = rope"
    using len by (intro nth_equalityI) (simp_all add: seg write_run_def)
  have 3: "map ?b3 (int_range ?t 7) = scl"
    using len by (intro nth_equalityI) (simp_all add: put_chunk_def write_run_def)
  have "?t + 7 < ?s \<or> ?s + 576 \<le> ?t + 7"
    using sep [of "?t + 7"] by linarith
  then have 4: "?b3 (?t + 7) = b (?t + 7)"
    using len by (elim disjE) (simp_all add: put_chunk_def buf_simps)
  have split: "int_range ?s 576 = int_range ?s 448 @ int_range (?s + 448) 128"
    "int_range ?t 8 = int_range ?t 7 @ [?t + 7]"
    using int_range_append [of ?s 448 128] int_range_append [of ?t 7 1]
    by (simp_all add: int_range_def)
  show ?thesis by (simp only: chunk_bytes_def split map_append list.map 1 2 3 4 append_assoc)
qed

end
