(* ===== verification/SwapEngine.thy ===== *)
theory SwapEngine
  imports C4Layout
begin

section \<open>The Path-P swap engine: state, stores and releases\<close>

text \<open>
  The state of \<open>SwapEngineP\<close> (\<^verbatim>\<open>layers/attention/compressed/swap_engine_p.py\<close>) and every
  operation of it but the recalls, which are in \<open>SwapRecall\<close>. The engine keeps the full
  compressed history of every c4 layer in a host mirror and a small reserve on the GPU. A
  chunk of the history is resident in a layer when \<open>chunk_cell_lut\<close> maps it to a cell of the
  reserve. Tensors indexed by layer are functions of the layer; the lookup table is a function
  of layer and column; byte tensors are flat buffers. Cells are \<open>int\<close>: the constructor's
  comment bounds them by $2^{31}$, so the \<open>int32\<close> table never truncates one.

  \<open>pool_buf\<close> is \<open>c4_kv_pool.kv_buffer\<close> and \<open>own_buf\<close> the engine's own reserve. In the
  legacy single-pool mode (\<open>_own_reserve\<close> false) the reserve \<^emph>\<open>is\<close> the pool, and
  \<open>reserve_buf\<close> says which of the two an access reaches. Prints, profiling regions and the
  footprint counters are left out; they do not reach the state below.
\<close>

subsection \<open>State\<close>

text \<open>The environment variables the constructor reads.\<close>

record envs =
  env_cudagraph :: bool
  env_page_recall :: bool
  env_lut_truth :: bool
  env_owner_release :: bool
  env_dbg_remap_miss :: bool
  env_poison :: bool
  env_localfix :: bool
  env_capfix_off :: bool
  env_decode_resident_chunks :: int
  env_decode_max_conc :: int

record engine =
  c4_layer_num :: nat
  row_bytes :: int
  n_logical_pages :: int
  reserve_pages :: int
  own_reserve :: bool
  pool_pages :: int
  pool_buf :: "nat \<Rightarrow> buf"
  own_buf :: "nat \<Rightarrow> buf"
  host_mirror :: "nat \<Rightarrow> buf"
  chunk_cell_lut :: "nat \<Rightarrow> int \<Rightarrow> int"
  \<comment> \<open>per-layer allocator of the eager path\<close>
  chunk_to_cell :: "nat \<Rightarrow> (int, int) odict"
  next_cell :: "nat \<Rightarrow> int"
  free_cells :: "nat \<Rightarrow> int list"
  full_flag :: "nat \<Rightarrow> bool"
  n_evictions :: int
  \<comment> \<open>global chunk allocator; \<open>g_full\<close> is \<open>None\<close> until the attribute is first assigned\<close>
  global_mode :: bool
  g_chunk_to_cell :: "(int, int) odict"
  g_next_cell :: int
  g_free_cells :: "int list"
  g_orphan_miss :: "(int, int) odict"
  g_full :: "bool option"
  \<comment> \<open>global page allocator\<close>
  page_recall :: bool
  lut_truth :: bool
  owner_release :: bool
  req_owned_pages :: "int \<Rightarrow> int list option"
  g_page_to_block :: "(int, int) odict"
  g_next_block :: int
  g_free_blocks :: "int list"
  \<comment> \<open>decode-resident region\<close>
  decode_resident_chunks :: int
  decode_max_conc :: int
  prefill_chunks_t :: "int \<Rightarrow> int"
  decode_slot_t :: "int \<Rightarrow> int"
  max_req_pool :: int
  decode_t_ready :: bool
  next_decode_slot :: int
  localfix :: bool
  poison_after_ingest :: bool
  \<comment> \<open>remap diagnostics\<close>
  dbg_remap_miss :: bool
  remap_sel_acc :: int
  remap_res_acc :: int
  ds_formed_acc :: int
  ds_valid_acc :: int
  \<comment> \<open>index-K offload\<close>
  index_k_offload :: bool
  index_page_bytes :: int
  index_host_mirror :: "nat \<Rightarrow> buf option"
  index_reserve_buf :: "nat \<Rightarrow> buf option"
  index_recall_blocks :: int
  index_total_blocks :: int
  index_decode_dropped :: int

text \<open>Values the constructor computes once from the fields above.\<close>

definition cell_capacity :: "engine \<Rightarrow> int" where
  "cell_capacity e = reserve_pages e * C4_PAGE_SIZE"

definition decode_region :: "engine \<Rightarrow> int" where
  "decode_region e = decode_resident_chunks e * decode_max_conc e"

definition decode_base :: "engine \<Rightarrow> int" where
  "decode_base e = max 0 (cell_capacity e - decode_region e - 1)"

definition sink_cell :: "engine \<Rightarrow> int" where
  "sink_cell e = cell_capacity e - 1"

definition recall_cell_capacity :: "engine \<Rightarrow> int" where
  "recall_cell_capacity e = decode_base e"

text \<open>\<open>chunk_cell_lut.shape[1]\<close> and the sentinel column behind the last chunk.\<close>

definition lut_cols :: "engine \<Rightarrow> int" where
  "lut_cols e = n_logical_pages e * C4_PAGE_SIZE + 1"

definition lut_sentinel_col :: "engine \<Rightarrow> int" where
  "lut_sentinel_col e = lut_cols e - 1"

definition reserve_buf :: "engine \<Rightarrow> nat \<Rightarrow> buf" where
  "reserve_buf e = (if own_reserve e then own_buf e else pool_buf e)"

definition set_reserve :: "(nat \<Rightarrow> buf) \<Rightarrow> engine \<Rightarrow> engine" where
  "set_reserve bufs e = (if own_reserve e then e\<lparr>own_buf := bufs\<rparr> else e\<lparr>pool_buf := bufs\<rparr>)"

definition ensure_decode_tensors :: "int \<Rightarrow> engine \<Rightarrow> engine" where
  "ensure_decode_tensors n e =
     (if decode_t_ready e then e
      else e\<lparr>prefill_chunks_t := (\<lambda>_. - 1), decode_slot_t := (\<lambda>_. - 1),
             max_req_pool := n, decode_t_ready := True\<rparr>)"

text \<open>\<open>SwapEngineP(...)\<close>; \<open>pool\<close> and \<open>pool_rows\<close> are the landing pool's buffers and rows.\<close>

definition init_engine ::
  "envs \<Rightarrow> (nat \<Rightarrow> buf) \<Rightarrow> int \<Rightarrow> int \<Rightarrow> nat \<Rightarrow> int \<Rightarrow> int \<Rightarrow> int \<Rightarrow> engine" where
  "init_engine env pool pool_rows n_pages layers qk_nope_head_dim qk_rope_head_dim res_pages =
     (let e0 = \<lparr>c4_layer_num = layers,
           row_bytes = row_bytes_of qk_nope_head_dim qk_rope_head_dim,
           n_logical_pages = n_pages,
           reserve_pages = (if res_pages > 0 then res_pages else pool_rows),
           own_reserve = (res_pages > 0),
           pool_pages = pool_rows,
           pool_buf = pool,
           own_buf = (\<lambda>_ _. 0),
           host_mirror = (\<lambda>_ _. 0),
           chunk_cell_lut = (\<lambda>_ _. - 1),
           chunk_to_cell = (\<lambda>_. []),
           next_cell = (\<lambda>_. 0),
           free_cells = (\<lambda>_. []),
           full_flag = (\<lambda>_. False),
           n_evictions = 0,
           global_mode = env_cudagraph env,
           g_chunk_to_cell = [],
           g_next_cell = 0,
           g_free_cells = [],
           g_orphan_miss = [],
           g_full = None,
           page_recall = env_page_recall env,
           lut_truth = env_lut_truth env,
           owner_release = env_owner_release env,
           req_owned_pages = (\<lambda>_. None),
           g_page_to_block = [],
           g_next_block = 0,
           g_free_blocks = [],
           decode_resident_chunks = env_decode_resident_chunks env,
           decode_max_conc = env_decode_max_conc env,
           prefill_chunks_t = (\<lambda>_. - 1),
           decode_slot_t = (\<lambda>_. - 1),
           max_req_pool = 0,
           decode_t_ready = False,
           next_decode_slot = 0,
           localfix = env_localfix env,
           poison_after_ingest = env_poison env,
           dbg_remap_miss = env_dbg_remap_miss env,
           remap_sel_acc = 0, remap_res_acc = 0, ds_formed_acc = 0, ds_valid_acc = 0,
           index_k_offload = False,
           index_page_bytes = 0,
           index_host_mirror = (\<lambda>_. None),
           index_reserve_buf = (\<lambda>_. None),
           index_recall_blocks = 0,
           index_total_blocks = 0,
           index_decode_dropped = 0\<rparr>;
          e1 = ensure_decode_tensors 4096 e0
      in if env_capfix_off env then e1\<lparr>decode_t_ready := False\<rparr> else e1)"


subsection \<open>Lookup table\<close>

text \<open>\<open>chunk_cell_lut[layer, cols] = cells\<close> and the assignments over every layer at once.\<close>

definition lut_scatter_layer :: "nat \<Rightarrow> (int \<times> int) list \<Rightarrow> engine \<Rightarrow> engine" where
  "lut_scatter_layer l ws e =
     e\<lparr>chunk_cell_lut := (chunk_cell_lut e)(l := scatter ws (chunk_cell_lut e l))\<rparr>"

definition lut_scatter_all :: "(int \<times> int) list \<Rightarrow> engine \<Rightarrow> engine" where
  "lut_scatter_all ws e = e\<lparr>chunk_cell_lut := (\<lambda>l. scatter ws (chunk_cell_lut e l))\<rparr>"

definition lut_clear_layer :: "nat \<Rightarrow> int list \<Rightarrow> engine \<Rightarrow> engine" where
  "lut_clear_layer l cols e =
     e\<lparr>chunk_cell_lut := (chunk_cell_lut e)(l := fill cols (- 1) (chunk_cell_lut e l))\<rparr>"

definition lut_clear_all :: "int list \<Rightarrow> engine \<Rightarrow> engine" where
  "lut_clear_all cols e = e\<lparr>chunk_cell_lut := (\<lambda>l. fill cols (- 1) (chunk_cell_lut e l))\<rparr>"

text \<open>The 64 chunk ids of a page.\<close>

definition page_chunks :: "int \<Rightarrow> int list" where
  "page_chunks pg = int_range (pg * C4_PAGE_SIZE) 64"

definition col_ok :: "engine \<Rightarrow> int \<Rightarrow> bool" where
  "col_ok e c \<longleftrightarrow> 0 \<le> c \<and> c < lut_cols e"

definition clamp_col :: "engine \<Rightarrow> int \<Rightarrow> int" where
  "clamp_col e c = clamp 0 (lut_cols e - 1) c"


subsection \<open>Reads\<close>

definition remap_loc :: "engine \<Rightarrow> nat \<Rightarrow> int \<Rightarrow> int" where
  "remap_loc e l loc =
     (let valid = (0 \<le> loc);
          idx = clamp_col e (if valid then loc else 0);
          cell = chunk_cell_lut e l idx
      in if valid \<and> 0 \<le> cell then cell else - 1)"

definition remap_compressed_locs :: "engine \<Rightarrow> nat \<Rightarrow> int list \<Rightarrow> int list \<times> engine" where
  "remap_compressed_locs e l locs =
     (let out = map (remap_loc e l) locs;
          n_sel = int (length (filter (\<lambda>c. 0 \<le> c) locs));
          n_res = int (length (filter (\<lambda>c. 0 \<le> c) out))
      in (out, if dbg_remap_miss e
               then e\<lparr>remap_sel_acc := remap_sel_acc e + n_sel,
                      remap_res_acc := remap_res_acc e + n_res\<rparr>
               else e))"

definition get_and_reset_remap_miss ::
  "engine \<Rightarrow> (int \<times> int \<times> int \<times> int \<times> int) option \<times> engine" where
  "get_and_reset_remap_miss e =
     (if \<not> dbg_remap_miss e then (None, e)
      else (Some (remap_sel_acc e, remap_res_acc e, remap_sel_acc e - remap_res_acc e,
                  ds_formed_acc e, ds_valid_acc e),
            e\<lparr>remap_sel_acc := 0, remap_res_acc := 0, ds_formed_acc := 0, ds_valid_acc := 0\<rparr>))"


subsection \<open>Prefill store\<close>

text \<open>\<open>last_pos\<close> (\<open>scatter_reduce_\<close> with \<open>amax\<close> over the groups of equal locations) and the
  sorted \<open>keep_rows\<close>.\<close>

definition last_pos :: "int list \<Rightarrow> nat list" where
  "last_pos loc =
     map (\<lambda>c. fold max (filter (\<lambda>i. loc ! i = c) [0..<length loc]) 0) (unique loc)"

definition keep_rows :: "int list \<Rightarrow> nat list" where
  "keep_rows loc = sort (last_pos loc)"

definition pack_select :: "nat list \<Rightarrow> pack \<Rightarrow> pack" where
  "pack_select rows p =
     \<lparr>k_nope_fp8 = map (\<lambda>i. k_nope_fp8 p ! i) rows,
      k_rope_bf16 = map (\<lambda>i. k_rope_bf16 p ! i) rows,
      scale_k_nope_ue8m0 = map (\<lambda>i. scale_k_nope_ue8m0 p ! i) rows\<rparr>"

definition store_prefill_to_mirror ::
  "nat \<Rightarrow> int list \<Rightarrow> pack \<Rightarrow> engine \<Rightarrow> (unit, engine) outcome" where
  "store_prefill_to_mirror l loc p e =
     (if loc = [] then (Inl RuntimeError, e)
      else if list_ex (\<lambda>i. \<not> i < length (k_nope_fp8 p) \<or> \<not> i < length (k_rope_bf16 p)
                         \<or> \<not> i < length (scale_k_nope_ue8m0 p)) (keep_rows loc)
           then (Inl IndexError, e)
      else
        let rows = keep_rows loc;
            loc_dedup = map (\<lambda>i. loc ! i) rows
        in case set_k_and_s_torch (n_logical_pages e) (row_bytes e) (host_mirror e l)
                  loc_dedup (pack_select rows p) C4_PAGE_SIZE of
             (Inl x, m) \<Rightarrow> (Inl x, e\<lparr>host_mirror := (host_mirror e)(l := m)\<rparr>)
           | (Inr _, m) \<Rightarrow>
               (let touched = filter (col_ok e) (unique loc_dedup)
                in (Inr (), lut_clear_layer l touched
                              (e\<lparr>host_mirror := (host_mirror e)(l := m)\<rparr>))))"


subsection \<open>Decode-resident stores\<close>

definition register_decode_req :: "int \<Rightarrow> int \<Rightarrow> int \<Rightarrow> engine \<Rightarrow> engine" where
  "register_decode_req ri prefill_chunks max_pool e =
     (let e1 = ensure_decode_tensors max_pool e
      in if ri < 0 \<or> max_req_pool e1 \<le> ri then e1
         else
           let e2 = e1\<lparr>prefill_chunks_t := (prefill_chunks_t e1)(ri := prefill_chunks)\<rparr>
           in if decode_slot_t e2 ri < 0
              then e2\<lparr>decode_slot_t := (decode_slot_t e2)(ri := next_decode_slot e2 mod decode_max_conc e2),
                      next_decode_slot := next_decode_slot e2 + 1\<rparr>
              else e2)"

text \<open>One row of \<open>store_decode_to_reserve\<close>: whether it stores a chunk, and its cell.\<close>

definition decode_local :: "engine \<Rightarrow> int \<Rightarrow> int \<Rightarrow> int option \<Rightarrow> int" where
  "decode_local e ri loc seq_len =
     (let pc = prefill_chunks_t e (clamp 0 (max_req_pool e - 1) ri)
      in case seq_len of
           Some sl \<Rightarrow> if localfix e then sl div 4 - 1 - pc else loc - pc
         | None \<Rightarrow> loc - pc)"

definition decode_valid :: "engine \<Rightarrow> int \<Rightarrow> int \<Rightarrow> int option \<Rightarrow> bool" where
  "decode_valid e ri loc seq_len =
     (let pc = prefill_chunks_t e (clamp 0 (max_req_pool e - 1) ri);
          slot = decode_slot_t e (clamp 0 (max_req_pool e - 1) ri);
          local = decode_local e ri loc seq_len
      in loc > 0 \<and> pc \<ge> 0 \<and> slot \<ge> 0 \<and> local \<ge> 0 \<and> local < decode_resident_chunks e)"

definition decode_cell :: "engine \<Rightarrow> int \<Rightarrow> int \<Rightarrow> int option \<Rightarrow> int" where
  "decode_cell e ri loc seq_len =
     (let slot = decode_slot_t e (clamp 0 (max_req_pool e - 1) ri);
          real_cell = decode_base e + slot * decode_resident_chunks e + decode_local e ri loc seq_len;
          cell = (if decode_valid e ri loc seq_len then real_cell else sink_cell e)
      in clamp 0 (cell_capacity e - 1) cell)"

definition decode_lut_col :: "engine \<Rightarrow> int \<Rightarrow> int \<Rightarrow> int option \<Rightarrow> int" where
  "decode_lut_col e ri loc seq_len =
     (if decode_valid e ri loc seq_len then clamp 0 (lut_sentinel_col e) loc else lut_sentinel_col e)"

definition count_if :: "('a \<Rightarrow> bool) \<Rightarrow> 'a list \<Rightarrow> int" where
  "count_if P xs = int (length (filter P xs))"

definition store_decode_to_reserve ::
  "nat \<Rightarrow> (int \<times> int \<times> int option) list \<Rightarrow> pack \<Rightarrow> engine \<Rightarrow> (unit, engine) outcome" where
  "store_decode_to_reserve l rows p e =
     (if \<not> decode_t_ready e then (Inr (), e)
      else
        let cells = map (\<lambda>(ri, loc, sl). decode_cell e ri loc sl) rows;
            cols = map (\<lambda>(ri, loc, sl). decode_lut_col e ri loc sl) rows;
            e1 = (if dbg_remap_miss e
                  then e\<lparr>ds_formed_acc := ds_formed_acc e + count_if (\<lambda>(ri, loc, sl). 0 < loc) rows,
                         ds_valid_acc := ds_valid_acc e
                           + count_if (\<lambda>(ri, loc, sl). decode_valid e ri loc sl \<and> 0 < loc) rows\<rparr>
                  else e)
        in case set_k_and_s_triton (row_bytes e1) (reserve_buf e1 l) cells p C4_PAGE_SIZE of
             (Inl x, b) \<Rightarrow> (Inl x, set_reserve ((reserve_buf e1)(l := b)) e1)
           | (Inr _, b) \<Rightarrow>
               (Inr (), lut_scatter_layer l (zip cols cells)
                          (set_reserve ((reserve_buf e1)(l := b)) e1)))"


subsection \<open>Invalidation and release\<close>

definition reset_recall_state :: "engine \<Rightarrow> engine" where
  "reset_recall_state e =
     e\<lparr>g_page_to_block := [], g_next_block := 0, g_free_blocks := [],
       g_chunk_to_cell := [], g_next_cell := 0, g_free_cells := [], g_orphan_miss := [],
       g_full := Some False, next_cell := (\<lambda>_. 0), chunk_cell_lut := (\<lambda>_ _. - 1)\<rparr>"

definition pages_in_range :: "engine \<Rightarrow> int list \<Rightarrow> int list" where
  "pages_in_range e logical_pages =
     filter (\<lambda>pg. 0 \<le> pg \<and> pg < n_logical_pages e) (unique logical_pages)"

definition discard_copied_pages :: "int list \<Rightarrow> engine \<Rightarrow> int \<times> engine" where
  "discard_copied_pages logical_pages e =
     (let pages = pages_in_range e logical_pages
      in if pages = [] then (0, e)
         else (int (length pages),
               lut_clear_all (filter (\<lambda>c. c < lut_cols e) (concat (map page_chunks pages))) e))"

text \<open>\<open>mirror[pages] = pool[pages]\<close>, whole rows.\<close>

definition copy_rows :: "int \<Rightarrow> int list \<Rightarrow> buf \<Rightarrow> buf \<Rightarrow> buf" where
  "copy_rows rb pages src b = (\<lambda>a. if a div rb \<in> set pages then src a else b a)"

definition ingest_transferred_history :: "int list \<Rightarrow> engine \<Rightarrow> (int, engine) outcome" where
  "ingest_transferred_history logical_pages e =
     (let pages = pages_in_range e logical_pages
      in if pages = [] then (Inr 0, e)
         else if list_ex (\<lambda>pg. pool_pages e \<le> pg) pages then (Inl IndexError, e)
         else
           let e1 = e\<lparr>host_mirror := (\<lambda>l. copy_rows (row_bytes e) pages (pool_buf e l) (host_mirror e l))\<rparr>;
               e2 = (if poison_after_ingest e
                     then e1\<lparr>pool_buf := (\<lambda>l. copy_rows (row_bytes e) pages (\<lambda>_. 0) (pool_buf e l))\<rparr>
                     else e1)
           in (Inr (int (length pages)),
               lut_clear_all (filter (\<lambda>c. c < lut_cols e) (concat (map page_chunks pages))) e2))"

text \<open>Pop the given keys out of a dictionary, their values appended to a free list. The sources
  iterate Python sets here; the model takes the keys in the order of the list it is given.\<close>

definition pop_key :: "'k \<Rightarrow> ('k, 'v) odict \<times> 'v list \<Rightarrow> ('k, 'v) odict \<times> 'v list" where
  "pop_key k s = (case s of (d, free) \<Rightarrow>
     (case od_get d k of None \<Rightarrow> (d, free) | Some v \<Rightarrow> (od_pop k d, free @ [v])))"

definition pop_keys :: "'k list \<Rightarrow> ('k, 'v) odict \<times> 'v list \<Rightarrow> ('k, 'v) odict \<times> 'v list" where
  "pop_keys ks s = fold pop_key ks s"

definition release_req_pool_locs :: "int list \<Rightarrow> engine \<Rightarrow> int \<times> engine" where
  "release_req_pool_locs pool_locs e =
     (let locs = filter (col_ok e) (unique pool_locs)
      in if locs = [] then (0, e)
         else if page_recall e then
           let pages = unique (map (\<lambda>c. c div C4_PAGE_SIZE) locs);
               to_free = filter (\<lambda>pg. od_mem pg (g_page_to_block e)) pages;
               (p2b, free) = pop_keys to_free (g_page_to_block e, g_free_blocks e)
           in (int (length to_free),
               lut_clear_all (filter (col_ok e) (concat (map page_chunks to_free)))
                 (e\<lparr>g_page_to_block := p2b, g_free_blocks := free\<rparr>))
         else if global_mode e then
           let to_free = filter (\<lambda>c. od_mem c (g_chunk_to_cell e)) locs;
               (c2c, free) = pop_keys to_free (g_chunk_to_cell e, g_free_cells e)
           in (int (length to_free),
               lut_clear_all locs (e\<lparr>g_chunk_to_cell := c2c, g_free_cells := free\<rparr>))
         else
           let to_free = (\<lambda>l. filter (\<lambda>c. od_mem c (chunk_to_cell e l)) locs);
               popped = (\<lambda>l. if l < c4_layer_num e
                             then pop_keys (to_free l) (chunk_to_cell e l, free_cells e l)
                             else (chunk_to_cell e l, free_cells e l))
           in (int (sum_list (map (\<lambda>l. length (to_free l)) [0..<c4_layer_num e])),
               lut_clear_all locs
                 (e\<lparr>chunk_to_cell := (\<lambda>l. fst (popped l)), free_cells := (\<lambda>l. snd (popped l))\<rparr>)))"

definition record_owned_pages :: "int \<Rightarrow> int list option \<Rightarrow> engine \<Rightarrow> engine" where
  "record_owned_pages ri kept_locs e =
     (if \<not> (owner_release e \<and> page_recall e) \<or> ri < 0 then e
      else case kept_locs of
             None \<Rightarrow> e
           | Some locs \<Rightarrow>
               if locs = [] then e
               else
                 let cur = filter (\<lambda>p. 0 \<le> p) (unique (map (\<lambda>c. c div C4_PAGE_SIZE) locs))
                 in e\<lparr>req_owned_pages := (req_owned_pages e)(ri :=
                        (case req_owned_pages e ri of
                           None \<Rightarrow> Some cur
                         | Some owned \<Rightarrow> Some (unique (owned @ cur))))\<rparr>)"

definition release_owned_pages :: "int \<Rightarrow> engine \<Rightarrow> int \<times> engine" where
  "release_owned_pages ri e =
     (if \<not> (owner_release e \<and> page_recall e) then (0, e)
      else
        case req_owned_pages e ri of
          None \<Rightarrow> (0, e)
        | Some pages \<Rightarrow>
            let e1 = e\<lparr>req_owned_pages := (req_owned_pages e)(ri := None)\<rparr>
            in if pages = [] then (0, e1)
               else
                 let n_freed = int (length (filter (\<lambda>pg. od_mem pg (g_page_to_block e)) pages));
                     (p2b, free) = pop_keys pages (g_page_to_block e, g_free_blocks e)
                 in (n_freed,
                     lut_clear_all (filter (col_ok e) (concat (map page_chunks pages)))
                       (e1\<lparr>g_page_to_block := p2b, g_free_blocks := free\<rparr>)))"

text \<open>\<open>resident_mask\<close> and \<open>mask_size\<close> are the capturer's \<open>resident_chunk_mask\<close>.\<close>

definition reclaim_orphans_global :: "(int \<Rightarrow> bool) \<Rightarrow> int \<Rightarrow> engine \<Rightarrow> int \<times> engine" where
  "reclaim_orphans_global resident_mask mask_size e =
     (if \<not> global_mode e then (0, e)
      else if g_chunk_to_cell e = [] then (0, e)
      else
        let dead = filter (\<lambda>k. \<not> resident_mask (clamp 0 (mask_size - 1) k)) (od_keys (g_chunk_to_cell e))
        in if dead = [] then (0, e)
           else
             let (c2c, free) = pop_keys dead (g_chunk_to_cell e, g_free_cells e)
             in (int (length dead),
                 lut_clear_all (filter (col_ok e) dead)
                   (e\<lparr>g_chunk_to_cell := c2c, g_free_cells := free\<rparr>)))"


subsection \<open>Index-K offload\<close>

definition attach_index_k_offload :: "int \<Rightarrow> nat list \<Rightarrow> engine \<Rightarrow> engine" where
  "attach_index_k_offload page_bytes full_layers e =
     (let recall_blocks = recall_cell_capacity e div C4_PAGE_SIZE;
          offloaded = (\<lambda>l. l < c4_layer_num e \<and> l \<notin> set full_layers)
      in e\<lparr>index_page_bytes := page_bytes,
           index_recall_blocks := recall_blocks,
           index_total_blocks := recall_blocks + 1,
           index_host_mirror := (\<lambda>l. if offloaded l then Some (\<lambda>_. 0) else None),
           index_reserve_buf := (\<lambda>l. if offloaded l then Some (\<lambda>_. 0) else None),
           index_k_offload := True\<rparr>)"

text \<open>\<open>reserve[blocks] = mirror[pages]\<close>, whole page rows, in the order of the pairs.\<close>

definition row_copy :: "int \<Rightarrow> buf \<Rightarrow> int \<times> int \<Rightarrow> buf \<Rightarrow> buf" where
  "row_copy rb src p b = (\<lambda>a. if a div rb = snd p then src (fst p * rb + a mod rb) else b a)"

definition copy_index_pages :: "(int \<times> int) list \<Rightarrow> engine \<Rightarrow> engine" where
  "copy_index_pages new_pairs e =
     (if \<not> index_k_offload e \<or> new_pairs = [] then e
      else
        let ok = filter (\<lambda>(pg, blk). 0 \<le> pg \<and> pg < n_logical_pages e
                           \<and> 0 \<le> blk \<and> blk < index_total_blocks e) new_pairs
        in e\<lparr>index_reserve_buf := (\<lambda>l.
               case (index_reserve_buf e l, index_host_mirror e l) of
                 (Some b, Some m) \<Rightarrow>
                   if l < c4_layer_num e then Some (fold (row_copy (index_page_bytes e) m) ok b) else Some b
               | (b, _) \<Rightarrow> b)\<rparr>)"

text \<open>The indexer's store kernel: 128 bytes of fp8 key and one fp32 scale per token.\<close>

definition index_set_k_and_s_kernel ::
  "int \<Rightarrow> int \<Rightarrow> int \<times> byte list \<times> byte list \<Rightarrow> buf \<Rightarrow> buf" where
  "index_set_k_and_s_kernel BUF_NUMEL_PER_PAGE PAGE_SIZE tok b =
     (case tok of (loc, k, k_scale) \<Rightarrow>
       let pg = loc div PAGE_SIZE;
           off = loc mod PAGE_SIZE;
           out_k = int_range (pg * BUF_NUMEL_PER_PAGE + off * 128) 128;
           out_s = pg * BUF_NUMEL_PER_PAGE div 4 + (PAGE_SIZE * 128) div 4 + off
       in scatter (zip (int_range (4 * out_s) 4) k_scale) (scatter (zip out_k k) b))"

definition index_set_k_and_s ::
  "int \<Rightarrow> buf \<Rightarrow> int list \<Rightarrow> (byte list \<times> byte list) list \<Rightarrow> int \<Rightarrow> (unit, buf) outcome" where
  "index_set_k_and_s row_width b loc ks page_size =
     (if row_width \<noteq> 64 * (128 + 4) \<or> length ks \<noteq> length loc \<or> page_size \<noteq> 64
         \<or> list_ex (\<lambda>(k, k_scale). length k \<noteq> 128 \<or> length k_scale \<noteq> 4) ks
      then (Inl AssertionError, b)
      else (Inr (), fold (index_set_k_and_s_kernel row_width page_size) (zip loc ks) b))"

definition index_decode_cell :: "engine \<Rightarrow> int \<Rightarrow> int" where
  "index_decode_cell e loc =
     (let block_cell = chunk_cell_lut e 0 (clamp_col e (loc div C4_PAGE_SIZE * C4_PAGE_SIZE));
          real_cell = block_cell + loc mod C4_PAGE_SIZE;
          n_res_cells = index_total_blocks e * C4_PAGE_SIZE;
          valid = (loc > 0 \<and> block_cell \<ge> 0 \<and> real_cell < n_res_cells)
      in clamp 0 (n_res_cells - 1) (if valid then real_cell else n_res_cells - 1))"

definition store_index_decode_to_reserve ::
  "nat \<Rightarrow> int list \<Rightarrow> (byte list \<times> byte list) list \<Rightarrow> engine \<Rightarrow> (unit, engine) outcome" where
  "store_index_decode_to_reserve l c4_out_loc ks e =
     (if \<not> index_k_offload e then (Inr (), e)
      else case index_reserve_buf e l of
             None \<Rightarrow> (Inr (), e)
           | Some b \<Rightarrow>
               let dropped = count_if (\<lambda>loc. 0 < loc \<and>
                               chunk_cell_lut e 0 (clamp_col e (loc div C4_PAGE_SIZE * C4_PAGE_SIZE)) < 0)
                               c4_out_loc;
                   e1 = e\<lparr>index_decode_dropped := index_decode_dropped e + dropped\<rparr>
               in case index_set_k_and_s (index_page_bytes e) b (map (index_decode_cell e) c4_out_loc)
                         ks C4_PAGE_SIZE of
                    (Inl x, b') \<Rightarrow> (Inl x, e1\<lparr>index_reserve_buf := (index_reserve_buf e1)(l := Some b')\<rparr>)
                  | (Inr _, b') \<Rightarrow> (Inr (), e1\<lparr>index_reserve_buf := (index_reserve_buf e1)(l := Some b')\<rparr>))"

end
