(* ===== verification/SlotPool.thy ===== *)
theory SlotPool
  imports SwapEngine
begin

section \<open>Slots handed out by high-water mark, free list and eviction\<close>

text \<open>
  All three allocators of the swap engine (cells of one layer, shared cells, page blocks) keep
  the same books: a dictionary from keys to slots, a list of free slots and a high-water mark.
  \<open>slots_ok\<close> says the books balance: the mapped and the free slots are exactly the slots below
  the mark, each once, and the mark stays within the capacity. Every way the code changes the
  books keeps it.
\<close>

definition slots_ok :: "(int, int) odict \<Rightarrow> int \<Rightarrow> int list \<Rightarrow> int \<Rightarrow> bool" where
  "slots_ok d nxt free cap \<longleftrightarrow>
     distinct (od_keys d) \<and> distinct (od_vals d @ free)
     \<and> set (od_vals d @ free) = {0..<nxt} \<and> 0 \<le> nxt \<and> nxt \<le> cap"

lemma slots_okD:
  assumes "slots_ok d nxt free cap"
  shows "distinct (od_keys d)" "distinct (od_vals d)" "distinct free"
    and "set (od_vals d) \<inter> set free = {}" "set (od_vals d) \<union> set free = {0..<nxt}"
    and "0 \<le> nxt" "nxt \<le> cap"
  using assms by (auto simp: slots_ok_def)

lemma slots_okI:
  assumes "distinct (od_keys d)" "distinct (od_vals d)" "distinct free"
    and "set (od_vals d) \<inter> set free = {}" "set (od_vals d) \<union> set free = {0..<nxt}"
    and "0 \<le> nxt" "nxt \<le> cap"
  shows "slots_ok d nxt free cap"
  using assms by (auto simp: slots_ok_def)

lemma slots_ok_empty [simp]: "0 \<le> cap \<Longrightarrow> slots_ok [] 0 [] cap"
  by (simp add: slots_ok_def)

lemma slots_range:
  assumes "slots_ok d nxt free cap" "od_get d k = Some v"
  shows "0 \<le> v" "v < nxt" "v < cap"
proof -
  from assms(2) have "v \<in> set (od_vals d)" by (force dest: map_of_SomeD)
  with slots_okD [OF assms(1)] have "v \<in> {0..<nxt}" by blast
  with slots_okD [OF assms(1)] show "0 \<le> v" "v < nxt" "v < cap" by auto
qed

lemma slots_inj:
  assumes "slots_ok d nxt free cap" "od_get d k = Some v" "od_get d k' = Some v"
  shows "k = k'"
proof -
  from assms(2,3) have "(k, v) \<in> set d" "(k', v) \<in> set d" by (auto dest: map_of_SomeD)
  with slots_okD(2) [OF assms(1)] have "(k, v) = (k', v)"
    by (intro inj_onD [of snd "set d"]) (auto simp: distinct_map)
  then show ?thesis by simp
qed

lemma slots_od_set:
  assumes "slots_ok d nxt free cap" "\<not> od_mem k d"
  shows slots_from_free: "free \<noteq> [] \<Longrightarrow> slots_ok (od_set k (last free) d) nxt (butlast free) cap"
    and slots_from_mark: "nxt < cap \<Longrightarrow> slots_ok (od_set k nxt d) (nxt + 1) free cap"
proof -
  note s = slots_okD [OF assms(1)]
  have set: "od_set k v d = d @ [(k, v)]" for v using assms(2) by (simp add: od_set_def)
  have k: "k \<notin> fst ` set d" using assms(2) by (simp add: od_mem_iff)
  show "slots_ok (od_set k (last free) d) nxt (butlast free) cap" if "free \<noteq> []"
  proof -
    have f: "free = butlast free @ [last free]" using that by simp
    have df: "distinct (butlast free)" "last free \<notin> set (butlast free)"
      using s(3) f by (metis distinct_append, metis distinct_append disjoint_insert(1) list.simps(15))
    have sf: "set free = insert (last free) (set (butlast free))" using f by (metis set_append list.simps(15) set_empty2 Un_insert_right sup_bot.right_neutral)
    show ?thesis unfolding set
      using s k df sf by (intro slots_okI) auto
  qed
  show "slots_ok (od_set k nxt d) (nxt + 1) free cap" if "nxt < cap"
  proof -
    have "nxt \<notin> set (od_vals d) \<union> set free" unfolding s(5) by simp
    moreover have "{0..<nxt + 1} = insert nxt {0..<nxt}" using s(6) by auto
    ultimately show ?thesis unfolding set
      using s k that by (intro slots_okI) auto
  qed
qed

lemma slots_pop:
  assumes "slots_ok d nxt free cap" "od_get d k = Some v"
  shows "slots_ok (od_pop k d) nxt (free @ [v]) cap"
proof -
  note s = slots_okD [OF assms(1)]
  from assms(2) obtain us vs where d: "d = us @ (k, v) # vs"
    by (meson map_of_SomeD split_list)
  have u: "\<not> od_mem k us" "\<not> od_mem k vs" using s(1) unfolding d od_mem_iff by auto
  have p: "od_pop k d = us @ vs"
    using od_pop_absent [OF u(1)] od_pop_absent [OF u(2)] by (simp add: d od_pop_def)
  have "set (od_vals (us @ vs)) \<union> set (free @ [v]) = set (od_vals d) \<union> set free"
    by (auto simp: d)
  with s show ?thesis unfolding p by (intro slots_okI) (auto simp: d)
qed

lemma slots_move [simp]:
  assumes "slots_ok d nxt free cap"
  shows "slots_ok (od_move_to_end k d) nxt free cap"
proof (cases "od_get d k")
  case None
  with assms show ?thesis by (simp add: od_move_to_end_def)
next
  case (Some v)
  have a: "\<not> od_mem k (od_pop k d)" by (simp add: od_mem_get od_get_pop)
  have "slots_ok (od_set k (last (free @ [v])) (od_pop k d)) nxt (butlast (free @ [v])) cap"
    by (rule slots_from_free [OF slots_pop [OF assms Some] a]) simp
  with Some a show ?thesis by (simp add: od_move_to_end_def od_set_def)
qed

text \<open>Eviction: the victim's slot goes to a new key.\<close>

lemma slots_evict:
  assumes "slots_ok d nxt free cap" "od_get d k = Some v" "\<not> od_mem k' d"
  shows "slots_ok (od_set k' v (od_pop k d)) nxt free cap"
proof -
  have "\<not> od_mem k' (od_pop k d)" using assms(3) by (simp add: od_mem_get od_get_pop)
  from slots_from_free [OF slots_pop [OF assms(1,2)] this] show ?thesis by simp
qed

lemma slots_pop_keys:
  assumes "slots_ok d nxt free cap" "pop_keys ks (d, free) = (d', free')"
  shows "slots_ok d' nxt free' cap"
  using assms
proof (induction ks arbitrary: d free)
  case (Cons k ks)
  obtain d1 free1 where 1: "pop_key k (d, free) = (d1, free1)" by fastforce
  have "slots_ok d1 nxt free1 cap"
    using 1 Cons.prems(1) by (auto simp: pop_key_def slots_pop split: option.splits)
  with Cons 1 show ?case by (simp add: pop_keys_def)
qed (simp add: pop_keys_def)

lemma pop_keys_get:
  assumes "pop_keys ks (d, free) = (d', free')"
  shows "od_get d' k = (if k \<in> set ks then None else od_get d k)"
  using assms
proof (induction ks arbitrary: d free)
  case (Cons x ks)
  obtain d1 free1 where 1: "pop_key x (d, free) = (d1, free1)" by fastforce
  then have g: "od_get d1 k = (if k = x then None else od_get d k)"
    by (auto simp: pop_key_def od_get_pop split: option.splits)
  from Cons.prems 1 have "pop_keys ks (d1, free1) = (d', free')" by (simp add: pop_keys_def)
  from Cons.IH [OF this] g show ?case by (cases "k = x") auto
qed (simp add: pop_keys_def)

text \<open>A contiguous block of slots for new keys.\<close>

lemma slots_block:
  assumes "slots_ok d nxt free cap" "distinct ks" "\<forall>k \<in> set ks. \<not> od_mem k d"
    and "nxt + int (length ks) \<le> cap"
  shows "slots_ok (fold (\<lambda>(c, cell). od_set c cell) (zip ks (int_range nxt (length ks))) d)
           (nxt + int (length ks)) free cap"
  using assms
proof (induction ks arbitrary: d nxt)
  case (Cons k ks)
  have 1: "slots_ok (od_set k nxt d) (nxt + 1) free cap"
    using Cons.prems by (intro slots_from_mark) auto
  have "\<forall>x \<in> set ks. \<not> od_mem x (od_set k nxt d)"
    using Cons.prems(2,3) by (auto simp: od_mem_get od_get_set)
  from Cons.IH [OF 1 _ this] Cons.prems show ?case
    by (simp add: int_range_Suc add.assoc)
qed simp

lemma od_get_fold_set:
  assumes "distinct (map fst ps)"
  shows "od_get (fold (\<lambda>(c, cell). od_set c cell) ps d) k
     = (case map_of ps k of Some v \<Rightarrow> Some v | None \<Rightarrow> od_get d k)"
  using assms
proof (induction ps arbitrary: d)
  case (Cons p ps)
  obtain x v where p: "p = (x, v)" by (cases p)
  have x: "map_of ps x = None" using Cons.prems by (simp add: p map_of_eq_None_iff)
  have "od_get (fold (\<lambda>(c, cell). od_set c cell) ps (od_set x v d)) k
     = (case map_of ps k of Some v \<Rightarrow> Some v | None \<Rightarrow> od_get (od_set x v d) k)"
    using Cons by simp
  with x show ?case by (simp add: p od_get_set split: option.split)
qed simp

lemma slots_full_keys:
  assumes "slots_ok d nxt [] cap" "nxt = cap"
  shows "length d = nat cap"
proof -
  have "set (od_vals d) = {0..<cap}" "distinct (od_vals d)"
    using slots_okD [OF assms(1)] assms(2) by auto
  then have "card (set (od_vals d)) = nat cap" by simp
  with distinct_card [OF \<open>distinct (od_vals d)\<close>] show ?thesis by simp
qed

lemma slots_length:
  assumes "slots_ok d nxt free cap"
  shows "length d \<le> nat cap"
proof -
  have "card (set (od_vals d)) \<le> card {0..<nxt}"
    using slots_okD(5) [OF assms] by (intro card_mono) auto
  then show ?thesis using distinct_card [OF slots_okD(2) [OF assms]] slots_okD(7) [OF assms] by simp
qed

end
