(* ===== verification/SwapRecall.thy ===== *)
theory SwapRecall
  imports SwapEngine
begin

section \<open>The Path-P swap engine: recall and eviction\<close>

text \<open>
  \<open>recall_chunks\<close>, \<open>_recall_global\<close> and \<open>_recall_global_pages\<close> of \<open>SwapEngineP\<close>, with the
  evictions they call. Each recall takes the selected locations, finds the ones the lookup table
  does not map, gives every one a cell (from the free list, then the high-water mark, then by
  evicting the oldest unselected entry), copies the bytes from the mirror and updates the table.
  A call returns its outcome together with the state it leaves, also when it raises.
\<close>

subsection \<open>Eager path: one layer\<close>

definition evict_one :: "nat \<Rightarrow> int list \<Rightarrow> engine \<Rightarrow> (int option, engine) outcome" where
  "evict_one l prot e =
     (case first_unprotected prot (chunk_to_cell e l) of
        None \<Rightarrow> (Inr None, e)
      | Some (victim, cell) \<Rightarrow>
          let e1 = e\<lparr>chunk_to_cell := (chunk_to_cell e)(l := od_pop victim (chunk_to_cell e l))\<rparr>
          in if \<not> col_ok e victim then (Inl IndexError, e1)
             else (Inr (Some cell),
                   (lut_clear_layer l [victim] e1)\<lparr>n_evictions := n_evictions e + 1\<rparr>))"

text \<open>\<open>c2c[c] = cell; lut[c] = cell\<close>.\<close>

definition place_chunk :: "nat \<Rightarrow> int \<Rightarrow> int \<Rightarrow> engine \<Rightarrow> (unit, engine) outcome" where
  "place_chunk l c cell e =
     (let e1 = e\<lparr>chunk_to_cell := (chunk_to_cell e)(l := od_set c cell (chunk_to_cell e l))\<rparr>
      in if col_ok e c then (Inr (), lut_scatter_layer l [(c, cell)] e1) else (Inl IndexError, e1))"

fun place_chunks :: "nat \<Rightarrow> int list \<Rightarrow> int list \<Rightarrow> engine \<Rightarrow> (unit, engine) outcome" where
  "place_chunks l prot [] e = (Inr (), e)"
| "place_chunks l prot (c # cs) e =
     (let step = (\<lambda>cell e'. case place_chunk l c cell e' of
                    (Inl x, e'') \<Rightarrow> (Inl x, e'')
                  | (Inr _, e'') \<Rightarrow> place_chunks l prot cs e'')
      in if free_cells e l \<noteq> [] then
           step (last (free_cells e l)) (e\<lparr>free_cells := (free_cells e)(l := butlast (free_cells e l))\<rparr>)
         else if next_cell e l < recall_cell_capacity e then
           step (next_cell e l) (e\<lparr>next_cell := (next_cell e)(l := next_cell e l + 1)\<rparr>)
         else
           case evict_one l prot e of
             (Inl x, e') \<Rightarrow> (Inl x, e')
           | (Inr None, e') \<Rightarrow> (Inr (), e'\<lparr>full_flag := (full_flag e')(l := True)\<rparr>)
           | (Inr (Some cell), e') \<Rightarrow> step cell e')"

text \<open>Cells for the missing chunks: reused entries first, then new ones, in one block when the
  high-water mark leaves room and no cell is free.\<close>

definition eager_alloc :: "nat \<Rightarrow> int list \<Rightarrow> int list \<Rightarrow> engine \<Rightarrow> (unit, engine) outcome" where
  "eager_alloc l chunks_t todo e =
     (let nc = next_cell e l;
          c2c = chunk_to_cell e l;
          reuse = filter (\<lambda>c. od_mem c c2c) todo;
          new = filter (\<lambda>c. \<not> od_mem c c2c) todo;
          e1 = lut_scatter_layer l (map (\<lambda>c. (clamp_col e c, the (od_get c2c c))) reuse) e
      in if new = [] then (Inr (), e1)
         else if free_cells e l = [] \<and> nc + int (length new) \<le> recall_cell_capacity e then
           let cells = int_range nc (length new)
           in (Inr (),
               (lut_scatter_layer l (zip (map (clamp_col e) new) cells) e1)
                 \<lparr>next_cell := (next_cell e)(l := nc + int (length new)),
                  chunk_to_cell := (chunk_to_cell e)(l := fold (\<lambda>(c, cell). od_set c cell) (zip new cells) c2c)\<rparr>)
         else place_chunks l chunks_t new e1)"

definition copy_layer :: "nat \<Rightarrow> int list \<Rightarrow> int list \<Rightarrow> engine \<Rightarrow> engine" where
  "copy_layer l src dst e =
     set_reserve ((reserve_buf e)(l :=
       copy_chunks_layer (row_bytes e) (n_logical_pages e) (reserve_pages e)
         (host_mirror e l) (reserve_buf e l) src dst)) e"

definition copy_all_layers :: "int list \<Rightarrow> int list \<Rightarrow> engine \<Rightarrow> engine" where
  "copy_all_layers src dst e =
     set_reserve (copy_chunks_all_layers (row_bytes e) (n_logical_pages e) (reserve_pages e)
       (host_mirror e) (reserve_buf e) src dst) e"

definition recall_eager :: "nat \<Rightarrow> int list \<Rightarrow> engine \<Rightarrow> (int, engine) outcome" where
  "recall_eager l compress_locs e =
     (let chunks_t = filter (\<lambda>c. 0 \<le> c) (unique compress_locs);
          todo = filter (\<lambda>c. chunk_cell_lut e l (clamp_col e c) < 0) chunks_t
      in if compress_locs = [] \<or> chunks_t = [] \<or> todo = [] then (Inr 0, e)
         else
           case eager_alloc l chunks_t todo e of
             (Inl x, e1) \<Rightarrow> (Inl x, e1)
           | (Inr _, e1) \<Rightarrow>
               let copy_list = filter (\<lambda>c. od_mem c (chunk_to_cell e1 l)) todo
               in if copy_list = [] then (Inr 0, e1)
                  else (Inr (int (length copy_list)),
                        copy_layer l copy_list
                          (map (\<lambda>c. the (od_get (chunk_to_cell e1 l) c)) copy_list) e1))"


subsection \<open>Global path: chunks\<close>

definition evict_one_global :: "int list \<Rightarrow> engine \<Rightarrow> (int option, engine) outcome" where
  "evict_one_global prot e =
     (case first_unprotected prot (g_chunk_to_cell e) of
        None \<Rightarrow> (Inr None, e)
      | Some (victim, cell) \<Rightarrow>
          let e1 = e\<lparr>g_chunk_to_cell := od_pop victim (g_chunk_to_cell e)\<rparr>
          in if \<not> col_ok e victim then (Inl IndexError, e1)
             else (Inr (Some cell), (lut_clear_all [victim] e1)\<lparr>n_evictions := n_evictions e + 1\<rparr>))"

definition evict_batch_global :: "int list \<Rightarrow> nat \<Rightarrow> engine \<Rightarrow> int list \<times> engine" where
  "evict_batch_global prot n_needed e =
     (let chosen = take (max 1 n_needed) (filter (\<lambda>p. fst p \<notin> set prot) (g_chunk_to_cell e));
          victims = map fst chosen
      in if victims = [] then ([], e)
         else (map snd chosen,
               (lut_clear_all (filter (col_ok e) victims) e)
                 \<lparr>g_chunk_to_cell := fold od_pop victims (g_chunk_to_cell e),
                  n_evictions := n_evictions e + int (length victims)\<rparr>))"

text \<open>The per-chunk loop at capacity. \<open>evict_cells\<close> is \<open>None\<close> until the first eviction, then the
  cells that batch left to hand out.\<close>

fun g_place :: "int list \<Rightarrow> int list option \<Rightarrow> int list \<Rightarrow> engine \<Rightarrow> ((int \<times> int) list, engine) outcome" where
  "g_place u evict_cells [] e = (Inr [], e)"
| "g_place u evict_cells (c # cs) e =
     (let step = (\<lambda>cell ev e'.
            case g_place u ev cs (e'\<lparr>g_chunk_to_cell := od_set c cell (g_chunk_to_cell e')\<rparr>) of
              (Inl x, e'') \<Rightarrow> (Inl x, e'')
            | (Inr ps, e'') \<Rightarrow> (Inr ((c, cell) # ps), e''))
      in if g_free_cells e \<noteq> [] then
           step (last (g_free_cells e)) evict_cells (e\<lparr>g_free_cells := butlast (g_free_cells e)\<rparr>)
         else if g_next_cell e < recall_cell_capacity e then
           step (g_next_cell e) evict_cells (e\<lparr>g_next_cell := g_next_cell e + 1\<rparr>)
         else
           let (ev, e1) = (case evict_cells of
                             None \<Rightarrow> evict_batch_global u (Suc (length cs)) e
                           | Some xs \<Rightarrow> (xs, e))
           in case ev of
                cell # rest \<Rightarrow> step cell (Some rest) e1
              | [] \<Rightarrow> (case g_full e1 of
                         None \<Rightarrow> (Inl AttributeError, e1)
                       | Some _ \<Rightarrow> (Inr [], e1\<lparr>g_full := Some True\<rparr>)))"

definition g_alloc :: "int list \<Rightarrow> int list \<Rightarrow> engine \<Rightarrow> ((int \<times> int) list, engine) outcome" where
  "g_alloc u todo e =
     (let c2c = g_chunk_to_cell e;
          nc = g_next_cell e;
          reuse_any = list_ex (\<lambda>c. od_mem c c2c) todo
      in if \<not> reuse_any \<and> g_free_cells e = [] \<and> g_full e \<noteq> Some True
             \<and> nc + int (length todo) \<le> recall_cell_capacity e then
           let ps = zip todo (int_range nc (length todo))
           in (Inr ps, e\<lparr>g_next_cell := nc + int (length todo),
                         g_chunk_to_cell := fold (\<lambda>(c, cell). od_set c cell) ps c2c\<rparr>)
         else
           let reuse = filter (\<lambda>c. od_mem c c2c) todo;
               rs = map (\<lambda>c. (c, the (od_get c2c c))) reuse;
               e1 = e\<lparr>g_chunk_to_cell := fold od_move_to_end reuse c2c\<rparr>;
               new = filter (\<lambda>c. \<not> od_mem c c2c) todo
           in if new = [] then (Inr rs, e1)
              else if g_free_cells e = [] \<and> nc + int (length new) \<le> recall_cell_capacity e then
                let ps = zip new (int_range nc (length new))
                in (Inr (rs @ ps),
                    e1\<lparr>g_next_cell := nc + int (length new),
                       g_chunk_to_cell := fold (\<lambda>(c, cell). od_set c cell) ps (g_chunk_to_cell e1)\<rparr>)
              else
                case g_place u None new e1 of
                  (Inl x, e2) \<Rightarrow> (Inl x, e2)
                | (Inr ps, e2) \<Rightarrow> (Inr (rs @ ps), e2))"

definition recall_global :: "int list \<Rightarrow> engine \<Rightarrow> (int, engine) outcome" where
  "recall_global compress_locs e =
     (let u = filter (\<lambda>c. 0 \<le> c) (unique compress_locs);
          todo = filter (\<lambda>c. chunk_cell_lut e 0 (clamp_col e c) < 0) u
      in if compress_locs = [] \<or> u = [] \<or> todo = [] then (Inr 0, e)
         else
           case g_alloc u todo e of
             (Inl x, e1) \<Rightarrow> (Inl x, e1)
           | (Inr ps, e1) \<Rightarrow>
               let safe = filter (in_bounds (n_logical_pages e) (reserve_pages e)) ps
               in if ps = [] \<or> safe = [] then (Inr 0, e1)
                  else
                    let e2 = copy_all_layers (map fst safe) (map snd safe) e1
                    in (Inr (int (length safe)),
                        lut_scatter_all (map (\<lambda>(c, cell). (clamp_col e c, cell)) safe) e2))"

definition recall_chunks :: "nat \<Rightarrow> int list \<Rightarrow> engine \<Rightarrow> (int, engine) outcome" where
  "recall_chunks l compress_locs e =
     (if global_mode e then recall_global compress_locs e else recall_eager l compress_locs e)"


subsection \<open>Global path: pages\<close>

definition evict_one_page :: "int list \<Rightarrow> engine \<Rightarrow> int option \<times> engine" where
  "evict_one_page prot e =
     (case first_unprotected prot (g_page_to_block e) of
        None \<Rightarrow> (None, e)
      | Some (victim_pg, blk) \<Rightarrow>
          (Some blk,
           (lut_clear_all (map (clamp_col e) (page_chunks victim_pg)) e)
             \<lparr>g_page_to_block := od_pop victim_pg (g_page_to_block e),
              n_evictions := n_evictions e + 1\<rparr>))"

fun p_place :: "int list \<Rightarrow> int list \<Rightarrow> engine \<Rightarrow> ((int \<times> int) list, engine) outcome" where
  "p_place pages_t [] e = (Inr [], e)"
| "p_place pages_t (pg # pgs) e =
     (let emit = (\<lambda>blk r. case r of
                    (Inl x, e') \<Rightarrow> (Inl x, e')
                  | (Inr ps, e') \<Rightarrow> (Inr ((pg, blk) # ps), e'));
          step = (\<lambda>blk e'. emit blk
                    (p_place pages_t pgs (e'\<lparr>g_page_to_block := od_set pg blk (g_page_to_block e')\<rparr>)))
      in case od_get (g_page_to_block e) pg of
           Some blk \<Rightarrow>
             let e1 = e\<lparr>g_page_to_block := od_move_to_end pg (g_page_to_block e)\<rparr>
             in if lut_truth e then emit blk (p_place pages_t pgs e1)
                else p_place pages_t pgs e1
         | None \<Rightarrow>
             if g_free_blocks e \<noteq> [] then
               step (last (g_free_blocks e)) (e\<lparr>g_free_blocks := butlast (g_free_blocks e)\<rparr>)
             else if g_next_block e < recall_cell_capacity e div C4_PAGE_SIZE then
               step (g_next_block e) (e\<lparr>g_next_block := g_next_block e + 1\<rparr>)
             else
               case evict_one_page pages_t e of
                 (Some blk, e1) \<Rightarrow> step blk e1
               | (None, e1) \<Rightarrow> (case g_full e1 of
                                  None \<Rightarrow> (Inl AttributeError, e1)
                                | Some _ \<Rightarrow> (Inr [], e1\<lparr>g_full := Some True\<rparr>)))"

definition expand_page :: "int \<times> int \<Rightarrow> (int \<times> int) list" where
  "expand_page p = zip (page_chunks (fst p)) (int_range (snd p * C4_PAGE_SIZE) 64)"

definition recall_global_pages :: "int list \<Rightarrow> engine \<Rightarrow> (int, engine) outcome" where
  "recall_global_pages kept_locs e =
     (let pages_t = filter (\<lambda>pg. 0 \<le> pg) (unique (map (\<lambda>c. c div C4_PAGE_SIZE) kept_locs));
          todo_pages = filter (\<lambda>pg. chunk_cell_lut e 0 (clamp_col e (pg * C4_PAGE_SIZE)) < 0) pages_t
      in if kept_locs = [] \<or> pages_t = [] \<or> todo_pages = [] then (Inr 0, e)
         else
           case p_place pages_t todo_pages e of
             (Inl x, e1) \<Rightarrow> (Inl x, e1)
           | (Inr new_pairs, e1) \<Rightarrow>
               if new_pairs = [] then (Inr 0, e1)
               else
                 let ps = concat (map expand_page new_pairs);
                     kept = (if own_reserve e
                             then filter (\<lambda>(c, cell). chunk_cell_lut e1 0 (clamp_col e c) < decode_base e) ps
                             else ps)
                 in if kept = [] then (Inr 0, e1)
                    else
                      let e2 = copy_all_layers (map fst kept) (map snd kept) e1;
                          e3 = (if index_k_offload e then copy_index_pages new_pairs e2 else e2)
                      in (Inr (int (length kept)),
                          lut_scatter_all (map (\<lambda>(c, cell). (clamp_col e c, cell)) kept) e3))"

definition recall_resident_global :: "int list \<Rightarrow> engine \<Rightarrow> (int, engine) outcome" where
  "recall_resident_global kept_locs e =
     (if page_recall e then recall_global_pages kept_locs e else recall_global kept_locs e)"

text \<open>Eager decode store: mirror first, then a recall of the written chunks.\<close>

definition store_decode :: "nat \<Rightarrow> int list \<Rightarrow> pack \<Rightarrow> engine \<Rightarrow> (unit, engine) outcome" where
  "store_decode l out_loc p e =
     (if out_loc = [] then (Inr (), e)
      else case store_prefill_to_mirror l out_loc p e of
             (Inl x, e1) \<Rightarrow> (Inl x, e1)
           | (Inr _, e1) \<Rightarrow>
               (case recall_chunks l out_loc e1 of
                  (Inl x, e2) \<Rightarrow> (Inl x, e2)
                | (Inr _, e2) \<Rightarrow> (Inr (), e2)))"

end
