(* ===== verification/SwapInv.thy ===== *)
theory SwapInv
  imports SlotPool SwapRecall
begin

section \<open>Coherence of the reserve with the mirror\<close>

text \<open>
  What makes the swap engine correct: whenever the lookup table maps a chunk of the history to
  a cell of the recall region, that cell holds the mirror's bytes of that chunk, so attention
  through \<open>remap_compressed_locs\<close> reads what it would have read from the full pool. The
  invariant \<open>path_inv\<close> adds who owns the cell. It is stated once for any owner map; the locale
  \<open>cell_owner\<close> collects what an allocator promises about its owner map, and proves inside it
  that the operations which do not allocate keep the invariant. The three allocators interpret
  it below.
\<close>

definition cfg_ok :: "engine \<Rightarrow> bool" where
  "cfg_ok e \<longleftrightarrow> row_fits (row_bytes e) \<and> even (row_bytes e) \<and> 0 \<le> n_logical_pages e
     \<and> 0 \<le> decode_region e \<and> decode_region e < cell_capacity e"

text \<open>Chunk \<open>c\<close> of the history is mapped, in layer \<open>l\<close>, to a cell of the recall region.\<close>

definition resident :: "engine \<Rightarrow> nat \<Rightarrow> int \<Rightarrow> bool" where
  "resident e l c \<longleftrightarrow> 0 \<le> c \<and> c < n_logical_pages e * 64
     \<and> 0 \<le> chunk_cell_lut e l c \<and> chunk_cell_lut e l c < decode_base e"

definition coherent :: "engine \<Rightarrow> bool" where
  "coherent e \<longleftrightarrow> (\<forall>l c. resident e l c \<longrightarrow>
     chunk_bytes (row_bytes e) (reserve_buf e l) (chunk_cell_lut e l c)
       = chunk_bytes (row_bytes e) (host_mirror e l) c)"

definition owned ::
  "(engine \<Rightarrow> nat \<Rightarrow> int \<Rightarrow> int option) \<Rightarrow> engine \<Rightarrow> bool" where
  "owned owner e \<longleftrightarrow> (\<forall>l c. resident e l c \<longrightarrow> owner e l c = Some (chunk_cell_lut e l c))"

definition path_inv ::
  "(engine \<Rightarrow> nat \<Rightarrow> int \<Rightarrow> int option) \<Rightarrow> (engine \<Rightarrow> bool) \<Rightarrow> engine \<Rightarrow> bool" where
  "path_inv owner slots e \<longleftrightarrow> cfg_ok e \<and> slots e \<and> owned owner e \<and> coherent e"

text \<open>The sizes and switches, which no operation changes, and the books of the allocators.\<close>

definition sizes where
  "sizes e = (reserve_pages e, n_logical_pages e, row_bytes e, c4_layer_num e,
     own_reserve e, decode_resident_chunks e, decode_max_conc e,
     page_recall e, global_mode e, lut_truth e, owner_release e, poison_after_ingest e)"

definition alloc_state where
  "alloc_state e = (sizes e,
     (chunk_to_cell e, next_cell e, free_cells e),
     (g_chunk_to_cell e, g_next_cell e, g_free_cells e),
     (g_page_to_block e, g_next_block e, g_free_blocks e))"

lemmas size_defs = cell_capacity_def decode_region_def decode_base_def recall_cell_capacity_def
  sink_cell_def lut_cols_def lut_sentinel_col_def

lemma same_sizes:
  assumes "sizes e' = sizes e"
  shows "row_bytes e' = row_bytes e" "n_logical_pages e' = n_logical_pages e"
    and "reserve_pages e' = reserve_pages e" "own_reserve e' = own_reserve e"
    and "decode_base e' = decode_base e" "cell_capacity e' = cell_capacity e"
    and "lut_cols e' = lut_cols e" "lut_sentinel_col e' = lut_sentinel_col e"
    and "recall_cell_capacity e' = recall_cell_capacity e" "decode_region e' = decode_region e"
    and "cfg_ok e' = cfg_ok e" "clamp_col e' = clamp_col e" "col_ok e' = col_ok e"
    and "c4_layer_num e' = c4_layer_num e" "sink_cell e' = sink_cell e"
    and "page_recall e' = page_recall e" "global_mode e' = global_mode e" "lut_truth e' = lut_truth e"
    and "owner_release e' = owner_release e" "poison_after_ingest e' = poison_after_ingest e"
  using assms
  by (simp_all add: sizes_def size_defs cfg_ok_def clamp_col_def [abs_def] col_ok_def [abs_def])

lemma alloc_state_sizes: "alloc_state e' = alloc_state e \<Longrightarrow> sizes e' = sizes e"
  by (simp add: alloc_state_def)

lemma decode_base_bounds:
  assumes "cfg_ok e"
  shows "0 \<le> decode_base e" "decode_base e = cell_capacity e - decode_region e - 1"
    and "decode_base e < cell_capacity e" "decode_base e \<le> sink_cell e"
  using assms by (auto simp: cfg_ok_def decode_base_def sink_cell_def)


subsection \<open>Reading back an updated engine\<close>

named_theorems engine_simps \<open>fields of an engine after a primitive update\<close>

lemma reserve_buf_set [engine_simps]: "reserve_buf (set_reserve bufs e) = bufs"
  by (simp add: reserve_buf_def set_reserve_def)

lemma set_reserve_fields [engine_simps]:
  "chunk_cell_lut (set_reserve bufs e) = chunk_cell_lut e"
  "host_mirror (set_reserve bufs e) = host_mirror e"
  "row_bytes (set_reserve bufs e) = row_bytes e"
  "n_logical_pages (set_reserve bufs e) = n_logical_pages e"
  "alloc_state (set_reserve bufs e) = alloc_state e"
  "sizes (set_reserve bufs e) = sizes e"
  by (simp_all add: set_reserve_def alloc_state_def sizes_def)

lemma lut_update_fields [engine_simps]:
  "chunk_cell_lut (lut_scatter_layer l ws e) = (chunk_cell_lut e)(l := scatter ws (chunk_cell_lut e l))"
  "chunk_cell_lut (lut_scatter_all ws e) = (\<lambda>l. scatter ws (chunk_cell_lut e l))"
  "chunk_cell_lut (lut_clear_layer l cols e) = (chunk_cell_lut e)(l := fill cols (- 1) (chunk_cell_lut e l))"
  "chunk_cell_lut (lut_clear_all cols e) = (\<lambda>l. fill cols (- 1) (chunk_cell_lut e l))"
  "host_mirror (lut_scatter_layer l ws e) = host_mirror e"
  "host_mirror (lut_scatter_all ws e) = host_mirror e"
  "host_mirror (lut_clear_layer l cols e) = host_mirror e"
  "host_mirror (lut_clear_all cols e) = host_mirror e"
  "reserve_buf (lut_scatter_layer l ws e) = reserve_buf e"
  "reserve_buf (lut_scatter_all ws e) = reserve_buf e"
  "reserve_buf (lut_clear_layer l cols e) = reserve_buf e"
  "reserve_buf (lut_clear_all cols e) = reserve_buf e"
  "alloc_state (lut_scatter_layer l ws e) = alloc_state e"
  "alloc_state (lut_scatter_all ws e) = alloc_state e"
  "alloc_state (lut_clear_layer l cols e) = alloc_state e"
  "alloc_state (lut_clear_all cols e) = alloc_state e"
  "sizes (lut_scatter_layer l ws e) = sizes e"
  "sizes (lut_scatter_all ws e) = sizes e"
  "sizes (lut_clear_layer l cols e) = sizes e"
  "sizes (lut_clear_all cols e) = sizes e"
  by (simp_all add: lut_scatter_layer_def lut_scatter_all_def lut_clear_layer_def lut_clear_all_def
      reserve_buf_def alloc_state_def sizes_def)

text \<open>An update that only unmaps chunks, and leaves the bytes of mapped chunks alone.\<close>

lemma coherent_shrink:
  assumes "coherent e" "sizes e' = sizes e"
    and lut: "\<And>l c. resident e' l c \<Longrightarrow> chunk_cell_lut e' l c = chunk_cell_lut e l c"
    and mirror: "\<And>l c. resident e' l c \<Longrightarrow> chunk_bytes (row_bytes e) (host_mirror e' l) c
        = chunk_bytes (row_bytes e) (host_mirror e l) c"
    and reserve: "\<And>l d. 0 \<le> d \<Longrightarrow> d < decode_base e \<Longrightarrow>
        chunk_bytes (row_bytes e) (reserve_buf e' l) d = chunk_bytes (row_bytes e) (reserve_buf e l) d"
  shows "coherent e'"
    and "owned own e \<Longrightarrow> (\<And>l c. resident e' l c \<Longrightarrow> own e' l c = own e l c) \<Longrightarrow> owned own e'"
proof -
  note sz = same_sizes [OF assms(2)]
  have old: "resident e l c \<and> chunk_cell_lut e' l c = chunk_cell_lut e l c" if "resident e' l c" for l c
    using lut [OF that] that by (simp add: resident_def sz)
  show "coherent e'"
    unfolding coherent_def
  proof (intro allI impI)
    fix l c assume r: "resident e' l c"
    with old have o: "resident e l c" "chunk_cell_lut e' l c = chunk_cell_lut e l c" by auto
    then have "chunk_bytes (row_bytes e) (reserve_buf e' l) (chunk_cell_lut e' l c)
        = chunk_bytes (row_bytes e) (reserve_buf e l) (chunk_cell_lut e l c)"
      by (simp add: reserve resident_def)
    also have "\<dots> = chunk_bytes (row_bytes e) (host_mirror e l) c"
      using assms(1) o(1) by (simp add: coherent_def)
    finally show "chunk_bytes (row_bytes e') (reserve_buf e' l) (chunk_cell_lut e' l c)
        = chunk_bytes (row_bytes e') (host_mirror e' l) c"
      using mirror [OF r] by (simp add: sz)
  qed
  show "owned own e'" if "owned own e" "\<And>l c. resident e' l c \<Longrightarrow> own e' l c = own e l c"
    using that old by (simp add: owned_def)
qed


text \<open>Installing pairs of chunk and cell in every layer: copy the bytes, then map the chunks.\<close>

lemma scatter_clamped:
  assumes "distinct (map fst ps)" "\<forall>p \<in> set ps. 0 \<le> fst p" "0 \<le> c" "c < lut_cols e - 1"
  shows "scatter (map (\<lambda>(c, cell). (clamp_col e c, cell)) ps) f c
     = (case map_of ps c of Some d \<Rightarrow> d | None \<Rightarrow> f c)"
  using assms(1,2)
proof (induction ps arbitrary: f)
  case (Cons p ps)
  obtain x d where p: "p = (x, d)" by (cases p)
  have x: "0 \<le> x" "x \<notin> fst ` set ps" using Cons.prems by (auto simp: p)
  have eq: "clamp_col e x = c \<longleftrightarrow> x = c" using x(1) assms(3,4) by (auto simp: clamp_col_def clamp_def)
  have "scatter (map (\<lambda>(c, cell). (clamp_col e c, cell)) ps) (f(clamp_col e x := d)) c
      = (case map_of ps c of Some d \<Rightarrow> d | None \<Rightarrow> (f(clamp_col e x := d)) c)"
    using Cons by simp
  also have "\<dots> = (case map_of (p # ps) c of Some d \<Rightarrow> d | None \<Rightarrow> f c)"
  proof (cases "x = c")
    case True
    with x(2) have "map_of ps c = None" by (simp add: map_of_eq_None_iff)
    with True eq show ?thesis by (simp add: p)
  next
    case False
    with eq show ?thesis by (auto simp: p split: option.split)
  qed
  finally show ?case by (simp add: p scatter_Cons)
qed simp

definition install :: "(int \<times> int) list \<Rightarrow> engine \<Rightarrow> engine" where
  "install ps e = lut_scatter_all (map (\<lambda>(c, cell). (clamp_col e c, cell)) ps)
     (copy_all_layers (map fst ps) (map snd ps) e)"

lemma install_fields [engine_simps]:
  "alloc_state (install ps e) = alloc_state e"
  "sizes (install ps e) = sizes e"
  "host_mirror (install ps e) = host_mirror e"
  by (simp_all add: install_def copy_all_layers_def engine_simps)

lemma install_lut:
  assumes "distinct (map fst ps)" "\<forall>p \<in> set ps. 0 \<le> fst p" "0 \<le> c" "c < n_logical_pages e * 64"
  shows "chunk_cell_lut (install ps e) l c
     = (case map_of ps c of Some d \<Rightarrow> d | None \<Rightarrow> chunk_cell_lut e l c)"
  using scatter_clamped [OF assms(1,2,3), of e] assms(4)
  by (simp add: install_def engine_simps copy_all_layers_def lut_cols_def)

lemma filter_zip_fst_snd: "filter P (zip (map fst ps) (map snd ps)) = filter P ps"
  by (simp add: zip_map_fst_snd)

lemma install_bytes:
  assumes "cfg_ok e" "distinct (map snd ps)" "\<forall>p \<in> set ps. 0 \<le> fst p \<and> 0 \<le> snd p \<and> snd p < decode_base e"
  shows "(c, d) \<in> set ps \<Longrightarrow> c < n_logical_pages e * 64 \<Longrightarrow>
      chunk_bytes (row_bytes e) (reserve_buf (install ps e) l) d
        = chunk_bytes (row_bytes e) (host_mirror e l) c"
    and "d \<notin> snd ` set ps \<Longrightarrow>
      chunk_bytes (row_bytes e) (reserve_buf (install ps e) l) d
        = chunk_bytes (row_bytes e) (reserve_buf e l) d"
proof -
  let ?ok = "filter (in_bounds (n_logical_pages e) (reserve_pages e)) ps"
  have fits: "row_fits (row_bytes e)" using assms(1) by (simp add: cfg_ok_def)
  have buf: "reserve_buf (install ps e) l
      = copy_pairs (row_bytes e) (host_mirror e l) ?ok (reserve_buf e l)"
    by (simp add: install_def engine_simps copy_all_layers_def copy_chunks_all_layers_pairs zip_map_fst_snd)
  have dist: "distinct (map snd ?ok)" using assms(2) by (simp add: distinct_map_filter)
  show "chunk_bytes (row_bytes e) (reserve_buf (install ps e) l) d
        = chunk_bytes (row_bytes e) (host_mirror e l) c"
    if "(c, d) \<in> set ps" "c < n_logical_pages e * 64"
  proof -
    have "0 \<le> c" "0 \<le> d" "d < decode_base e" using assms(3) that(1) by auto
    with decode_base_bounds(3) [OF assms(1)] that have "(c, d) \<in> set ?ok"
      by (simp add: in_bounds_def cell_capacity_def)
    from copy_pairs_copied [OF fits dist this] show ?thesis by (simp add: buf)
  qed
  show "chunk_bytes (row_bytes e) (reserve_buf (install ps e) l) d
        = chunk_bytes (row_bytes e) (reserve_buf e l) d" if "d \<notin> snd ` set ps"
  proof -
    have "d \<notin> snd ` set ?ok" using that by auto
    from copy_pairs_untouched [OF fits this] show ?thesis by (simp add: buf)
  qed
qed

text \<open>A mapped chunk outside the installed pairs must not sit in one of their cells.\<close>

lemma install_coherent:
  assumes cfg: "cfg_ok e" and coh: "coherent e"
    and keys: "distinct (map fst ps)" and cells: "distinct (map snd ps)"
    and range: "\<forall>p \<in> set ps. 0 \<le> fst p \<and> 0 \<le> snd p \<and> snd p < decode_base e"
    and apart: "\<And>l c. resident e l c \<Longrightarrow> chunk_cell_lut e l c \<in> snd ` set ps \<Longrightarrow> c \<in> fst ` set ps"
  shows "coherent (install ps e)"
    and "(\<And>l c. resident e l c \<Longrightarrow> c \<notin> fst ` set ps \<Longrightarrow> own e l c = Some (chunk_cell_lut e l c)) \<Longrightarrow>
         (\<And>l c d. (c, d) \<in> set ps \<Longrightarrow> own e l c = Some d) \<Longrightarrow>
         own (install ps e) = own e \<Longrightarrow> owned own (install ps e)"
proof -
  note sz = same_sizes [OF install_fields(2) [of ps e]]
  have nn: "\<forall>p \<in> set ps. 0 \<le> fst p" using range by blast
  have cases: "(\<exists>d. (c, d) \<in> set ps \<and> chunk_cell_lut (install ps e) l c = d)
      \<or> (c \<notin> fst ` set ps \<and> chunk_cell_lut (install ps e) l c = chunk_cell_lut e l c \<and> resident e l c)"
    if r: "resident (install ps e) l c" for l c
  proof -
    have c: "0 \<le> c" "c < n_logical_pages e * 64" using r by (auto simp: resident_def sz)
    note lut = install_lut [OF keys nn c, of l]
    show ?thesis
    proof (cases "map_of ps c")
      case None
      then have "c \<notin> fst ` set ps" by (simp add: map_of_eq_None_iff)
      with None lut r show ?thesis by (auto simp: resident_def sz)
    next
      case (Some d)
      with lut show ?thesis by (auto dest: map_of_SomeD)
    qed
  qed
  show "coherent (install ps e)"
    unfolding coherent_def
  proof (intro allI impI)
    fix l c assume r: "resident (install ps e) l c"
    then have c: "c < n_logical_pages e * 64" by (simp add: resident_def sz)
    from cases [OF r] show "chunk_bytes (row_bytes (install ps e)) (reserve_buf (install ps e) l)
          (chunk_cell_lut (install ps e) l c)
        = chunk_bytes (row_bytes (install ps e)) (host_mirror (install ps e) l) c"
    proof (elim disjE exE conjE)
      fix d assume "(c, d) \<in> set ps" "chunk_cell_lut (install ps e) l c = d"
      with install_bytes(1) [OF cfg cells range _ c] show ?thesis by (simp add: sz engine_simps)
    next
      assume a: "c \<notin> fst ` set ps" "chunk_cell_lut (install ps e) l c = chunk_cell_lut e l c"
        "resident e l c"
      with apart have "chunk_cell_lut e l c \<notin> snd ` set ps" by blast
      with install_bytes(2) [OF cfg cells range] a coh show ?thesis
        by (simp add: sz engine_simps coherent_def)
    qed
  qed
  show "owned own (install ps e)"
    if o: "\<And>l c. resident e l c \<Longrightarrow> c \<notin> fst ` set ps \<Longrightarrow> own e l c = Some (chunk_cell_lut e l c)"
      and n: "\<And>l c d. (c, d) \<in> set ps \<Longrightarrow> own e l c = Some d"
      and same: "own (install ps e) = own e"
    unfolding owned_def same using cases n o by metis
qed

end
