(* ===== verification/SwapOwner.thy ===== *)
theory SwapOwner
  imports SwapInv
begin

section \<open>What the stores and releases keep\<close>

text \<open>
  The locale \<open>cell_owner\<close> is the contract between an allocator of the swap engine and the
  operations that do not allocate. An allocator promises a partial map from chunks to cells that
  depends on its books alone, is injective in every layer and stays below the decode region.
  Inside the locale the stores, the invalidations and the installation of freshly copied chunks
  are shown to keep \<open>path_inv\<close>, and reads through the lookup table to return the mirror's bytes.
  The eager, the chunk and the page allocator interpret it at the end.
\<close>

subsection \<open>Rows kept by the prefill store\<close>

lemma fold_max_filter:
  fixes xs :: "nat list"
  assumes "i \<in> set xs" "P i"
  shows "fold max (filter P xs) 0 \<in> set (filter P xs)" "\<And>j. j \<in> set (filter P xs) \<Longrightarrow> j \<le> fold max (filter P xs) 0"
proof -
  have m: "fold max (filter P xs) 0 = Max (set (0 # filter P xs))"
    by (rule Max.set_eq_fold [symmetric])
  have ne: "filter P xs \<noteq> []" using assms by (auto simp: filter_empty_conv)
  have "Max (insert 0 (set (filter P xs))) = max 0 (Max (set (filter P xs)))"
    by (rule Max_insert) (use ne in \<open>auto simp only: set_empty finite_set\<close>)
  with m have m': "fold max (filter P xs) 0 = Max (set (filter P xs))" by simp
  show "fold max (filter P xs) 0 \<in> set (filter P xs)"
    unfolding m' by (rule Max_in) (use ne in \<open>auto simp only: set_empty finite_set\<close>)
  show "j \<le> fold max (filter P xs) 0" if "j \<in> set (filter P xs)" for j
    unfolding m' using that by (intro Max_ge) simp_all
qed

definition last_index :: "int list \<Rightarrow> int \<Rightarrow> nat" where
  "last_index loc c = fold max (filter (\<lambda>i. loc ! i = c) [0..<length loc]) 0"

lemma last_index:
  assumes "c \<in> set loc"
  shows "last_index loc c < length loc" "loc ! last_index loc c = c"
    and "\<And>j. j < length loc \<Longrightarrow> loc ! j = c \<Longrightarrow> j \<le> last_index loc c"
proof -
  from assms obtain i where i: "i \<in> set [0..<length loc]" "loc ! i = c"
    by (auto simp: in_set_conv_nth)
  note m = fold_max_filter [of i "[0..<length loc]" "\<lambda>i. loc ! i = c", OF i]
  show "last_index loc c < length loc" "loc ! last_index loc c = c"
    using m(1) by (auto simp: last_index_def)
  show "j \<le> last_index loc c" if "j < length loc" "loc ! j = c" for j
    using m(2) [of j] that by (simp add: last_index_def)
qed

lemma set_keep_rows: "set (keep_rows loc) = last_index loc ` set loc"
  by (simp add: keep_rows_def last_pos_def last_index_def)

lemma keep_rows_bounds: "i \<in> set (keep_rows loc) \<Longrightarrow> i < length loc"
  by (auto simp: set_keep_rows last_index)

lemma set_kept_locs: "set (map (\<lambda>i. loc ! i) (keep_rows loc)) = set loc"
  by (simp add: set_keep_rows image_image last_index)

lemma distinct_keep_rows: "distinct (keep_rows loc)"
proof -
  have "inj_on (last_index loc) (set loc)"
    by (rule inj_onI) (metis last_index(2))
  then show ?thesis
    by (simp add: keep_rows_def last_pos_def last_index_def [symmetric] distinct_map)
qed

lemma pack_select_len [simp]: "pack_len (length rows) (pack_select rows p)"
  by (simp add: pack_len_def pack_select_def)

lemma pack_select_dims:
  assumes "pack_dims p" "pack_len n p" "\<forall>i \<in> set rows. i < n"
  shows "pack_dims (pack_select rows p)"
  using assms by (auto simp: pack_dims_def pack_len_def pack_select_def list_all_iff)

lemma pack_toks_dims: "pack_dims p \<Longrightarrow> \<forall>(c, row) \<in> set (zip loc (pack_rows p)). row_dims row"
  using pack_rows_dims by (auto dest: set_zip_rightD)

lemma fold_put_untouched:
  assumes "row_fits rb" "\<forall>(c, row) \<in> set toks. row_dims row \<and> c \<noteq> d"
  shows "chunk_bytes rb (fold (\<lambda>(c, row). put_chunk rb c row) toks b) d = chunk_bytes rb b d"
  using assms(2)
proof (induction toks arbitrary: b)
  case (Cons t toks)
  then show ?case by (cases t) (auto simp: put_chunk_untouched [OF assms(1)])
qed simp

text \<open>A prefill store with well-formed arguments succeeds; it writes and unmaps its chunks only.\<close>

lemma store_prefill_effect:
  assumes cfg: "cfg_ok e" and ne: "loc \<noteq> []" and rng: "\<forall>c \<in> set loc. 0 \<le> c \<and> c < n_logical_pages e * 64"
    and p: "pack_dims p" "pack_len (length loc) p"
  obtains m where
    "store_prefill_to_mirror l loc p e
       = (Inr (), lut_clear_layer l (unique loc) (e\<lparr>host_mirror := (host_mirror e)(l := m)\<rparr>))"
    "m = fold (\<lambda>(c, row). put_chunk (row_bytes e) c row)
           (zip (map (\<lambda>i. loc ! i) (keep_rows loc)) (pack_rows (pack_select (keep_rows loc) p))) (host_mirror e l)"
    "\<And>d. d \<notin> set loc \<Longrightarrow> chunk_bytes (row_bytes e) m d = chunk_bytes (row_bytes e) (host_mirror e l) d"
proof -
  let ?rows = "keep_rows loc"
  let ?locs = "map (\<lambda>i. loc ! i) ?rows"
  let ?toks = "zip ?locs (pack_rows (pack_select ?rows p))"
  let ?m = "fold (\<lambda>(c, row). put_chunk (row_bytes e) c row) ?toks (host_mirror e l)"
  have fits: "row_fits (row_bytes e)" "even (row_bytes e)" using cfg by (auto simp: cfg_ok_def)
  have rows: "\<forall>i \<in> set ?rows. i < length loc" using keep_rows_bounds by blast
  have dims: "row_dims row" if "(c, row) \<in> set ?toks" for c row
    using pack_rows_dims [OF pack_select_dims [OF p rows]] that by (meson set_zip_rightD)
  have locs: "c \<in> set loc" if "(c, row) \<in> set ?toks" for c row
    using set_zip_leftD [OF that] unfolding set_kept_locs .
  have ok: "\<forall>(c, row) \<in> set ?toks. 0 \<le> c \<and> c < n_logical_pages e * 64 \<and> row_dims row"
    using dims locs rng by fastforce
  have "set_k_and_s_torch (n_logical_pages e) (row_bytes e) (host_mirror e l) ?locs
      (pack_select ?rows p) C4_PAGE_SIZE = (Inr (), ?m)"
    using set_k_and_s_torch_loop_put [OF fits ok, of "host_mirror e l"] pack_select_len [of ?rows p]
    by (simp add: set_k_and_s_torch_def)
  moreover have "\<not> list_ex (\<lambda>i. \<not> i < length (k_nope_fp8 p) \<or> \<not> i < length (k_rope_bf16 p)
      \<or> \<not> i < length (scale_k_nope_ue8m0 p)) ?rows"
    using rows p(2) by (auto simp: list_ex_iff pack_len_def)
  moreover have "unique ?locs = unique loc"
  proof -
    have "set ?locs = set loc" by (rule set_kept_locs)
    then show ?thesis by (simp add: unique_def sorted_list_of_set_sort_remdups [symmetric])
  qed
  moreover have "filter (col_ok e) (unique loc) = unique loc"
    using rng by (intro filter_True) (auto simp: col_ok_def lut_cols_def)
  ultimately have 1: "store_prefill_to_mirror l loc p e
       = (Inr (), lut_clear_layer l (unique loc) (e\<lparr>host_mirror := (host_mirror e)(l := ?m)\<rparr>))"
    using ne by (simp add: store_prefill_to_mirror_def Let_def)
  have "chunk_bytes (row_bytes e) ?m d = chunk_bytes (row_bytes e) (host_mirror e l) d" if "d \<notin> set loc" for d
    using that locs dims by (intro fold_put_untouched [OF fits(1)]) fastforce
  with 1 show thesis by (intro that [of ?m]) simp_all
qed


text \<open>A sequence of stores leaves, at every chunk, what the last store to it wrote.\<close>

lemma put_put_same:
  assumes "row_dims r1" "row_dims r2"
  shows "put_chunk rb c r2 (put_chunk rb c r1 b) = put_chunk rb c r2 b"
  using assms by (auto simp: put_chunk_def row_dims_def write_run_def split: prod.splits)

lemma put_chunk_at: "f a = g a \<Longrightarrow> put_chunk rb c row f a = put_chunk rb c row g a"
  by (cases row) (simp add: put_chunk_def write_run_def)

lemma fold_put_at:
  assumes "row_fits rb" "\<forall>(d, row) \<in> set toks. row_dims row" "a \<in> chunk_addrs rb c"
  shows "fold (\<lambda>(c, row). put_chunk rb c row) toks b a
    = (if filter (\<lambda>t. fst t = c) toks = [] then b a
       else put_chunk rb c (snd (last (filter (\<lambda>t. fst t = c) toks))) b a)"
  using assms(2)
proof (induction toks rule: rev_induct)
  case (snoc t toks)
  obtain d row where t: "t = (d, row)" by (cases t)
  let ?b = "fold (\<lambda>(c, row). put_chunk rb c row) toks b"
  have dims: "row_dims row" "\<forall>(d, row) \<in> set toks. row_dims row" using snoc.prems by (auto simp: t)
  show ?case
  proof (cases "d = c")
    case False
    with chunk_addrs_disjoint [OF assms(1), of c d] assms(3) have "a \<notin> chunk_addrs rb d" by blast
    from put_chunk_other [OF dims(1) this] snoc.IH [OF dims(2)] False show ?thesis by (simp add: t)
  next
    case True
    have "put_chunk rb c row ?b a = put_chunk rb c row b a"
    proof (cases "filter (\<lambda>t. fst t = c) toks")
      case Nil
      with snoc.IH [OF dims(2)] have "?b a = b a" by simp
      then show ?thesis by (rule put_chunk_at)
    next
      case (Cons x xs)
      have "last (filter (\<lambda>t. fst t = c) toks) \<in> set toks" using Cons by (metis last_in_set filter_is_subset subsetD list.distinct(1))
      then have d: "row_dims (snd (last (filter (\<lambda>t. fst t = c) toks)))" using dims(2) by force
      from snoc.IH [OF dims(2)] Cons
      have "?b a = put_chunk rb c (snd (last (filter (\<lambda>t. fst t = c) toks))) b a" by simp
      from put_chunk_at [of ?b a "put_chunk rb c (snd (last (filter (\<lambda>t. fst t = c) toks))) b", OF this, of rb c row] put_put_same [OF d dims(1), of rb c b]
      show ?thesis by simp
    qed
    then show ?thesis by (simp add: t True)
  qed
qed simp

lemma fold_put_outside:
  assumes "\<forall>(d, row) \<in> set toks. row_dims row \<and> a \<notin> chunk_addrs rb d"
  shows "fold (\<lambda>(c, row). put_chunk rb c row) toks b a = b a"
  using assms
proof (induction toks arbitrary: b)
  case (Cons t toks)
  then show ?case by (cases t) (simp add: put_chunk_other)
qed simp

lemma filter_zip_nth:
  assumes "length rows = length loc"
  shows "filter (\<lambda>t. fst t = c) (zip loc rows)
       = map (\<lambda>i. (c, rows ! i)) (filter (\<lambda>i. loc ! i = c) [0..<length loc])"
proof -
  have "zip loc rows = map (\<lambda>i. (loc ! i, rows ! i)) [0..<length loc]"
    using assms by (intro nth_equalityI) simp_all
  then show ?thesis by (simp add: filter_map comp_def cong: map_cong)
qed

lemma last_filter_upt:
  assumes "c \<in> set loc"
  shows "filter (\<lambda>i. loc ! i = c) [0..<length loc] \<noteq> []"
    and "last (filter (\<lambda>i. loc ! i = c) [0..<length loc]) = last_index loc c"
proof -
  let ?xs = "filter (\<lambda>i. loc ! i = c) [0..<length loc]"
  note l = last_index [OF assms]
  have m: "last_index loc c \<in> set ?xs" using l(1,2) by simp
  then show ne: "?xs \<noteq> []" by (metis list.set(1) empty_iff)
  have "last ?xs \<in> set ?xs" using ne by (rule last_in_set)
  then have "last ?xs \<le> last_index loc c" using l(3) by auto
  moreover have "last_index loc c \<le> last ?xs"
  proof -
    have "sorted ?xs" by (simp add: sorted_wrt_filter)
    moreover from m obtain i where i: "i < length ?xs" "?xs ! i = last_index loc c" by (auto simp only: in_set_conv_nth)
    ultimately have "?xs ! i \<le> ?xs ! (length ?xs - 1)" by (intro sorted_nth_mono) auto
    with i(2) show ?thesis by (simp only: last_conv_nth [OF ne])
  qed
  ultimately show "last ?xs = last_index loc c" by simp
qed

lemma distinct_singleton: "distinct xs \<Longrightarrow> set xs = {x} \<Longrightarrow> xs = [x]"
  by (cases xs; cases "tl xs") (auto simp: insert_eq_iff)

lemma pack_rows_select:
  assumes "pack_len n p" "\<forall>i \<in> set rows. i < n"
  shows "pack_rows (pack_select rows p) = map (\<lambda>i. pack_rows p ! i) rows"
  using assms by (intro nth_equalityI) (auto simp: pack_rows_def pack_select_def pack_len_def)

text \<open>Storing only the last row of every chunk is storing all rows in order.\<close>

lemma keep_rows_store:
  assumes fits: "row_fits rb" and p: "pack_dims p" "pack_len (length loc) p"
  shows "fold (\<lambda>(c, row). put_chunk rb c row)
      (zip (map (\<lambda>i. loc ! i) (keep_rows loc)) (pack_rows (pack_select (keep_rows loc) p))) b
    = fold (\<lambda>(c, row). put_chunk rb c row) (zip loc (pack_rows p)) b" (is "fold ?f ?kept b = fold ?f ?all b")
proof (rule ext)
  fix a
  let ?rows = "pack_rows p"
  have kr: "\<forall>i \<in> set (keep_rows loc). i < length loc" using keep_rows_bounds by blast
  have kept: "?kept = map (\<lambda>i. (loc ! i, ?rows ! i)) (keep_rows loc)"
    unfolding pack_rows_select [OF p(2) kr] by (rule nth_equalityI) simp_all
  have dims: "\<forall>(d, row) \<in> set ?all. row_dims row" by (rule pack_toks_dims [OF p(1)])
  have dims': "\<forall>(d, row) \<in> set ?kept. row_dims row"
    by (rule pack_toks_dims [OF pack_select_dims [OF p kr]])
  show "fold ?f ?kept b a = fold ?f ?all b a"
  proof (cases "\<exists>c \<in> set loc. a \<in> chunk_addrs rb c")
    case True
    then obtain c where c: "c \<in> set loc" "a \<in> chunk_addrs rb c" by blast
    let ?i = "last_index loc c"
    have all: "filter (\<lambda>t. fst t = c) ?all = map (\<lambda>i. (c, ?rows ! i)) (filter (\<lambda>i. loc ! i = c) [0..<length loc])"
      by (rule filter_zip_nth) (simp add: p(2))
    have "filter (\<lambda>i. loc ! i = c) (keep_rows loc) = [?i]"
    proof -
      have "set (filter (\<lambda>i. loc ! i = c) (keep_rows loc)) = {?i}"
        using c(1) last_index(2) by (auto simp: set_keep_rows)
      moreover have "distinct (filter (\<lambda>i. loc ! i = c) (keep_rows loc))" by (simp add: distinct_keep_rows)
      ultimately show ?thesis by (intro distinct_singleton)
    qed
    then have "filter (\<lambda>t. fst t = c) ?kept = [(c, ?rows ! ?i)]"
      using last_index(2) [OF c(1)] unfolding kept filter_map comp_def fst_conv by simp
    with fold_put_at [OF fits dims' c(2), of b] fold_put_at [OF fits dims c(2), of b] last_filter_upt [OF c(1)]
    show ?thesis by (simp add: all last_map)
  next
    case False
    have out: "a \<notin> chunk_addrs rb d" if "d \<in> set loc" for d using False that by blast
    have "\<forall>(d, row) \<in> set ?all. row_dims row \<and> a \<notin> chunk_addrs rb d"
      using dims out set_zip_leftD by fast
    moreover have "\<forall>(d, row) \<in> set ?kept. row_dims row \<and> a \<notin> chunk_addrs rb d"
      using dims' out set_zip_leftD [of _ _ "map (\<lambda>i. loc ! i) (keep_rows loc)", unfolded set_kept_locs] by fast
    ultimately show ?thesis using fold_put_outside by metis
  qed
qed

text \<open>Decode stores only write cells of the decode region and the sink.\<close>

lemma decode_cell_region:
  assumes "cfg_ok e"
  shows "decode_base e \<le> decode_cell e ri loc sl" "decode_cell e ri loc sl < cell_capacity e"
proof -
  note b = decode_base_bounds [OF assms]
  have "decode_base e \<le> decode_base e + decode_slot_t e (clamp 0 (max_req_pool e - 1) ri)
      * decode_resident_chunks e + decode_local e ri loc sl" if "decode_valid e ri loc sl"
    using that by (simp add: decode_valid_def Let_def)
  then show "decode_base e \<le> decode_cell e ri loc sl" "decode_cell e ri loc sl < cell_capacity e"
    using b by (auto simp: decode_cell_def Let_def clamp_def sink_cell_def)
qed

lemma fold_triton_put:
  assumes "even rb" "\<forall>(c, row) \<in> set toks. row_dims row"
  shows "fold (set_k_and_s_triton_kernel rb 64) toks b = fold (\<lambda>(c, row). put_chunk rb c row) toks b"
  using assms(2)
proof (induction toks arbitrary: b)
  case (Cons t toks)
  then show ?case by (cases t) (auto simp: set_k_and_s_triton_kernel_put [OF assms(1)])
qed simp

lemma set_k_and_s_triton_untouched:
  assumes "row_fits rb" "even rb" "pack_dims p" "d \<notin> set loc"
  shows "chunk_bytes rb (snd (set_k_and_s_triton rb b loc p C4_PAGE_SIZE)) d = chunk_bytes rb b d"
proof -
  have "\<forall>(c, row) \<in> set (zip loc (pack_rows p)). row_dims row \<and> c \<noteq> d"
    using pack_toks_dims [OF assms(3), of loc] assms(4) by (auto dest: set_zip_leftD)
  from fold_put_untouched [OF assms(1) this] show ?thesis
    by (simp add: set_k_and_s_triton_def fold_triton_put [OF assms(2) pack_toks_dims [OF assms(3)]])
qed

lemma scatter_cases: "scatter ws f c = f c \<or> scatter ws f c \<in> snd ` set ws"
proof (induction ws arbitrary: f)
  case (Cons w ws)
  obtain i v where w: "w = (i, v)" by (cases w)
  from Cons [of "f(i := v)"] show ?case by (cases "c = i") (auto simp del: fun_upd_apply simp: w scatter_Cons fun_upd_same fun_upd_other)
qed simp



lemma counters_fields [engine_simps]:
  "alloc_state (e\<lparr>ds_formed_acc := x, ds_valid_acc := y\<rparr>) = alloc_state e"
  "reserve_buf (e\<lparr>ds_formed_acc := x, ds_valid_acc := y\<rparr>) = reserve_buf e"
  by (simp_all add: alloc_state_def sizes_def reserve_buf_def)

lemma store_decode_effect:
  assumes "decode_t_ready e"
  defines "cells \<equiv> \<lambda>rows. map (\<lambda>(ri, loc, sl). decode_cell e ri loc sl) rows"
    and "e' \<equiv> \<lambda>l rows p. snd (store_decode_to_reserve l rows p e)"
  shows "alloc_state (e' l rows p) = alloc_state e" "host_mirror (e' l rows p) = host_mirror e"
    and "reserve_buf (e' l rows p) l' = (if l' = l
       then snd (set_k_and_s_triton (row_bytes e) (reserve_buf e l) (cells rows) p C4_PAGE_SIZE)
       else reserve_buf e l')"
    and "chunk_cell_lut (e' l rows p) l' c = chunk_cell_lut e l' c
       \<or> chunk_cell_lut (e' l rows p) l' c \<in> set (cells rows)"
proof -
  obtain r b where t: "set_k_and_s_triton (row_bytes e) (reserve_buf e l) (cells rows) p C4_PAGE_SIZE = (r, b)"
    by fastforce
  define e1 where "e1 = (if dbg_remap_miss e
      then e\<lparr>ds_formed_acc := ds_formed_acc e + count_if (\<lambda>(ri, loc, sl). 0 < loc) rows,
             ds_valid_acc := ds_valid_acc e
               + count_if (\<lambda>(ri, loc, sl). decode_valid e ri loc sl \<and> 0 < loc) rows\<rparr>
      else e)"
  have e1: "alloc_state e1 = alloc_state e" "host_mirror e1 = host_mirror e"
    "reserve_buf e1 = reserve_buf e" "chunk_cell_lut e1 = chunk_cell_lut e" "row_bytes e1 = row_bytes e"
    by (simp_all add: e1_def engine_simps)
  let ?e2 = "set_reserve ((reserve_buf e)(l := b)) e1"
  have e': "e' l rows p = (case r of Inl _ \<Rightarrow> ?e2
      | Inr _ \<Rightarrow> lut_scatter_layer l (zip (map (\<lambda>(ri, loc, sl). decode_lut_col e ri loc sl) rows) (cells rows)) ?e2)"
    using assms(1) t
    by (cases "dbg_remap_miss e")
      (simp_all add: e'_def store_decode_to_reserve_def cells_def e1_def engine_simps split: sum.split)
  show "alloc_state (e' l rows p) = alloc_state e" "host_mirror (e' l rows p) = host_mirror e"
    unfolding e' by (auto simp: engine_simps e1 split: sum.split)
  show "reserve_buf (e' l rows p) l' = (if l' = l
       then snd (set_k_and_s_triton (row_bytes e) (reserve_buf e l) (cells rows) p C4_PAGE_SIZE)
       else reserve_buf e l')"
    unfolding e' t by (auto simp: engine_simps e1 split: sum.split)
  have "snd ` set (zip xs ys) \<subseteq> set ys" for xs :: "int list" and ys :: "int list"
    by (auto dest: set_zip_rightD)
  with scatter_cases show "chunk_cell_lut (e' l rows p) l' c = chunk_cell_lut e l' c
       \<or> chunk_cell_lut (e' l rows p) l' c \<in> set (cells rows)"
    unfolding e' by (simp add: engine_simps e1 split: sum.split) blast
qed


subsection \<open>The contract of an allocator\<close>

locale cell_owner =
  fixes owner :: "engine \<Rightarrow> nat \<Rightarrow> int \<Rightarrow> int option" and slots :: "engine \<Rightarrow> bool"
  assumes owner_books: "alloc_state e' = alloc_state e \<Longrightarrow> owner e' = owner e"
    and slots_books: "alloc_state e' = alloc_state e \<Longrightarrow> slots e' = slots e"
    and owner_inj: "slots e \<Longrightarrow> owner e l c = Some x \<Longrightarrow> owner e l d = Some x \<Longrightarrow> c = d"
    and owner_range: "slots e \<Longrightarrow> owner e l c = Some x \<Longrightarrow> 0 \<le> x \<and> x < decode_base e"
begin

abbreviation inv :: "engine \<Rightarrow> bool" where
  "inv \<equiv> path_inv owner slots"

lemma read_mirror:
  assumes "inv e" "0 \<le> c" "c < n_logical_pages e * 64"
    and "remap_loc e l c = d" "0 \<le> d" "d < decode_base e"
  shows "chunk_bytes (row_bytes e) (reserve_buf e l) d = chunk_bytes (row_bytes e) (host_mirror e l) c"
proof -
  have "chunk_cell_lut e l c = d"
    using assms(2-5) by (auto simp: remap_loc_def Let_def clamp_col_def lut_cols_def split: if_splits)
  with assms have "resident e l c" "coherent e" by (auto simp: path_inv_def resident_def)
  with \<open>chunk_cell_lut e l c = d\<close> show ?thesis by (auto simp: coherent_def)
qed

lemma cells_apart:
  assumes "inv e" "resident e l c" "resident e l c'" "c \<noteq> c'"
  shows "chunk_cell_lut e l c \<noteq> chunk_cell_lut e l c'"
  using assms owner_inj [of e l c "chunk_cell_lut e l c" c'] by (force simp: path_inv_def owned_def)

lemma inv_shrink:
  assumes "inv e" "sizes e' = sizes e" "slots e'"
    and "\<And>l c. resident e' l c \<Longrightarrow> owner e' l c = owner e l c"
    and "\<And>l c. resident e' l c \<Longrightarrow> chunk_cell_lut e' l c = chunk_cell_lut e l c"
    and "\<And>l c. resident e' l c \<Longrightarrow> chunk_bytes (row_bytes e) (host_mirror e' l) c
        = chunk_bytes (row_bytes e) (host_mirror e l) c"
    and "\<And>l d. 0 \<le> d \<Longrightarrow> d < decode_base e \<Longrightarrow>
        chunk_bytes (row_bytes e) (reserve_buf e' l) d = chunk_bytes (row_bytes e) (reserve_buf e l) d"
  shows "inv e'"
proof -
  from assms(1) have i: "cfg_ok e" "owned owner e" "coherent e" by (auto simp: path_inv_def)
  from coherent_shrink(1) [OF i(3) assms(2,5,6,7)]
    coherent_shrink(2) [where own = owner, OF i(3) assms(2,5,6,7)] i assms(3,4) same_sizes(11) [OF assms(2)]
  show ?thesis by (simp add: path_inv_def)
qed

text \<open>Same books: only the table shrinks, or the bytes of unmapped chunks change.\<close>

lemma inv_books:
  assumes "inv e" "alloc_state e' = alloc_state e"
    and "\<And>l c. resident e' l c \<Longrightarrow> chunk_cell_lut e' l c = chunk_cell_lut e l c"
    and "\<And>l c. resident e' l c \<Longrightarrow> chunk_bytes (row_bytes e) (host_mirror e' l) c
        = chunk_bytes (row_bytes e) (host_mirror e l) c"
    and "\<And>l d. 0 \<le> d \<Longrightarrow> d < decode_base e \<Longrightarrow>
        chunk_bytes (row_bytes e) (reserve_buf e' l) d = chunk_bytes (row_bytes e) (reserve_buf e l) d"
  shows "inv e'"
  using inv_shrink [OF assms(1) alloc_state_sizes [OF assms(2)] _ _ assms(3,4,5)]
    owner_books [OF assms(2)] slots_books [OF assms(2)] assms(1)
  by (simp add: path_inv_def)

lemma fill_resident:
  "fill cols (- 1) f c = f c" if "0 \<le> fill cols (- 1) f c" for f :: "int \<Rightarrow> int"
  using that by (cases "c \<in> set cols") auto

lemma inv_clear:
  assumes "inv e"
  shows "inv (lut_clear_all cols e)" "inv (lut_clear_layer l cols e)"
proof -
  show "inv (lut_clear_all cols e)"
    by (rule inv_books [OF assms]) (auto simp: engine_simps resident_def intro: fill_resident)
  show "inv (lut_clear_layer l cols e)"
    by (rule inv_books [OF assms])
      (auto simp: engine_simps resident_def intro: fill_resident split: if_splits)
qed

lemma inv_discard: "inv e \<Longrightarrow> inv (snd (discard_copied_pages pages e))"
  by (simp add: discard_copied_pages_def Let_def inv_clear)

lemma inv_store_prefill:
  assumes "inv e" "\<forall>c \<in> set loc. 0 \<le> c \<and> c < n_logical_pages e * 64"
    and "pack_dims p" "pack_len (length loc) p"
  shows "inv (snd (store_prefill_to_mirror l loc p e))"
proof (cases "loc = []")
  case False
  have "cfg_ok e" using assms(1) by (simp add: path_inv_def)
  from store_prefill_effect [OF this False assms(2-4), of l] obtain m where
    st: "store_prefill_to_mirror l loc p e
       = (Inr (), lut_clear_layer l (unique loc) (e\<lparr>host_mirror := (host_mirror e)(l := m)\<rparr>))"
    and m: "\<And>d. d \<notin> set loc \<Longrightarrow> chunk_bytes (row_bytes e) m d = chunk_bytes (row_bytes e) (host_mirror e l) d"
    by blast
  let ?e = "lut_clear_layer l (unique loc) (e\<lparr>host_mirror := (host_mirror e)(l := m)\<rparr>)"
  have unmapped: "c \<notin> set loc" if "resident ?e l c" for c
    using that by (cases "c \<in> set loc") (auto simp: engine_simps resident_def)
  have books: "alloc_state ?e = alloc_state e"
    by (simp add: engine_simps) (simp add: alloc_state_def sizes_def)
  have "inv ?e"
  proof (rule inv_books [OF assms(1) books])
    fix l' c assume r: "resident ?e l' c"
    then show "chunk_cell_lut ?e l' c = chunk_cell_lut e l' c"
      by (auto simp: engine_simps resident_def intro: fill_resident split: if_splits)
    show "chunk_bytes (row_bytes e) (host_mirror ?e l') c = chunk_bytes (row_bytes e) (host_mirror e l') c"
      using r unmapped m by (cases "l' = l") (auto simp: engine_simps)
  qed (simp add: engine_simps, simp add: reserve_buf_def)
  with st show ?thesis by simp
qed (simp add: assms(1) store_prefill_to_mirror_def)

lemma inv_store_decode_to_reserve:
  assumes "inv e" "pack_dims p"
  shows "inv (snd (store_decode_to_reserve l rows p e))"
proof (cases "decode_t_ready e")
  case False
  with assms show ?thesis by (simp add: store_decode_to_reserve_def)
next
  case True
  have cfg: "cfg_ok e" "row_fits (row_bytes e)" "even (row_bytes e)"
    using assms(1) by (auto simp: path_inv_def cfg_ok_def)
  define cells where "cells = map (\<lambda>(ri, loc, sl). decode_cell e ri loc sl) rows"
  define e' where "e' = snd (store_decode_to_reserve l rows p e)"
  have high: "decode_base e \<le> x" if "x \<in> set cells" for x
    using that decode_cell_region(1) [OF cfg(1)] by (auto simp: cells_def)
  note e' = store_decode_effect [OF True, of l rows p, folded cells_def e'_def]
  show ?thesis unfolding e'_def [symmetric]
  proof (rule inv_books [OF assms(1) e'(1)])
    fix l' c assume "resident e' l' c"
    then show "chunk_cell_lut e' l' c = chunk_cell_lut e l' c"
      using e'(4) [of l' c] high same_sizes(5) [OF alloc_state_sizes [OF e'(1)]]
      by (force simp: resident_def)
  next
    show "chunk_bytes (row_bytes e) (host_mirror e' l') c = chunk_bytes (row_bytes e) (host_mirror e l') c" for l' c
      by (simp add: e')
  next
    fix l' d assume d: "0 \<le> d" "d < decode_base e"
    then have "d \<notin> set cells" using high by force
    from set_k_and_s_triton_untouched [OF cfg(2,3) assms(2) this]
    show "chunk_bytes (row_bytes e) (reserve_buf e' l') d = chunk_bytes (row_bytes e) (reserve_buf e l') d"
      by (simp add: e')
  qed
qed

lemma inv_install:
  assumes "inv e" "distinct (map fst ps)" "\<And>c d l. (c, d) \<in> set ps \<Longrightarrow> 0 \<le> c \<and> owner e l c = Some d"
  shows "inv (install ps e)"
proof -
  have i: "cfg_ok e" "slots e" "owned owner e" "coherent e" using assms(1) by (auto simp: path_inv_def)
  have same: "owner (install ps e) = owner e" by (rule owner_books) (simp add: engine_simps)
  have range: "\<forall>p \<in> set ps. 0 \<le> fst p \<and> 0 \<le> snd p \<and> snd p < decode_base e"
    using assms(3) owner_range [OF i(2)] by fastforce
  have eq: "c = c'" if "(c, d) \<in> set ps" "owner e l c' = Some d" for c c' d l
    using owner_inj [OF i(2)] assms(3) that by blast
  have cells: "distinct (map snd ps)"
    using assms(2) eq assms(3) by (auto simp: distinct_map inj_on_def)
  have apart: "c \<in> fst ` set ps" if "resident e l c" "chunk_cell_lut e l c \<in> snd ` set ps" for l c
  proof -
    from that(2) obtain c' where c': "(c', chunk_cell_lut e l c) \<in> set ps" by force
    moreover have "owner e l c = Some (chunk_cell_lut e l c)" using i(3) that(1) by (simp add: owned_def)
    ultimately have "c' = c" by (rule eq)
    with c' show ?thesis by force
  qed
  have "owned owner (install ps e)"
    by (rule install_coherent(2) [where own = owner, OF i(1,4) assms(2) cells range apart])
      (use assms(3) i(3) same in \<open>auto simp: owned_def\<close>)
  moreover have "slots (install ps e)" using slots_books [of "install ps e" e] i(2) by (simp add: engine_simps)
  ultimately show ?thesis 
    using install_coherent(1) [OF i(1,4) assms(2) cells range apart] i(1) same_sizes(11) [of "install ps e" e]
    by (simp add: path_inv_def engine_simps)
qed

text \<open>Whole rows of the mirror are rewritten, and the table forgets their chunks.\<close>

lemma inv_rewrite_pages:
  assumes inv: "inv e" and pgs: "pgs = pages_in_range e pages"
    and e2: "alloc_state e2 = alloc_state e" "reserve_buf e2 = reserve_buf e" "chunk_cell_lut e2 = chunk_cell_lut e"
    and rows: "\<And>l a. a div row_bytes e \<notin> set pgs \<Longrightarrow> host_mirror e2 l a = host_mirror e l a"
  shows "inv (lut_clear_all (filter (\<lambda>c. c < lut_cols e) (concat (map page_chunks pgs))) e2)"
proof -
  let ?cols = "filter (\<lambda>c. c < lut_cols e) (concat (map page_chunks pgs))"
  let ?e3 = "lut_clear_all ?cols e2"
  have fits: "row_fits (row_bytes e)" using inv by (simp add: path_inv_def cfg_ok_def)
  have books: "alloc_state ?e3 = alloc_state e" by (simp add: engine_simps e2)
  show "inv ?e3"
  proof (rule inv_books [OF inv books])
    fix l c assume r: "resident ?e3 l c"
    have lut: "chunk_cell_lut ?e3 l c = fill ?cols (- 1) (chunk_cell_lut e l) c" by (simp add: engine_simps e2)
    from r have pos: "0 \<le> chunk_cell_lut ?e3 l c" by (simp only: resident_def)
    then show "chunk_cell_lut ?e3 l c = chunk_cell_lut e l c" unfolding lut by (rule fill_resident)
    have c: "0 \<le> c" "c < n_logical_pages e * 64"
      using r same_sizes(2) [OF alloc_state_sizes [OF books]] by (auto simp: resident_def)
    have "c div 64 \<notin> set pgs"
    proof
      assume "c div 64 \<in> set pgs"
      with c have "c \<in> set ?cols"
        by (auto simp: page_chunks_def lut_cols_def intro!: bexI [of _ "c div 64"])
      with pos show False unfolding lut by (simp only: fill_in)
    qed
    then have "host_mirror e2 l a = host_mirror e l a" if "a \<in> chunk_addrs (row_bytes e) c" for a
      using rows chunk_addr_row(1) [OF fits that] by simp
    then show "chunk_bytes (row_bytes e) (host_mirror ?e3 l) c = chunk_bytes (row_bytes e) (host_mirror e l) c"
      by (intro chunk_bytes_cong) (simp add: engine_simps)
  qed (simp add: engine_simps e2)
qed

lemma inv_ingest:
  assumes "inv e" "own_reserve e \<or> \<not> poison_after_ingest e"
  shows "inv (snd (ingest_transferred_history pages e))"
proof -
  let ?pgs = "pages_in_range e pages"
  let ?e1 = "e\<lparr>host_mirror := (\<lambda>l. copy_rows (row_bytes e) ?pgs (pool_buf e l) (host_mirror e l))\<rparr>"
  let ?e2 = "if poison_after_ingest e
      then ?e1\<lparr>pool_buf := (\<lambda>l. copy_rows (row_bytes e) ?pgs (\<lambda>_. 0) (pool_buf e l))\<rparr> else ?e1"
  have "inv (lut_clear_all (filter (\<lambda>c. c < lut_cols e) (concat (map page_chunks ?pgs))) ?e2)"
    using assms(2)
    by (intro inv_rewrite_pages [OF assms(1) refl])
      (auto simp: alloc_state_def sizes_def reserve_buf_def copy_rows_def)
  with assms(1) show ?thesis by (auto simp: ingest_transferred_history_def Let_def)
qed

text \<open>A transfer writes rows of the mirror behind the engine's back; the caller then discards them.\<close>

lemma inv_transfer:
  assumes "inv e" "\<And>l a. a div row_bytes e \<notin> set (pages_in_range e pages) \<Longrightarrow> m l a = host_mirror e l a"
  shows "inv (snd (discard_copied_pages pages (e\<lparr>host_mirror := m\<rparr>)))"
proof (cases "pages_in_range e pages = []")
  case True
  then have "m = host_mirror e" using assms(2) by (simp add: fun_eq_iff)
  with assms(1) show ?thesis by (intro inv_discard) simp
next
  case False
  let ?e = "e\<lparr>host_mirror := m\<rparr>"
  have p: "pages_in_range ?e pages = pages_in_range e pages" "lut_cols ?e = lut_cols e"
    by (simp_all add: pages_in_range_def lut_cols_def)
  have "inv (lut_clear_all (filter (\<lambda>c. c < lut_cols e) (concat (map page_chunks (pages_in_range e pages)))) ?e)"
    by (rule inv_rewrite_pages [OF assms(1) refl]) (simp_all add: alloc_state_def sizes_def reserve_buf_def assms(2))
  with False p show ?thesis by (simp add: discard_copied_pages_def Let_def)
qed

text \<open>Bookkeeping that touches neither the table nor a buffer.\<close>

lemma inv_irrelevant:
  assumes "inv e" "alloc_state e' = alloc_state e" "chunk_cell_lut e' = chunk_cell_lut e"
    and "host_mirror e' = host_mirror e" "reserve_buf e' = reserve_buf e"
  shows "inv e'"
  by (rule inv_books [OF assms(1,2)]) (simp_all add: assms)

lemma inv_register: "inv e \<Longrightarrow> inv (register_decode_req ri pc n e)"
  by (erule inv_irrelevant) (simp_all add: register_decode_req_def ensure_decode_tensors_def Let_def
      alloc_state_def sizes_def reserve_buf_def)

lemma inv_remap: "inv e \<Longrightarrow> inv (snd (remap_compressed_locs e l locs))"
  by (erule inv_irrelevant) (simp_all add: remap_compressed_locs_def Let_def alloc_state_def sizes_def reserve_buf_def)

lemma inv_index_pages: "inv e \<Longrightarrow> inv (copy_index_pages ps e)"
  by (erule inv_irrelevant) (simp_all add: copy_index_pages_def Let_def alloc_state_def sizes_def reserve_buf_def)

lemma inv_store_index: "inv e \<Longrightarrow> inv (snd (store_index_decode_to_reserve l locs ks e))"
  by (erule inv_irrelevant) (simp_all add: store_index_decode_to_reserve_def Let_def alloc_state_def sizes_def
      reserve_buf_def split: option.split sum.split prod.split)

end


subsection \<open>The three allocators\<close>

definition eager_owner :: "engine \<Rightarrow> nat \<Rightarrow> int \<Rightarrow> int option" where
  "eager_owner e l c = od_get (chunk_to_cell e l) c"

definition eager_slots :: "engine \<Rightarrow> bool" where
  "eager_slots e \<longleftrightarrow> (\<forall>l. slots_ok (chunk_to_cell e l) (next_cell e l) (free_cells e l) (recall_cell_capacity e)
     \<and> list_all (col_ok e) (od_keys (chunk_to_cell e l)))"

definition chunk_owner :: "engine \<Rightarrow> nat \<Rightarrow> int \<Rightarrow> int option" where
  "chunk_owner e l c = od_get (g_chunk_to_cell e) c"

definition chunk_slots :: "engine \<Rightarrow> bool" where
  "chunk_slots e \<longleftrightarrow> slots_ok (g_chunk_to_cell e) (g_next_cell e) (g_free_cells e) (recall_cell_capacity e)"

definition page_owner :: "engine \<Rightarrow> nat \<Rightarrow> int \<Rightarrow> int option" where
  "page_owner e l c = map_option (\<lambda>blk. blk * 64 + c mod 64) (od_get (g_page_to_block e) (c div 64))"

definition page_slots :: "engine \<Rightarrow> bool" where
  "page_slots e \<longleftrightarrow> slots_ok (g_page_to_block e) (g_next_block e) (g_free_blocks e) (recall_cell_capacity e div 64)
     \<and> list_all (\<lambda>pg. 0 \<le> pg) (od_keys (g_page_to_block e))"

abbreviation eager_inv :: "engine \<Rightarrow> bool" where
  "eager_inv \<equiv> path_inv eager_owner eager_slots"

abbreviation chunk_inv :: "engine \<Rightarrow> bool" where
  "chunk_inv \<equiv> path_inv chunk_owner chunk_slots"

abbreviation page_inv :: "engine \<Rightarrow> bool" where
  "page_inv \<equiv> path_inv page_owner page_slots"

lemmas owner_defs = eager_owner_def eager_slots_def chunk_owner_def chunk_slots_def
  page_owner_def page_slots_def

lemma alloc_state_parts:
  assumes "alloc_state e' = alloc_state e"
  shows "chunk_to_cell e' = chunk_to_cell e" "next_cell e' = next_cell e" "free_cells e' = free_cells e"
    and "g_chunk_to_cell e' = g_chunk_to_cell e" "g_next_cell e' = g_next_cell e" "g_free_cells e' = g_free_cells e"
    and "g_page_to_block e' = g_page_to_block e" "g_next_block e' = g_next_block e"
    and "g_free_blocks e' = g_free_blocks e" "recall_cell_capacity e' = recall_cell_capacity e"
    and "col_ok e' = col_ok e"
  using assms same_sizes(9,13) [OF alloc_state_sizes [OF assms]] by (simp_all add: alloc_state_def)

interpretation eager: cell_owner eager_owner eager_slots
proof (unfold_locales, goal_cases)
  case (1 e' e)
  from alloc_state_parts [OF 1] show ?case by (simp add: owner_defs fun_eq_iff)
next
  case (2 e' e)
  from alloc_state_parts [OF 2] show ?case by (simp add: owner_defs)
next
  case (3 e l c x d)
  then show ?case unfolding owner_defs by (metis slots_inj)
next
  case (4 e l c x)
  then show ?case unfolding owner_defs by (metis slots_range(1,3) recall_cell_capacity_def)
qed

interpretation chunk: cell_owner chunk_owner chunk_slots
proof (unfold_locales, goal_cases)
  case (1 e' e)
  from alloc_state_parts [OF 1] show ?case by (simp add: owner_defs fun_eq_iff)
next
  case (2 e' e)
  from alloc_state_parts [OF 2] show ?case by (simp add: owner_defs)
next
  case (3 e l c x d)
  then show ?case unfolding owner_defs by (metis slots_inj)
next
  case (4 e l c x)
  then show ?case unfolding owner_defs by (metis slots_range(1,3) recall_cell_capacity_def)
qed

lemma block_cell_eq:
  fixes b b' c c' :: int
  assumes "b * 64 + c mod 64 = b' * 64 + c' mod 64"
  shows "b = b'" "c mod 64 = c' mod 64"
proof -
  have "(b * 64 + c mod 64) div 64 = b" "(b' * 64 + c' mod 64) div 64 = b'" by simp_all
  with assms show "b = b'" by simp
  with assms show "c mod 64 = c' mod 64" by simp
qed

lemma block_cell_range:
  fixes b c cap :: int
  assumes "0 \<le> b" "b < cap div 64"
  shows "0 \<le> b * 64 + c mod 64" "b * 64 + c mod 64 < cap"
proof -
  have "b + 1 \<le> cap div 64" "0 \<le> c mod 64" "c mod 64 < 64" using assms by simp_all
  moreover have "cap div 64 * 64 \<le> cap" by (simp add: minus_mod_eq_div_mult [symmetric])
  ultimately show "0 \<le> b * 64 + c mod 64" "b * 64 + c mod 64 < cap" using assms(1) by linarith+
qed

interpretation page: cell_owner page_owner page_slots
proof (unfold_locales, goal_cases)
  case (1 e' e)
  from alloc_state_parts [OF 1] show ?case by (simp add: owner_defs fun_eq_iff)
next
  case (2 e' e)
  from alloc_state_parts [OF 2] show ?case by (simp add: owner_defs)
next
  case (3 e l c x d)
  then obtain b b' where b: "od_get (g_page_to_block e) (c div 64) = Some b" "x = b * 64 + c mod 64"
    and b': "od_get (g_page_to_block e) (d div 64) = Some b'" "x = b' * 64 + d mod 64"
    by (auto simp: owner_defs)
  from block_cell_eq [of b c b' d] b(2) b'(2) have eq: "b = b'" "c mod 64 = d mod 64" by simp_all
  with b b' 3(1) have "c div 64 = d div 64" unfolding owner_defs by (metis slots_inj)
  with eq(2) show ?case by (metis mult_div_mod_eq)
next
  case (4 e l c x)
  then obtain b where b: "od_get (g_page_to_block e) (c div 64) = Some b" "x = b * 64 + c mod 64"
    by (auto simp: owner_defs)
  with 4(1) have "0 \<le> b" "b < recall_cell_capacity e div 64"
    unfolding owner_defs by (auto dest: slots_range)
  from block_cell_range [OF this, of c] b(2) show ?case by (simp add: recall_cell_capacity_def)
qed

end
