(* ===== verification/SwapPage.thy ===== *)
theory SwapPage
  imports SwapOwner
begin

section \<open>Recall of whole pages\<close>

text \<open>
  \<open>_recall_global_pages\<close> and the releases of the page allocator keep \<open>page_inv\<close>, never evict a
  page of the current selection, and, when the selection fits the reserve and the table is the
  authority (\<open>_lut_truth\<close>), make every missing page resident in all layers at once.
\<close>

subsection \<open>Single allocation steps\<close>

lemma page_step:
  assumes "page_inv e" "sizes e' = sizes e" "page_slots e'"
    and "host_mirror e' = host_mirror e" "reserve_buf e' = reserve_buf e"
    and "\<And>l c. resident e' l c \<Longrightarrow> chunk_cell_lut e' l c = chunk_cell_lut e l c"
    and "\<And>l c. resident e' l c \<Longrightarrow> od_get (g_page_to_block e') (c div 64) = od_get (g_page_to_block e) (c div 64)"
  shows "page_inv e'"
  using assms by (intro page.inv_shrink [OF assms(1,2,3)]) (simp_all add: page_owner_def)

lemma resident_page_mapped:
  "page_inv e \<Longrightarrow> resident e l c \<Longrightarrow> od_get (g_page_to_block e) (c div 64) \<noteq> None"
  by (auto simp: path_inv_def owned_def page_owner_def)

text \<open>A page gets a block that was free, fresh, or taken from a victim.\<close>

definition set_page :: "int \<Rightarrow> int \<Rightarrow> engine \<Rightarrow> engine" where
  "set_page pg blk e = e\<lparr>g_page_to_block := od_set pg blk (g_page_to_block e)\<rparr>"

lemma set_page_fields [engine_simps]:
  "sizes (set_page pg blk e) = sizes e" "host_mirror (set_page pg blk e) = host_mirror e"
  "reserve_buf (set_page pg blk e) = reserve_buf e" "chunk_cell_lut (set_page pg blk e) = chunk_cell_lut e"
  "g_page_to_block (set_page pg blk e) = od_set pg blk (g_page_to_block e)"
  "g_next_block (set_page pg blk e) = g_next_block e" "g_free_blocks (set_page pg blk e) = g_free_blocks e"
  "lut_truth (set_page pg blk e) = lut_truth e" "g_full (set_page pg blk e) = g_full e"
  by (simp_all add: set_page_def sizes_def reserve_buf_def)

text \<open>\<open>e'\<close> is \<open>e\<close> with one more page placed, and pages of \<open>prot\<close> undisturbed.\<close>

definition placed :: "int list \<Rightarrow> int \<Rightarrow> int \<Rightarrow> engine \<Rightarrow> engine \<Rightarrow> bool" where
  "placed prot pg blk e e' \<longleftrightarrow> page_inv e' \<and> sizes e' = sizes e \<and> host_mirror e' = host_mirror e
     \<and> reserve_buf e' = reserve_buf e \<and> lut_truth e' = lut_truth e \<and> g_full e' = g_full e
     \<and> od_get (g_page_to_block e') pg = Some blk
     \<and> (\<forall>q \<in> set prot. q \<noteq> pg \<longrightarrow> od_get (g_page_to_block e') q = od_get (g_page_to_block e) q)
     \<and> (\<forall>l c. 0 \<le> c \<and> c < n_logical_pages e * 64 \<longrightarrow> c div 64 \<in> set prot \<longrightarrow>
          chunk_cell_lut e' l c = chunk_cell_lut e l c)"

lemma placed_same_lut:
  assumes inv: "page_inv e" and new: "od_get (g_page_to_block e) pg = None"
    and sl: "page_slots (set_page pg blk e1)"
    and e1: "sizes e1 = sizes e" "host_mirror e1 = host_mirror e" "reserve_buf e1 = reserve_buf e"
      "chunk_cell_lut e1 = chunk_cell_lut e" "g_page_to_block e1 = g_page_to_block e" "lut_truth e1 = lut_truth e" "g_full e1 = g_full e"
  shows "placed prot pg blk e (set_page pg blk e1)"
proof -
  have res: "resident (set_page pg blk e1) l c \<Longrightarrow> resident e l c" for l c
    using same_sizes(2,5) [of "set_page pg blk e1" e] e1 by (simp add: resident_def engine_simps)
  have "page_inv (set_page pg blk e1)"
    by (rule page_step [OF inv _ sl])
      (use e1 new res resident_page_mapped [OF inv] in \<open>fastforce simp: engine_simps od_simps\<close>)+
  then show ?thesis by (simp add: placed_def engine_simps od_simps e1)
qed

lemma nonneg_keys_set: "list_all P (od_keys d) \<Longrightarrow> P k \<Longrightarrow> list_all P (od_keys (od_set k v d))"
  by (simp add: od_keys_set)

lemma nonneg_keys_pop: "list_all P (od_keys d) \<Longrightarrow> list_all P (od_keys (od_pop k d))"
  by (auto simp: od_keys_pop list_all_iff)

lemma page_slotsD:
  assumes "page_slots e"
  shows "slots_ok (g_page_to_block e) (g_next_block e) (g_free_blocks e) (recall_cell_capacity e div 64)"
    and "od_get (g_page_to_block e) pg = Some blk \<Longrightarrow> 0 \<le> pg" "list_all (\<lambda>pg. 0 \<le> pg) (od_keys (g_page_to_block e))"
  using assms by (auto simp: page_slots_def list_all_iff dest!: map_of_SomeD)

lemma placed_free:
  assumes "page_inv e" "0 \<le> pg" "od_get (g_page_to_block e) pg = None" "g_free_blocks e \<noteq> []"
  shows "placed prot pg (last (g_free_blocks e)) e
    (set_page pg (last (g_free_blocks e)) (e\<lparr>g_free_blocks := butlast (g_free_blocks e)\<rparr>))"
proof (rule placed_same_lut [OF assms(1,3)])
  have s: "page_slots e" using assms(1) by (simp add: path_inv_def)
  from slots_from_free [OF page_slotsD(1) [OF s] _ assms(4), of pg]
    nonneg_keys_set [OF page_slotsD(3) [OF s] assms(2)] assms(3)
  show "page_slots (set_page pg (last (g_free_blocks e)) (e\<lparr>g_free_blocks := butlast (g_free_blocks e)\<rparr>))"
    by (simp add: page_slots_def set_page_def od_mem_get size_defs)
qed (simp_all add: sizes_def reserve_buf_def)

lemma placed_mark:
  assumes "page_inv e" "0 \<le> pg" "od_get (g_page_to_block e) pg = None"
    and "g_next_block e < recall_cell_capacity e div 64"
  shows "placed prot pg (g_next_block e) e
    (set_page pg (g_next_block e) (e\<lparr>g_next_block := g_next_block e + 1\<rparr>))"
proof (rule placed_same_lut [OF assms(1,3)])
  have s: "page_slots e" using assms(1) by (simp add: path_inv_def)
  from slots_from_mark [OF page_slotsD(1) [OF s] _ assms(4), of pg]
    nonneg_keys_set [OF page_slotsD(3) [OF s] assms(2)] assms(3)
  show "page_slots (set_page pg (g_next_block e) (e\<lparr>g_next_block := g_next_block e + 1\<rparr>))"
    by (simp add: page_slots_def set_page_def od_mem_get size_defs)
qed (simp_all add: sizes_def reserve_buf_def)

lemma clear_page_other:
  assumes "0 \<le> c" "c < n_logical_pages e * 64" "0 \<le> v"
  shows "c \<in> set (map (clamp_col e) (page_chunks v)) \<longleftrightarrow> c div 64 = v"
proof -
  have "clamp_col e x = c \<longleftrightarrow> x = c" if "0 \<le> x" for x
    using that assms by (auto simp: clamp_col_def clamp_def lut_cols_def)
  moreover have "\<forall>x \<in> set (page_chunks v). 0 \<le> x" using assms(3) by (simp add: page_chunks_def)
  ultimately have "c \<in> set (map (clamp_col e) (page_chunks v)) \<longleftrightarrow> c \<in> set (page_chunks v)"
    unfolding set_map image_iff by metis
  also have "\<dots> \<longleftrightarrow> c div 64 = v" by (auto simp: page_chunks_def)
  finally show ?thesis .
qed


lemma placed_evict:
  assumes inv: "page_inv e" and pg: "0 \<le> pg" and new: "od_get (g_page_to_block e) pg = None"
    and ev: "evict_one_page prot e = (Some blk, e1)"
  shows "placed prot pg blk e (set_page pg blk e1)"
proof -
  from ev obtain v where v: "first_unprotected prot (g_page_to_block e) = Some (v, blk)"
    and e1: "e1 = (lut_clear_all (map (clamp_col e) (page_chunks v)) e)
       \<lparr>g_page_to_block := od_pop v (g_page_to_block e), n_evictions := n_evictions e + 1\<rparr>"
    by (auto simp: evict_one_page_def split: option.splits)
  have s: "page_slots e" using inv by (simp add: path_inv_def)
  have vb: "od_get (g_page_to_block e) v = Some blk" "v \<notin> set prot"
    using first_unprotected_Some [OF v] slots_okD(1) [OF page_slotsD(1) [OF s]]
    by (auto simp: map_of_eq_Some_iff)
  let ?e = "set_page pg blk e1"
  have sz: "sizes ?e = sizes e" by (simp add: engine_simps e1) (simp add: lut_clear_all_def sizes_def)
  have lut: "chunk_cell_lut ?e l c = (if c div 64 = v then - 1 else chunk_cell_lut e l c)"
    if "0 \<le> c" "c < n_logical_pages e * 64" for l c
    using clear_page_other [OF that page_slotsD(2) [OF s vb(1)]]
    by (auto simp: engine_simps e1 fill_def simp del: set_map)
  have res: "resident e l c \<and> c div 64 \<noteq> v \<and> c div 64 \<noteq> pg" if "resident ?e l c" for l c
  proof -
    have c: "0 \<le> c" "c < n_logical_pages e * 64"
      using that same_sizes(2) [OF sz] by (auto simp: resident_def)
    with that lut [OF c, of l] same_sizes(5) [OF sz] have "resident e l c" "c div 64 \<noteq> v"
      by (auto simp: resident_def split: if_splits)
    with resident_page_mapped [OF inv, of l c] new show ?thesis by auto
  qed
  have same: "host_mirror ?e = host_mirror e" "reserve_buf ?e = reserve_buf e" "lut_truth ?e = lut_truth e"
    "g_full ?e = g_full e"
    by (simp_all add: engine_simps e1) (simp_all add: lut_clear_all_def reserve_buf_def)
  have p2b: "g_page_to_block ?e = od_set pg blk (od_pop v (g_page_to_block e))"
    by (simp add: engine_simps e1)
  have "page_slots ?e"
    using slots_evict [OF page_slotsD(1) [OF s] vb(1), of pg] new same_sizes(9) [OF sz]
      nonneg_keys_set [OF nonneg_keys_pop [OF page_slotsD(3) [OF s]] pg]
    unfolding page_slots_def p2b
    by (simp add: od_mem_get engine_simps e1) (simp add: lut_clear_all_def)
  then have "page_inv ?e"
  proof (rule page_step [OF inv sz])
    fix l c assume "resident ?e l c"
    with res have r: "resident e l c" "c div 64 \<noteq> v" "c div 64 \<noteq> pg" by blast+
    then have c: "0 \<le> c" "c < n_logical_pages e * 64" by (simp_all add: resident_def)
    from lut [OF this, of l] r(2) show "chunk_cell_lut ?e l c = chunk_cell_lut e l c" by simp
    show "od_get (g_page_to_block ?e) (c div 64) = od_get (g_page_to_block e) (c div 64)"
      using r(2,3) by (simp add: p2b od_simps)
  qed (simp_all only: same)
  moreover have "chunk_cell_lut ?e l c = chunk_cell_lut e l c"
    if "0 \<le> c" "c < n_logical_pages e * 64" "c div 64 \<in> set prot" for l c
    using lut [OF that(1,2), of l] that(3) vb(2) by auto
  moreover have "\<forall>q \<in> set prot. q \<noteq> pg \<longrightarrow> od_get (g_page_to_block ?e) q = od_get (g_page_to_block e) q"
    using vb(2) by (auto simp: p2b od_simps)
  moreover have "od_get (g_page_to_block ?e) pg = Some blk" by (simp add: p2b od_simps)
  ultimately show ?thesis unfolding placed_def using sz same by blast
qed



subsection \<open>The placement loop\<close>

definition emit :: "int \<times> int \<Rightarrow> exn + (int \<times> int) list \<Rightarrow> exn + (int \<times> int) list" where
  "emit p r = (case r of Inl x \<Rightarrow> Inl x | Inr ps \<Rightarrow> Inr (p # ps))"

text \<open>No block is left for a page: all are mapped to pages of the selection.\<close>

definition exhausted :: "int list \<Rightarrow> engine \<Rightarrow> bool" where
  "exhausted prot e \<longleftrightarrow> g_free_blocks e = [] \<and> recall_cell_capacity e div 64 \<le> g_next_block e
     \<and> first_unprotected prot (g_page_to_block e) = None"

lemma p_place_Cons:
  assumes "page_inv e" "0 \<le> pg" "p_place prot (pg # pgs) e = (r, e')"
  obtains
    (mapped) blk r' where "od_get (g_page_to_block e) pg = Some blk"
      "p_place prot pgs (e\<lparr>g_page_to_block := od_move_to_end pg (g_page_to_block e)\<rparr>) = (r', e')"
      "r = (if lut_truth e then emit (pg, blk) r' else r')"
  | (place) blk e1 r' where "od_get (g_page_to_block e) pg = None" "placed prot pg blk e e1"
      "p_place prot pgs e1 = (r', e')" "r = emit (pg, blk) r'"
  | (full) "od_get (g_page_to_block e) pg = None" "exhausted prot e"
      "g_full e = None \<and> r = Inl AttributeError \<and> e' = e
       \<or> g_full e \<noteq> None \<and> r = Inr [] \<and> e' = e\<lparr>g_full := Some True\<rparr>"
proof (cases "od_get (g_page_to_block e) pg")
  case (Some blk)
  let ?e1 = "e\<lparr>g_page_to_block := od_move_to_end pg (g_page_to_block e)\<rparr>"
  obtain r' e'' where t: "p_place prot pgs ?e1 = (r', e'')" by fastforce
  have "(r, e') = (if lut_truth e then emit (pg, blk) r' else r', e'')"
    using assms(3) Some t by (auto simp: emit_def Let_def split: if_splits sum.splits)
  with t Some show ?thesis by (intro mapped) auto
next
  case None
  have step: thesis if p: "placed prot pg blk e (set_page pg blk e1)"
    and eq: "p_place prot (pg # pgs) e = (case p_place prot pgs (set_page pg blk e1) of
        (Inl x, e'') \<Rightarrow> (Inl x, e'') | (Inr ps, e'') \<Rightarrow> (Inr ((pg, blk) # ps), e''))" for blk e1
  proof -
    obtain r' e'' where t: "p_place prot pgs (set_page pg blk e1) = (r', e'')" by fastforce
    have "(r, e') = (emit (pg, blk) r', e'')"
      using assms(3) eq t by (simp add: emit_def split: sum.splits)
    with t p None show ?thesis by (intro place) auto
  qed
  show ?thesis
  proof (cases "g_free_blocks e = []")
    case False
    show ?thesis
      by (rule step [OF placed_free [OF assms(1,2) None False]]) (simp add: None False set_page_def)
  next
    case free: True
    show ?thesis
    proof (cases "g_next_block e < recall_cell_capacity e div 64")
      case True
      show ?thesis
        by (rule step [OF placed_mark [OF assms(1,2) None True]]) (simp add: None free True set_page_def)
    next
      case mark: False
      obtain b e1 where ev: "evict_one_page prot e = (b, e1)" by fastforce
      show ?thesis
      proof (cases b)
        case (Some blk)
        show ?thesis
          by (rule step [OF placed_evict [OF assms(1,2) None ev [unfolded Some]]])
            (simp add: None free mark ev Some set_page_def)
      next
        case b: None
        from ev b have fu: "first_unprotected prot (g_page_to_block e) = None" "e1 = e"
          by (auto simp: evict_one_page_def split: option.splits)
        show ?thesis
          using assms(3) mark by (intro full) (auto simp: None free ev b fu exhausted_def split: option.splits)
      qed
    qed
  qed
qed

definition kept :: "int list \<Rightarrow> engine \<Rightarrow> engine \<Rightarrow> bool" where
  "kept prot e e' \<longleftrightarrow> page_inv e' \<and> sizes e' = sizes e \<and> host_mirror e' = host_mirror e
     \<and> reserve_buf e' = reserve_buf e \<and> lut_truth e' = lut_truth e
     \<and> (\<forall>q \<in> set prot. od_get (g_page_to_block e) q \<noteq> None \<longrightarrow>
          od_get (g_page_to_block e') q = od_get (g_page_to_block e) q)
     \<and> (\<forall>l c. 0 \<le> c \<and> c < n_logical_pages e * 64 \<longrightarrow> c div 64 \<in> set prot \<longrightarrow>
          chunk_cell_lut e' l c = chunk_cell_lut e l c)"

lemma kept_refl: "page_inv e \<Longrightarrow> kept prot e e"
  by (simp add: kept_def)

lemma kept_trans:
  assumes "kept prot e e1" "kept prot e1 e2"
  shows "kept prot e e2"
  using assms same_sizes(2) [of e1 e] unfolding kept_def by simp

lemma placed_kept: "placed prot pg blk e e' \<Longrightarrow> od_get (g_page_to_block e) pg = None \<Longrightarrow> kept prot e e'"
  unfolding placed_def kept_def by fastforce

lemma kept_move:
  assumes "page_inv e"
  shows "kept prot e (e\<lparr>g_page_to_block := od_move_to_end pg (g_page_to_block e)\<rparr>)"
proof -
  let ?e = "e\<lparr>g_page_to_block := od_move_to_end pg (g_page_to_block e)\<rparr>"
  have s: "page_slots e" using assms by (simp add: path_inv_def)
  have sz: "sizes ?e = sizes e" "reserve_buf ?e = reserve_buf e" by (simp_all add: sizes_def reserve_buf_def)
  have keys: "set (od_keys (od_move_to_end pg (g_page_to_block e))) = set (od_keys (g_page_to_block e))"
    using map_of_SomeD [of "g_page_to_block e" pg]
    by (force simp: od_move_to_end_def od_pop_def split: option.split)
  have "page_slots ?e"
    using page_slotsD(1,3) [OF s] same_sizes(9) [OF sz(1)] keys by (simp add: page_slots_def list_all_iff)
  then have "page_inv ?e"
    by (rule page_step [OF assms sz(1)]) (simp_all add: sz od_simps)
  then show ?thesis by (simp add: kept_def sz od_simps)
qed

lemma kept_full: "page_inv e \<Longrightarrow> kept prot e (e\<lparr>g_full := b\<rparr>)"
proof -
  assume i: "page_inv e"
  have "page_inv (e\<lparr>g_full := b\<rparr>)"
    by (rule page.inv_irrelevant [OF i]) (simp_all add: alloc_state_def sizes_def reserve_buf_def)
  then show ?thesis by (simp add: kept_def sizes_def reserve_buf_def)
qed

lemma p_place_kept:
  assumes "page_inv e" "p_place prot pgs e = (r, e')" "\<forall>pg \<in> set pgs. 0 \<le> pg \<and> pg \<in> set prot"
  shows "kept prot e e'"
  using assms
proof (induction pgs arbitrary: e r)
  case Nil
  then show ?case by (simp add: kept_refl)
next
  case (Cons pg pgs)
  have pgs: "\<forall>pg \<in> set pgs. 0 \<le> pg \<and> pg \<in> set prot" "0 \<le> pg" using Cons.prems(3) by simp_all
  have go: "kept prot e e'" if "kept prot e e1" "p_place prot pgs e1 = (r', e')" for e1 r'
  proof (rule kept_trans [OF that(1)])
    have "page_inv e1" using that(1) unfolding kept_def by blast
    then show "kept prot e1 e'" by (rule Cons.IH [OF _ that(2) pgs(1)])
  qed
  from Cons.prems(1) pgs(2) Cons.prems(2) show ?case
  proof (cases rule: p_place_Cons)
    case (mapped blk r')
    show ?thesis by (rule go [OF kept_move [OF Cons.prems(1)] mapped(2)])
  next
    case (place blk e1 r')
    show ?thesis by (rule go [OF placed_kept [OF place(2,1)] place(3)])
  next
    case full
    with Cons.prems(1) show ?thesis by (auto intro: kept_refl kept_full)
  qed
qed

lemma p_place_pairs:
  assumes "page_inv e" "p_place prot pgs e = (Inr ps, e')"
    and "\<forall>pg \<in> set pgs. 0 \<le> pg \<and> pg \<in> set prot" "distinct pgs"
  shows "distinct (map fst ps) \<and> fst ` set ps \<subseteq> set pgs
     \<and> (\<forall>(pg, blk) \<in> set ps. od_get (g_page_to_block e') pg = Some blk)"
  using assms
proof (induction pgs arbitrary: e ps)
  case Nil
  then show ?case by simp
next
  case (Cons pg pgs)
  have pgs: "\<forall>pg \<in> set pgs. 0 \<le> pg \<and> pg \<in> set prot" "0 \<le> pg" "pg \<in> set prot"
    "distinct pgs" "pg \<notin> set pgs" using Cons.prems(3,4) by simp_all
  have go: ?case if k: "page_inv e1" "od_get (g_page_to_block e1) pg = Some blk"
    and t: "p_place prot pgs e1 = (r', e')" and r: "Inr ps = emit (pg, blk) r' \<or> Inr ps = r'" for e1 r' blk
  proof -
    have p: "od_get (g_page_to_block e') pg = Some blk"
      using p_place_kept [OF k(1) t pgs(1)] k(2) pgs(3) by (simp add: kept_def)
    from r obtain ps' where ps': "r' = Inr ps'" "ps = (pg, blk) # ps' \<or> ps = ps'"
      by (auto simp: emit_def split: sum.splits)
    from Cons.IH [OF k(1) t [unfolded ps'(1)] pgs(1,4)] ps'(2) pgs(5) p show ?thesis
      by (elim disjE) fastforce+
  qed
  from Cons.prems(1) pgs(2) Cons.prems(2) show ?case
  proof (cases rule: p_place_Cons)
    case (mapped blk r')
    have "page_inv (e\<lparr>g_page_to_block := od_move_to_end pg (g_page_to_block e)\<rparr>)"
      using kept_move [OF Cons.prems(1)] unfolding kept_def by blast
    from go [OF this _ mapped(2), of blk] mapped show ?thesis by (simp add: od_simps split: if_splits)
  next
    case (place blk e1 r')
    then show ?thesis by (intro go [OF _ _ place(3)]) (auto simp: placed_def)
  next
    case full
    then show ?thesis by auto
  qed
qed



subsection \<open>The recall\<close>

lemma expand_page_pairs:
  "set (expand_page (pg, blk)) = {(c, d). c div 64 = pg \<and> d = blk * 64 + c mod 64}"
proof -
  have "(c, d) \<in> set (expand_page (pg, blk)) \<longleftrightarrow> c div 64 = pg \<and> d = blk * 64 + c mod 64" for c d
  proof
    assume "(c, d) \<in> set (expand_page (pg, blk))"
    then obtain i where "i < 64" "c = pg * 64 + int i" "d = blk * 64 + int i"
      by (auto simp: expand_page_def page_chunks_def set_zip)
    then show "c div 64 = pg \<and> d = blk * 64 + c mod 64" by simp
  next
    assume a: "c div 64 = pg \<and> d = blk * 64 + c mod 64"
    define i where "i = nat (c mod 64)"
    have i: "i < 64" "int i = c mod 64" by (simp_all add: i_def)
    have "c = pg * 64 + int i" "d = blk * 64 + int i" using a i(2) by auto
    with i(1) show "(c, d) \<in> set (expand_page (pg, blk))"
      by (auto simp: expand_page_def page_chunks_def set_zip intro!: exI [of _ i])
  qed
  then show ?thesis by auto
qed

lemma distinct_expand_fst: "distinct (map fst (expand_page p))"
  by (simp add: expand_page_def page_chunks_def)

lemma distinct_expand_pages:
  assumes "distinct (map fst ps)"
  shows "distinct (map fst (concat (map expand_page ps)))"
  using assms
proof (induction ps)
  case (Cons p ps)
  have page: "c div 64 = fst q" if "c \<in> fst ` set (expand_page q)" for c q
    using that by (cases q) (auto simp: expand_page_pairs)
  have "fst ` set (expand_page p) \<inter> fst ` set (concat (map expand_page ps)) = {}"
  proof (rule ccontr)
    assume "\<not> ?thesis"
    then obtain c where c: "c \<in> fst ` set (expand_page p)" "c \<in> (\<Union>q \<in> set ps. fst ` set (expand_page q))"
      unfolding set_concat set_map image_Union image_image by blast
    from c(2) obtain q where q: "q \<in> set ps" "c \<in> fst ` set (expand_page q)" by (rule UN_E)
    from page [OF c(1)] page [OF q(2)] have "fst p = fst q" by simp
    with q(1) Cons.prems show False by auto
  qed
  moreover have "distinct (map fst (concat (map expand_page ps)))"
    by (rule Cons.IH) (use Cons.prems in simp)
  ultimately show ?case
    unfolding list.map concat.simps map_append distinct_append set_map
    by (intro conjI distinct_expand_fst)
qed simp

lemma lut_scatter_index:
  "lut_scatter_all ws (copy_index_pages np e) = copy_index_pages np (lut_scatter_all ws e)"
  by (simp add: copy_index_pages_def lut_scatter_all_def Let_def cong: option.case_cong if_cong)

text \<open>What a recall does once the pages have their blocks.\<close>

definition recall_pairs :: "engine \<Rightarrow> engine \<Rightarrow> (int \<times> int) list \<Rightarrow> (int \<times> int) list" where
  "recall_pairs e e1 new_pairs =
     (if own_reserve e
      then filter (\<lambda>(c, cell). chunk_cell_lut e1 0 (clamp_col e c) < decode_base e)
             (concat (map expand_page new_pairs))
      else concat (map expand_page new_pairs))"

lemma set_recall_pairs:
  "(c, d) \<in> set (recall_pairs e e1 np) \<longleftrightarrow>
     (\<exists>blk. (c div 64, blk) \<in> set np \<and> d = blk * 64 + c mod 64)
     \<and> (own_reserve e \<longrightarrow> chunk_cell_lut e1 0 (clamp_col e c) < decode_base e)"
  by (force simp: recall_pairs_def expand_page_pairs)

definition selected_pages :: "int list \<Rightarrow> int list" where
  "selected_pages locs = filter (\<lambda>pg. 0 \<le> pg) (unique (map (\<lambda>c. c div C4_PAGE_SIZE) locs))"

definition missing_pages :: "engine \<Rightarrow> int list \<Rightarrow> int list" where
  "missing_pages e locs =
     filter (\<lambda>pg. chunk_cell_lut e 0 (clamp_col e (pg * C4_PAGE_SIZE)) < 0) (selected_pages locs)"

lemma missing_pages_selected:
  "\<forall>pg \<in> set (missing_pages e locs). 0 \<le> pg \<and> pg \<in> set (selected_pages locs)"
  "distinct (missing_pages e locs)" "distinct (selected_pages locs)"
  by (auto simp: missing_pages_def selected_pages_def)

lemma recall_global_pages_cases:
  assumes inv: "page_inv e"
  obtains
    (nothing) "missing_pages e locs = []" "recall_global_pages locs e = (Inr 0, e)"
  | (raised) x e1 where "p_place (selected_pages locs) (missing_pages e locs) e = (Inl x, e1)"
      "recall_global_pages locs e = (Inl x, e1)"
  | (recalled) np e1 n e2 where "p_place (selected_pages locs) (missing_pages e locs) e = (Inr np, e1)"
      "recall_global_pages locs e = (Inr n, e2)" "n = int (length (recall_pairs e e1 np))"
      "e2 = e1 \<and> recall_pairs e e1 np = [] \<or> e2 = install (recall_pairs e e1 np) e1
       \<or> e2 = copy_index_pages np (install (recall_pairs e e1 np) e1)"
proof (cases "missing_pages e locs = []")
  case True
  show ?thesis
    by (rule nothing) (use True in \<open>simp_all add: recall_global_pages_def missing_pages_def selected_pages_def Let_def\<close>)
next
  case False
  have ne: "locs \<noteq> []" "selected_pages locs \<noteq> []"
    using False by (auto simp: missing_pages_def selected_pages_def simp del: filter_filter)
  obtain r e1 where p: "p_place (selected_pages locs) (missing_pages e locs) e = (r, e1)" by fastforce
  from p_place_kept [OF inv p missing_pages_selected(1)] have sz: "sizes e1 = sizes e" by (simp add: kept_def)
  note unf = recall_global_pages_def selected_pages_def [symmetric] missing_pages_def [symmetric] Let_def p
  show ?thesis
  proof (cases r)
    case (Inl x)
    have "recall_global_pages locs e = (Inl x, e1)"
      unfolding unf Inl using ne False by simp
    with p Inl show ?thesis by (intro raised) auto
  next
    case (Inr np)
    let ?ps = "recall_pairs e e1 np"
    have np: "np = [] \<Longrightarrow> ?ps = []" by (simp add: recall_pairs_def)
    have eq: "recall_global_pages locs e = (if ?ps = [] then (Inr 0, e1)
        else (Inr (int (length ?ps)), if index_k_offload e then copy_index_pages np (install ?ps e1) else install ?ps e1))"
      unfolding unf Inr recall_pairs_def [symmetric] prod.case sum.case
        install_def [of _ e1] same_sizes(12) [OF sz]
      using ne False np by (simp add: lut_scatter_index)
    define e2 where "e2 = (if ?ps = [] then e1
        else if index_k_offload e then copy_index_pages np (install ?ps e1) else install ?ps e1)"
    show ?thesis
    proof (rule recalled [of np e1 "int (length ?ps)" e2])
      show "p_place (selected_pages locs) (missing_pages e locs) e = (Inr np, e1)" using p Inr by simp
      show "recall_global_pages locs e = (Inr (int (length ?ps)), e2)" unfolding eq e2_def by simp
    qed (simp_all add: e2_def)
  qed
qed

lemma recall_install:
  assumes inv: "page_inv e" and p: "p_place (selected_pages locs) (missing_pages e locs) e = (Inr np, e1)"
  shows "page_inv e1" "sizes e1 = sizes e" "distinct (map fst (recall_pairs e e1 np))"
    and "page_inv (install (recall_pairs e e1 np) e1)"
    and "\<And>c d l. (c, d) \<in> set (recall_pairs e e1 np) \<Longrightarrow> 0 \<le> c \<and> page_owner e1 l c = Some d"
proof -
  note k = p_place_kept [OF inv p missing_pages_selected(1)]
  note ps = p_place_pairs [OF inv p missing_pages_selected(1,2)]
  show i: "page_inv e1" "sizes e1 = sizes e" using k by (simp_all add: kept_def)
  show d: "distinct (map fst (recall_pairs e e1 np))"
    using distinct_expand_pages ps by (auto simp: recall_pairs_def distinct_map_filter)
  show own: "0 \<le> c \<and> page_owner e1 l c = Some d" if "(c, d) \<in> set (recall_pairs e e1 np)" for c d l
  proof -
    from that obtain blk where b: "(c div 64, blk) \<in> set np" "d = blk * 64 + c mod 64"
      by (auto simp: set_recall_pairs)
    then have "c div 64 \<in> set (missing_pages e locs)" "od_get (g_page_to_block e1) (c div 64) = Some blk"
      using ps by (metis fst_conv image_eqI subsetD, blast)
    with missing_pages_selected(1) have "0 \<le> c div 64" by blast
    with \<open>od_get _ _ = Some blk\<close> b(2) show "0 \<le> c \<and> page_owner e1 l c = Some d"
      by (simp add: page_owner_def)
  qed
  show "page_inv (install (recall_pairs e e1 np) e1)"
    by (rule page.inv_install [OF i(1) d own])
qed

lemma recall_global_pages_keeps:
  assumes "page_inv e"
  shows "page_inv (snd (recall_global_pages locs e))"
  using assms
proof (cases rule: recall_global_pages_cases [where locs = locs])
  case nothing
  with assms show ?thesis by simp
next
  case (raised x e1)
  with p_place_kept [OF assms raised(1) missing_pages_selected(1)] show ?thesis by (simp add: kept_def)
next
  case (recalled np e1 n e2)
  from recall_install(1,4) [OF assms recalled(1)] recalled(2,4) show ?thesis
    by (auto intro: page.inv_index_pages)
qed


text \<open>A selection that fits the reserve never exhausts it.\<close>

lemma not_exhausted:
  assumes "page_inv e" "length prot \<le> nat (recall_cell_capacity e div 64)"
    and "pg \<in> set prot" "od_get (g_page_to_block e) pg = None"
  shows "\<not> exhausted prot e"
proof
  assume ex: "exhausted prot e"
  let ?d = "g_page_to_block e"
  have s: "slots_ok ?d (g_next_block e) [] (recall_cell_capacity e div 64)"
    using page_slotsD(1) [of e] assms(1) ex by (simp add: path_inv_def exhausted_def)
  have keys: "set (od_keys ?d) \<subseteq> set prot" using ex by (simp add: exhausted_def first_unprotected_None)
  moreover have "pg \<notin> set (od_keys ?d)" using assms(4) by (simp add: map_of_eq_None_iff)
  ultimately have "insert pg (set (od_keys ?d)) \<subseteq> set prot" "pg \<notin> set (od_keys ?d)" using assms(3) by auto
  from card_mono [OF finite_set this(1)] this(2) have "Suc (card (set (od_keys ?d))) \<le> card (set prot)" by simp
  also have "\<dots> \<le> length prot" by (rule card_length)
  also have "card (set (od_keys ?d)) = length ?d"
    using distinct_card [OF slots_okD(1) [OF s]] by simp
  finally have "length ?d < nat (recall_cell_capacity e div 64)" using assms(2) by simp
  moreover have "length ?d = nat (recall_cell_capacity e div 64)"
    by (rule slots_full_keys [OF s]) (use ex slots_okD(7) [OF s] in \<open>simp add: exhausted_def\<close>)
  ultimately show False by simp
qed

lemma p_place_total:
  assumes "page_inv e" "lut_truth e" "length prot \<le> nat (recall_cell_capacity e div 64)"
    and "\<forall>pg \<in> set pgs. 0 \<le> pg \<and> pg \<in> set prot"
  shows "\<exists>ps e'. p_place prot pgs e = (Inr ps, e') \<and> map fst ps = pgs"
  using assms
proof (induction pgs arbitrary: e)
  case (Cons pg pgs)
  have pgs: "\<forall>pg \<in> set pgs. 0 \<le> pg \<and> pg \<in> set prot" "0 \<le> pg" "pg \<in> set prot"
    using Cons.prems(4) by simp_all
  obtain r e' where p: "p_place prot (pg # pgs) e = (r, e')" by fastforce
  have go: ?case if k: "kept prot e e1" and t: "p_place prot pgs e1 = (r', e')" and r: "r = emit (pg, blk) r'"
    for e1 r' blk
  proof -
    have "page_inv e1" "lut_truth e1" "recall_cell_capacity e1 = recall_cell_capacity e"
      using k Cons.prems(2) same_sizes(9) [of e1 e] by (simp_all add: kept_def)
    from Cons.IH [OF this(1,2) _ pgs(1)] this(3) Cons.prems(3) t obtain ps where "r' = Inr ps" "map fst ps = pgs"
      by auto
    with p r show ?thesis by (intro exI [of _ "(pg, blk) # ps"] exI [of _ e']) (simp add: emit_def)
  qed
  from Cons.prems(1) pgs(2) p show ?case
  proof (cases rule: p_place_Cons)
    case (mapped blk r')
    with Cons.prems(2) show ?thesis by (intro go [OF kept_move [OF Cons.prems(1)] mapped(2)]) simp
  next
    case (place blk e1 r')
    show ?thesis by (rule go [OF placed_kept [OF place(2,1)] place(3,4)])
  next
    case full
    with not_exhausted [OF Cons.prems(1,3) pgs(3)] show ?thesis by blast
  qed
qed simp

text \<open>Every missing page of the selection becomes resident, in all layers.\<close>

lemma recall_complete:
  assumes inv: "page_inv e" and lt: "lut_truth e"
    and fit: "length (selected_pages locs) \<le> nat (recall_cell_capacity e div 64)"
    and r: "recall_global_pages locs e = (res, e2)"
  shows "\<exists>n. res = Inr n" "sizes e2 = sizes e" "page_inv e2"
    and "c div 64 \<in> set (missing_pages e locs) \<Longrightarrow> c < n_logical_pages e * 64 \<Longrightarrow>
       (own_reserve e \<longrightarrow> chunk_cell_lut e 0 c < decode_base e) \<Longrightarrow> resident e2 l c"
proof -
  from p_place_total [OF inv lt fit missing_pages_selected(1)]
  obtain np e1 where p: "p_place (selected_pages locs) (missing_pages e locs) e = (Inr np, e1)"
    and np: "map fst np = missing_pages e locs" by blast
  note ri = recall_install [OF inv p]
  let ?ps = "recall_pairs e e1 np"
  from inv have e2: "(\<exists>n. res = Inr n) \<and> (e2 = e1 \<and> ?ps = [] \<or> e2 = install ?ps e1
      \<or> e2 = copy_index_pages np (install ?ps e1) \<or> e2 = e \<and> missing_pages e locs = [])"
    by (cases rule: recall_global_pages_cases [where locs = locs]) (use r p in auto)
  then show "\<exists>n. res = Inr n" by blast
  have idx: "sizes (copy_index_pages np e') = sizes e'" "chunk_cell_lut (copy_index_pages np e') = chunk_cell_lut e'" for e'
    by (simp_all add: copy_index_pages_def sizes_def)
  from e2 ri(2) show sz: "sizes e2 = sizes e" by (auto simp: idx engine_simps)
  from recall_global_pages_keeps [OF inv, of locs] r show i2: "page_inv e2" by simp
  show "resident e2 l c" if c: "c div 64 \<in> set (missing_pages e locs)" "c < n_logical_pages e * 64"
    "own_reserve e \<longrightarrow> chunk_cell_lut e 0 c < decode_base e"
  proof -
    have c0: "0 \<le> c" "c div 64 \<in> set (selected_pages locs)"
      using missing_pages_selected(1) c(1) by force+
    have "clamp_col e c = c" using c0(1) c(2) by (simp add: clamp_col_def lut_cols_def)
    moreover have "chunk_cell_lut e1 0 c = chunk_cell_lut e 0 c"
      using p_place_kept [OF inv p missing_pages_selected(1)] c0 c(2) by (simp add: kept_def)
    moreover from c(1) np obtain blk where "(c div 64, blk) \<in> set np" by (metis in_set_conv_nth nth_map length_map prod.collapse nth_mem)
    ultimately have m: "(c, blk * 64 + c mod 64) \<in> set ?ps" using c(3) by (auto simp: set_recall_pairs)
    note sz1 = same_sizes [OF ri(2)]
    have n: "\<forall>p \<in> set ?ps. 0 \<le> fst p" using ri(5) by (auto simp: split_paired_all)
    have lut: "chunk_cell_lut (install ?ps e1) l c = blk * 64 + c mod 64"
      using install_lut [OF ri(3) n c0(1), of e1 l] c(2) m ri(3) by (simp add: sz1)
    have "page_slots e1" using ri(1) by (simp add: path_inv_def)
    from page.owner_range [OF this, of l c] ri(5) [OF m]
    have "0 \<le> blk * 64 + c mod 64" "blk * 64 + c mod 64 < decode_base e" by (auto simp: sz1)
    moreover have "chunk_cell_lut e2 l c = blk * 64 + c mod 64"
      using e2 lut m c(1) by (auto simp: idx)
    ultimately show ?thesis using c0(1) c(2) same_sizes(2,5) [OF sz] by (simp add: resident_def)
  qed
qed



subsection \<open>Releases\<close>

text \<open>Pages are popped and the table forgets their chunks.\<close>

lemma page_release:
  assumes inv: "page_inv e" and pop: "pop_keys pages (g_page_to_block e, g_free_blocks e) = (p2b, free)"
    and e1: "sizes e1 = sizes e" "host_mirror e1 = host_mirror e" "reserve_buf e1 = reserve_buf e"
      "chunk_cell_lut e1 = chunk_cell_lut e" "g_page_to_block e1 = p2b" "g_free_blocks e1 = free"
      "g_next_block e1 = g_next_block e"
  shows "page_inv (lut_clear_all (filter (col_ok e) (concat (map page_chunks pages))) e1)"
proof -
  let ?cols = "filter (col_ok e) (concat (map page_chunks pages))"
  let ?e = "lut_clear_all ?cols e1"
  have sz: "sizes ?e = sizes e" by (simp add: engine_simps e1)
  have books: "g_page_to_block ?e = p2b" "g_free_blocks ?e = free" "g_next_block ?e = g_next_block e"
    by (simp_all add: lut_clear_all_def e1)
  have s: "page_slots e" using inv by (simp add: path_inv_def)
  have keys: "list_all (\<lambda>pg. 0 \<le> pg) (od_keys p2b)"
  proof (unfold list_all_iff, rule ballI)
    fix pg assume "pg \<in> set (od_keys p2b)"
    then obtain v where "od_get p2b pg = Some v" by (metis list.set_map map_of_eq_None_iff not_None_eq)
    then show "0 \<le> pg" using pop_keys_get [OF pop, of pg] page_slotsD(2) [OF s] by (auto split: if_splits)
  qed
  have "page_slots ?e"
    using slots_pop_keys [OF page_slotsD(1) [OF s] pop] keys same_sizes(9) [OF sz] books
    by (simp add: page_slots_def)
  then show ?thesis
  proof (rule page_step [OF inv sz])
    fix l c assume r: "resident ?e l c"
    have c: "0 \<le> c" "c < n_logical_pages e * 64"
      using r same_sizes(2) [OF sz] by (auto simp: resident_def)
    have lut: "chunk_cell_lut ?e l c = fill ?cols (- 1) (chunk_cell_lut e l) c" by (simp add: engine_simps e1)
    have pos: "0 \<le> chunk_cell_lut ?e l c" using r by (simp only: resident_def)
    from this [unfolded lut] show "chunk_cell_lut ?e l c = chunk_cell_lut e l c"
      unfolding lut by (rule page.fill_resident)
    have "c div 64 \<notin> set pages"
    proof
      assume "c div 64 \<in> set pages"
      with c have "c \<in> set ?cols"
        by (auto simp: page_chunks_def col_ok_def lut_cols_def intro!: bexI [of _ "c div 64"])
      with pos show False unfolding lut by (simp only: fill_in)
    qed
    then show "od_get (g_page_to_block ?e) (c div 64) = od_get (g_page_to_block e) (c div 64)"
      unfolding books using pop_keys_get [OF pop] by simp
  qed (simp_all add: engine_simps e1)
qed

lemma release_req_pages_keeps:
  assumes "page_inv e" "page_recall e"
  shows "page_inv (snd (release_req_pool_locs locs e))"
proof (cases "filter (col_ok e) (unique locs) = []")
  case True
  with assms show ?thesis by (simp add: release_req_pool_locs_def)
next
  case False
  define to_free where "to_free = filter (\<lambda>pg. od_mem pg (g_page_to_block e))
      (unique (map (\<lambda>c. c div C4_PAGE_SIZE) (filter (col_ok e) (unique locs))))"
  obtain p2b free where pop: "pop_keys to_free (g_page_to_block e, g_free_blocks e) = (p2b, free)" by fastforce
  have "snd (release_req_pool_locs locs e)
      = lut_clear_all (filter (col_ok e) (concat (map page_chunks to_free)))
          (e\<lparr>g_page_to_block := p2b, g_free_blocks := free\<rparr>)"
    using False assms(2) pop by (simp add: release_req_pool_locs_def Let_def to_free_def)
  then show ?thesis
    using page_release [OF assms(1) pop, of "e\<lparr>g_page_to_block := p2b, g_free_blocks := free\<rparr>"]
    by (simp add: sizes_def reserve_buf_def)
qed

lemma release_owned_keeps:
  assumes "page_inv e"
  shows "page_inv (snd (release_owned_pages ri e))"
proof (cases "req_owned_pages e ri")
  case None
  with assms show ?thesis by (simp add: release_owned_pages_def)
next
  case (Some pages)
  obtain p2b free where pop: "pop_keys pages (g_page_to_block e, g_free_blocks e) = (p2b, free)" by fastforce
  let ?o = "(req_owned_pages e)(ri := None)"
  have o: "page_inv (e\<lparr>req_owned_pages := ?o\<rparr>)"
    by (rule page.inv_irrelevant [OF assms]) (simp_all add: alloc_state_def sizes_def reserve_buf_def)
  show ?thesis
    using page_release [OF assms pop, of "e\<lparr>req_owned_pages := ?o, g_page_to_block := p2b, g_free_blocks := free\<rparr>"]
      o assms Some pop
    by (simp add: release_owned_pages_def Let_def sizes_def reserve_buf_def)
qed

lemma record_owned_keeps: "page_inv e \<Longrightarrow> page_inv (record_owned_pages ri locs e)"
  by (erule page.inv_irrelevant)
    (simp_all add: record_owned_pages_def alloc_state_def sizes_def reserve_buf_def Let_def split: option.split)

lemma reset_keeps:
  assumes "cfg_ok e"
  shows "page_inv (reset_recall_state e)"
proof -
  have sz: "sizes (reset_recall_state e) = sizes e" by (simp add: reset_recall_state_def sizes_def)
  have "0 \<le> recall_cell_capacity e" using decode_base_bounds [OF assms] by (simp add: recall_cell_capacity_def)
  then have "page_slots (reset_recall_state e)"
    using same_sizes(9) [OF sz] by (simp add: page_slots_def reset_recall_state_def)
  with assms same_sizes(11) [OF sz] show ?thesis
    by (simp add: path_inv_def owned_def coherent_def resident_def) (simp add: reset_recall_state_def)
qed

end
