(* ===== verification/SwapChunk.thy ===== *)
theory SwapChunk
  imports SwapOwner
begin

section \<open>Recall of single chunks, shared by all layers\<close>

text \<open>
  \<open>_recall_global\<close> and the releases of the chunk allocator keep \<open>chunk_inv\<close>. The loop at capacity
  takes the cells of a whole batch of victims out of the books and hands them out one by one, so
  the books only balance again at its end; in between they balance with the cells in hand
  counted as free.
\<close>

subsection \<open>Books with cells in hand\<close>

lemma slots_perm:
  assumes "slots_ok d nxt free cap" "set free' = set free" "distinct free' = distinct free"
  shows "slots_ok d nxt free' cap"
  using assms by (simp add: slots_ok_def)

lemma slots_from_hand:
  assumes "slots_ok d nxt (x # xs) cap" "\<not> od_mem k d"
  shows "slots_ok (od_set k x d) nxt xs cap"
proof -
  have "slots_ok d nxt (xs @ [x]) cap" by (rule slots_perm [OF assms(1)]) auto
  from slots_from_free [OF this assms(2)] show ?thesis by simp
qed

lemma pop_keys_chosen:
  assumes "distinct (map fst chosen)" "distinct (od_keys d)" "set chosen \<subseteq> set d"
  shows "pop_keys (map fst chosen) (d, free) = (fold od_pop (map fst chosen) d, free @ map snd chosen)"
  using assms
proof (induction chosen arbitrary: d free)
  case (Cons p ps)
  have g: "od_get d (fst p) = Some (snd p)"
    using Cons.prems by (simp add: map_of_eq_Some_iff)
  have "set ps \<subseteq> set (od_pop (fst p) d)"
  proof
    fix q assume q: "q \<in> set ps"
    then have "fst q \<in> set (map fst ps)" by simp
    then have "fst q \<noteq> fst p" using Cons.prems(1) by (metis distinct.simps(2) list.simps(9))
    moreover have "q \<in> set d" using q Cons.prems(3) by auto
    ultimately show "q \<in> set (od_pop (fst p) d)" by (simp add: od_pop_def)
  qed
  with Cons.IH [of "od_pop (fst p) d" "free @ [snd p]"] Cons.prems
  have "pop_keys (map fst ps) (od_pop (fst p) d, free @ [snd p])
      = (fold od_pop (map fst ps) (od_pop (fst p) d), (free @ [snd p]) @ map snd ps)" by simp
  moreover have "pop_key (fst p) (d, free) = (od_pop (fst p) d, free @ [snd p])"
    by (simp only: pop_key_def g prod.case option.case)
  ultimately show ?case by (simp add: pop_keys_def)
qed (simp add: pop_keys_def)

definition hand :: "int list option \<Rightarrow> int list" where
  "hand ev = (case ev of None \<Rightarrow> [] | Some xs \<Rightarrow> xs)"

definition with_hand :: "int list option \<Rightarrow> engine \<Rightarrow> engine" where
  "with_hand ev e = e\<lparr>g_free_cells := g_free_cells e @ hand ev\<rparr>"

lemma with_hand_fields [engine_simps]:
  "sizes (with_hand ev e) = sizes e" "host_mirror (with_hand ev e) = host_mirror e"
  "reserve_buf (with_hand ev e) = reserve_buf e" "chunk_cell_lut (with_hand ev e) = chunk_cell_lut e"
  "g_chunk_to_cell (with_hand ev e) = g_chunk_to_cell e" "g_next_cell (with_hand ev e) = g_next_cell e"
  "g_free_cells (with_hand ev e) = g_free_cells e @ hand ev"
  by (simp_all add: with_hand_def sizes_def reserve_buf_def)

lemma chunk_step:
  assumes "chunk_inv e" "sizes e' = sizes e" "chunk_slots e'"
    and "host_mirror e' = host_mirror e" "reserve_buf e' = reserve_buf e"
    and "\<And>l c. resident e' l c \<Longrightarrow> chunk_cell_lut e' l c = chunk_cell_lut e l c"
    and "\<And>l c. resident e' l c \<Longrightarrow> od_get (g_chunk_to_cell e') c = od_get (g_chunk_to_cell e) c"
  shows "chunk_inv e'"
  using assms by (intro chunk.inv_shrink [OF assms(1,2,3)]) (simp_all add: chunk_owner_def)

lemma resident_chunk_mapped:
  "chunk_inv e \<Longrightarrow> resident e l c \<Longrightarrow> od_get (g_chunk_to_cell e) c \<noteq> None"
  by (auto simp: path_inv_def owned_def chunk_owner_def)

definition kept_chunks :: "int list \<Rightarrow> engine \<Rightarrow> engine \<Rightarrow> bool" where
  "kept_chunks u e e' \<longleftrightarrow> sizes e' = sizes e \<and> host_mirror e' = host_mirror e
     \<and> reserve_buf e' = reserve_buf e
     \<and> (\<forall>c \<in> set u. od_get (g_chunk_to_cell e) c \<noteq> None \<longrightarrow>
          od_get (g_chunk_to_cell e') c = od_get (g_chunk_to_cell e) c)"

lemma kept_chunks_refl: "kept_chunks u e e"
  by (simp add: kept_chunks_def)

lemma kept_chunks_trans: "kept_chunks u e e1 \<Longrightarrow> kept_chunks u e1 e2 \<Longrightarrow> kept_chunks u e e2"
  by (simp add: kept_chunks_def)

definition set_chunk :: "int \<Rightarrow> int \<Rightarrow> engine \<Rightarrow> engine" where
  "set_chunk c cell e = e\<lparr>g_chunk_to_cell := od_set c cell (g_chunk_to_cell e)\<rparr>"

lemma set_chunk_fields [engine_simps]:
  "sizes (set_chunk c cell e) = sizes e" "host_mirror (set_chunk c cell e) = host_mirror e"
  "reserve_buf (set_chunk c cell e) = reserve_buf e" "chunk_cell_lut (set_chunk c cell e) = chunk_cell_lut e"
  "g_chunk_to_cell (set_chunk c cell e) = od_set c cell (g_chunk_to_cell e)"
  "g_next_cell (set_chunk c cell e) = g_next_cell e" "g_free_cells (set_chunk c cell e) = g_free_cells e"
  by (simp_all add: set_chunk_def sizes_def reserve_buf_def)

text \<open>The state of the loop: the chunks still to place, and what is known of the cells in hand.\<close>

definition placing :: "int list \<Rightarrow> int list option \<Rightarrow> int list \<Rightarrow> engine \<Rightarrow> bool" where
  "placing u ev cs e \<longleftrightarrow> chunk_inv (with_hand ev e) \<and> distinct cs
     \<and> (\<forall>c \<in> set cs. 0 \<le> c \<and> c \<in> set u \<and> od_get (g_chunk_to_cell e) c = None)
     \<and> (\<forall>xs. ev = Some xs \<longrightarrow> g_free_cells e = [] \<and> recall_cell_capacity e \<le> g_next_cell e
          \<and> length xs \<le> length cs \<and> (length xs < length cs \<longrightarrow> set (od_keys (g_chunk_to_cell e)) \<subseteq> set u))"

text \<open>One chunk placed: the same books up to the cell, which came from the free list, the mark or the hand.\<close>

lemma placing_step:
  assumes pl: "placing u ev (c # cs) e"
    and sl: "slots_ok (od_set c cell (g_chunk_to_cell e1)) (g_next_cell e1) (g_free_cells e1 @ hand ev')
        (recall_cell_capacity e)"
    and e1: "sizes e1 = sizes e" "host_mirror e1 = host_mirror e" "reserve_buf e1 = reserve_buf e"
    and gone: "\<And>x. od_get (g_chunk_to_cell e1) x = od_get (g_chunk_to_cell e) x
        \<or> x \<notin> set u \<and> od_get (g_chunk_to_cell e1) x = None
            \<and> (\<forall>l. 0 \<le> x \<and> x < n_logical_pages e * 64 \<longrightarrow> chunk_cell_lut e1 l x < 0)"
    and lut: "\<And>l x. 0 \<le> chunk_cell_lut e1 l x \<Longrightarrow> chunk_cell_lut e1 l x = chunk_cell_lut e l x"
    and ev': "\<And>xs. ev' = Some xs \<Longrightarrow> g_free_cells e1 = [] \<and> recall_cell_capacity e \<le> g_next_cell e1
          \<and> length xs \<le> length cs
          \<and> (length xs < length cs \<longrightarrow> set (od_keys (g_chunk_to_cell e1)) \<subseteq> set u)"
  shows "placing u ev' cs (set_chunk c cell e1)" "kept_chunks u e (set_chunk c cell e1)"
    and "od_get (g_chunk_to_cell (set_chunk c cell e1)) c = Some cell"
proof -
  have inv: "chunk_inv (with_hand ev e)" and new: "od_get (g_chunk_to_cell e) c = None" and cu: "c \<in> set u"
    using pl by (simp_all add: placing_def)
  let ?e = "with_hand ev' (set_chunk c cell e1)"
  have sz: "sizes ?e = sizes (with_hand ev e)" by (simp add: engine_simps e1)
  have capeq: "recall_cell_capacity ?e = recall_cell_capacity e"
    by (rule same_sizes(9)) (simp add: engine_simps e1)
  have res: "resident (with_hand ev e) l x \<and> x \<noteq> c \<and> od_get (g_chunk_to_cell e1) x = od_get (g_chunk_to_cell e) x"
    if r: "resident ?e l x" for l x
  proof -
    have x: "0 \<le> x" "x < n_logical_pages e * 64" "0 \<le> chunk_cell_lut e1 l x"
      using r same_sizes(2) [of ?e e] by (simp_all add: resident_def engine_simps e1)
    have "resident (with_hand ev e) l x"
      using r lut [OF x(3)] same_sizes(2,5) [OF sz] by (simp add: resident_def engine_simps)
    moreover from resident_chunk_mapped [OF inv this] new have "x \<noteq> c" by (auto simp: engine_simps)
    moreover have "od_get (g_chunk_to_cell e1) x = od_get (g_chunk_to_cell e) x"
      using gone [of x] x by (metis linorder_not_less)
    ultimately show ?thesis by blast
  qed
  have "chunk_slots ?e" unfolding chunk_slots_def capeq using sl by (simp add: engine_simps)
  then have "chunk_inv ?e"
  proof (rule chunk_step [OF inv sz])
    fix l x assume r: "resident ?e l x"
    from res [OF r] show "od_get (g_chunk_to_cell ?e) x = od_get (g_chunk_to_cell (with_hand ev e)) x"
      by (simp add: engine_simps od_simps)
    have "0 \<le> chunk_cell_lut e1 l x" using r by (simp add: resident_def engine_simps)
    from lut [OF this] show "chunk_cell_lut ?e l x = chunk_cell_lut (with_hand ev e) l x"
      by (simp add: engine_simps)
  qed (simp_all add: engine_simps e1)
  moreover have "od_get (od_set c cell (g_chunk_to_cell e1)) x = None"
    if "x \<in> set cs" for x
    using pl gone [of x] that by (auto simp: placing_def od_simps)
  moreover have "set (od_keys (od_set c cell (g_chunk_to_cell e1))) \<subseteq> set u"
    if "set (od_keys (g_chunk_to_cell e1)) \<subseteq> set u"
    using that cu by (simp add: od_keys_set)
  moreover have "recall_cell_capacity (set_chunk c cell e1) = recall_cell_capacity e"
    by (rule same_sizes(9)) (simp add: engine_simps e1)
  ultimately show "placing u ev' cs (set_chunk c cell e1)"
    using pl ev' unfolding placing_def by (simp add: engine_simps)
  show "kept_chunks u e (set_chunk c cell e1)"
    using gone new by (auto simp: kept_chunks_def engine_simps e1 od_simps)
  show "od_get (g_chunk_to_cell (set_chunk c cell e1)) c = Some cell"
    by (simp add: engine_simps od_simps)
qed



subsection \<open>The placement loop\<close>

lemma evict_batch_effect:
  assumes pl: "placing u None (c # cs) e" and free: "g_free_cells e = []"
    and ev: "evict_batch_global u (Suc (length cs)) e = (cells, e1)"
  shows "slots_ok (g_chunk_to_cell e1) (g_next_cell e1) cells (recall_cell_capacity e)"
    and "sizes e1 = sizes e" "host_mirror e1 = host_mirror e" "reserve_buf e1 = reserve_buf e"
    and "g_free_cells e1 = []" "g_next_cell e1 = g_next_cell e" "g_full e1 = g_full e"
    and "length cells \<le> Suc (length cs)" "cells = [] \<Longrightarrow> e1 = e"
    and "length cells < Suc (length cs) \<Longrightarrow> set (od_keys (g_chunk_to_cell e1)) \<subseteq> set u"
    and "od_get (g_chunk_to_cell e1) x = od_get (g_chunk_to_cell e) x
        \<or> x \<notin> set u \<and> od_get (g_chunk_to_cell e1) x = None
            \<and> (\<forall>l. 0 \<le> x \<and> x < n_logical_pages e * 64 \<longrightarrow> chunk_cell_lut e1 l x < 0)"
    and "0 \<le> chunk_cell_lut e1 l x \<Longrightarrow> chunk_cell_lut e1 l x = chunk_cell_lut e l x"
proof -
  let ?d = "g_chunk_to_cell e" and ?P = "\<lambda>p. fst p \<notin> set u"
  define chosen where "chosen = take (Suc (length cs)) (filter ?P ?d)"
  define cols where "cols = filter (col_ok e) (map fst chosen)"
  have eq: "cells = map snd chosen" "e1 = (if chosen = [] then e else (lut_clear_all cols e)
      \<lparr>g_chunk_to_cell := fold od_pop (map fst chosen) ?d, n_evictions := n_evictions e + int (length chosen)\<rparr>)"
    using ev by (auto simp: evict_batch_global_def Let_def chosen_def [symmetric] cols_def [symmetric] split: if_splits)
  have d1: "g_chunk_to_cell e1 = fold od_pop (map fst chosen) ?d" by (simp add: eq)
  have lut1: "chunk_cell_lut e1 l = fill cols (- 1) (chunk_cell_lut e l)" for l
    by (cases "chosen = []") (simp_all add: eq engine_simps cols_def fill_def)
  show sz: "sizes e1 = sizes e" and "host_mirror e1 = host_mirror e" "reserve_buf e1 = reserve_buf e"
    and nx: "g_next_cell e1 = g_next_cell e" and "g_free_cells e1 = []" "g_full e1 = g_full e"
    by (simp_all add: eq lut_clear_all_def sizes_def reserve_buf_def free)
  have sl: "slots_ok ?d (g_next_cell e) [] (recall_cell_capacity e)"
    using pl same_sizes(9) [of "with_hand None e" e]
    by (simp add: placing_def path_inv_def chunk_slots_def engine_simps hand_def free)
  note dist = slots_okD(1) [OF sl]
  have dc: "distinct (map fst chosen)" "set chosen \<subseteq> set ?d"
    using dist by (auto simp: chosen_def take_map [symmetric] distinct_map_filter dest: in_set_takeD)
  note pop = pop_keys_chosen [OF dc(1) dist dc(2), of "[]", simplified]
  from slots_pop_keys [OF sl pop] show "slots_ok (g_chunk_to_cell e1) (g_next_cell e1) cells (recall_cell_capacity e)"
    by (simp only: d1 nx eq(1))
  note get = pop_keys_get [OF pop, folded d1]
  show "length cells \<le> Suc (length cs)" by (simp add: eq chosen_def)
  show "cells = [] \<Longrightarrow> e1 = e" by (simp add: eq)
  show "set (od_keys (g_chunk_to_cell e1)) \<subseteq> set u" if "length cells < Suc (length cs)"
  proof
    fix k assume "k \<in> set (od_keys (g_chunk_to_cell e1))"
    then obtain v where "od_get (g_chunk_to_cell e1) k = Some v"
      by (metis list.set_map map_of_eq_None_iff not_None_eq)
    then have k: "k \<notin> set (map fst chosen)" "(k, v) \<in> set ?d"
      using get [of k] by (auto split: if_splits dest: map_of_SomeD)
    have "chosen = filter ?P ?d" using that by (simp add: eq chosen_def)
    with k show "k \<in> set u" by force
  qed
  show "od_get (g_chunk_to_cell e1) x = od_get ?d x \<or> x \<notin> set u \<and> od_get (g_chunk_to_cell e1) x = None
      \<and> (\<forall>l. 0 \<le> x \<and> x < n_logical_pages e * 64 \<longrightarrow> chunk_cell_lut e1 l x < 0)"
  proof (cases "x \<in> set (map fst chosen)")
    case True
    then have "x \<notin> set u" by (auto simp: chosen_def dest: in_set_takeD)
    moreover have "0 \<le> x \<and> x < n_logical_pages e * 64 \<Longrightarrow> x \<in> set cols"
      using True by (simp add: cols_def col_ok_def lut_cols_def)
    ultimately show ?thesis using True get [of x] by (auto simp: lut1)
  qed (use get [of x] in simp)
  show "chunk_cell_lut e1 l x = chunk_cell_lut e l x" if "0 \<le> chunk_cell_lut e1 l x"
    using that unfolding lut1 by (rule chunk.fill_resident)
qed

definition g_exhausted :: "int list \<Rightarrow> engine \<Rightarrow> bool" where
  "g_exhausted u e \<longleftrightarrow> chunk_inv e \<and> g_free_cells e = [] \<and> recall_cell_capacity e \<le> g_next_cell e
     \<and> set (od_keys (g_chunk_to_cell e)) \<subseteq> set u"

lemma placing_inv:
  assumes "placing u ev cs e" "hand ev = []"
  shows "chunk_inv e"
  using assms by (simp add: placing_def with_hand_def)

lemma g_place_Cons:
  assumes pl: "placing u ev (c # cs) e" and g: "g_place u ev (c # cs) e = (r, e')"
  obtains
    (place) cell ev' e1 r' where "placing u ev' cs e1" "kept_chunks u e e1"
      "od_get (g_chunk_to_cell e1) c = Some cell" "g_place u ev' cs e1 = (r', e')"
      "r = (case r' of Inl x \<Rightarrow> Inl x | Inr ps \<Rightarrow> Inr ((c, cell) # ps))"
  | (full) e1 where "g_exhausted u e1" "kept_chunks u e e1" "od_get (g_chunk_to_cell e1) c = None"
      "g_full e1 = None \<and> r = Inl AttributeError \<and> e' = e1
       \<or> g_full e1 \<noteq> None \<and> r = Inr [] \<and> e' = e1\<lparr>g_full := Some True\<rparr>"
proof -
  have step: thesis
    if "placing u ev' cs (set_chunk c cell e1)" "kept_chunks u e (set_chunk c cell e1)"
      "od_get (g_chunk_to_cell (set_chunk c cell e1)) c = Some cell"
      and eq: "g_place u ev (c # cs) e = (case g_place u ev' cs (set_chunk c cell e1) of
        (Inl x, e'') \<Rightarrow> (Inl x, e'') | (Inr ps, e'') \<Rightarrow> (Inr ((c, cell) # ps), e''))" for cell ev' e1
  proof -
    obtain r' e'' where t: "g_place u ev' cs (set_chunk c cell e1) = (r', e'')" by fastforce
    have "r = (case r' of Inl x \<Rightarrow> Inl x | Inr ps \<Rightarrow> Inr ((c, cell) # ps))" "e'' = e'"
      using g eq t by (auto split: sum.splits)
    with t that show ?thesis by (intro place) auto
  qed
  have p: "od_get (g_chunk_to_cell e) c = None" "\<not> od_mem c (g_chunk_to_cell e)" "distinct cs"
    using pl by (simp_all add: placing_def od_mem_get)
  have sl: "slots_ok (g_chunk_to_cell e) (g_next_cell e) (g_free_cells e @ hand ev) (recall_cell_capacity e)"
    using pl same_sizes(9) [of "with_hand ev e" e] by (simp add: placing_def path_inv_def chunk_slots_def engine_simps)
  show thesis
  proof (cases "g_free_cells e = []")
    case False
    with pl have ev: "ev = None" by (cases ev) (auto simp: placing_def)
    let ?e1 = "e\<lparr>g_free_cells := butlast (g_free_cells e)\<rparr>"
    note st = placing_step [OF pl, where ?e1.0 = ?e1 and ev' = None and cell = "last (g_free_cells e)"]
    have "slots_ok (od_set c (last (g_free_cells e)) (g_chunk_to_cell e)) (g_next_cell e)
        (butlast (g_free_cells e)) (recall_cell_capacity e)"
      using slots_from_free [OF sl p(2)] False by (simp add: ev hand_def)
    then show ?thesis
      by (intro step [of None "last (g_free_cells e)" ?e1] st)
        (simp_all add: False ev hand_def set_chunk_def sizes_def reserve_buf_def)
  next
    case free: True
    show ?thesis
    proof (cases "g_next_cell e < recall_cell_capacity e")
      case True
      with pl have ev: "ev = None" by (cases ev) (auto simp: placing_def)
      let ?e1 = "e\<lparr>g_next_cell := g_next_cell e + 1\<rparr>"
      note st = placing_step [OF pl, where ?e1.0 = ?e1 and ev' = None and cell = "g_next_cell e"]
      have "slots_ok (od_set c (g_next_cell e) (g_chunk_to_cell e)) (g_next_cell e + 1) [] (recall_cell_capacity e)"
        using slots_from_mark [OF sl p(2) True] by (simp add: ev hand_def free)
      then show ?thesis
        by (intro step [of None "g_next_cell e" ?e1] st)
          (simp_all add: free True ev hand_def set_chunk_def sizes_def reserve_buf_def)
    next
      case mark: False
      then have cap: "recall_cell_capacity e \<le> g_next_cell e" by simp
      show ?thesis
      proof (cases ev)
        case None
        obtain cells e1 where b: "evict_batch_global u (Suc (length cs)) e = (cells, e1)" by fastforce
        note eb = evict_batch_effect [OF pl [unfolded None] free b]
        show ?thesis
        proof (cases cells)
          case (Cons x xs)
          note st = placing_step [OF pl, where ?e1.0 = e1 and ev' = "Some xs" and cell = x]
          have nm: "\<not> od_mem c (g_chunk_to_cell e1)" using eb(11) [of c] p(1) by (auto simp: od_mem_get)
          from slots_from_hand [OF eb(1) [unfolded Cons] this]
          have "slots_ok (od_set c x (g_chunk_to_cell e1)) (g_next_cell e1) (g_free_cells e1 @ hand (Some xs))
              (recall_cell_capacity e)" by (simp add: eb hand_def)
          moreover have "xs' = xs" if "Some xs = Some xs'" for xs' using that by simp
          ultimately show ?thesis
            using eb(8,10) Cons mark
            by (intro step [of "Some xs" x e1] st eb(2-4,11,12))
              (simp_all add: free mark cap None b eb(5,6) set_chunk_def)
        next
          case Nil
          with eb(9,10) have "e1 = e" "set (od_keys (g_chunk_to_cell e)) \<subseteq> set u" by simp_all
          with placing_inv [OF pl] free cap None have "g_exhausted u e" by (simp add: g_exhausted_def hand_def)
          with g p(1) show ?thesis
            by (intro full [of e]) (auto simp: free mark None b Nil \<open>e1 = e\<close> kept_chunks_refl split: option.splits)
        qed
      next
        case (Some ys)
        with pl have ys: "length ys \<le> Suc (length cs)"
          "length ys < Suc (length cs) \<Longrightarrow> set (od_keys (g_chunk_to_cell e)) \<subseteq> set u" by (auto simp: placing_def)
        show ?thesis
        proof (cases ys)
          case (Cons x xs)
          note st = placing_step [OF pl, where ?e1.0 = e and ev' = "Some xs" and cell = x]
          from sl free have "slots_ok (g_chunk_to_cell e) (g_next_cell e) (x # xs) (recall_cell_capacity e)"
            by (simp add: Some Cons hand_def)
          from slots_from_hand [OF this p(2)] show ?thesis
            using ys Cons mark
            by (intro step [of "Some xs" x e] st) (simp_all add: free mark cap Some set_chunk_def hand_def)
        next
          case Nil
          with ys(2) placing_inv [OF pl] free cap Some have "g_exhausted u e"
            by (simp add: g_exhausted_def hand_def)
          with g p(1) show ?thesis
            by (intro full [of e]) (auto simp: free mark Some Nil kept_chunks_refl split: option.splits)
        qed
      qed
    qed
  qed
qed


lemma kept_chunks_full: "kept_chunks u e (e\<lparr>g_full := b\<rparr>)"
  by (simp add: kept_chunks_def sizes_def reserve_buf_def)

lemma chunk_inv_full: "chunk_inv e \<Longrightarrow> chunk_inv (e\<lparr>g_full := b\<rparr>)"
  by (erule chunk.inv_irrelevant) (simp_all add: alloc_state_def sizes_def reserve_buf_def)

definition placed_pairs :: "int list \<Rightarrow> (int \<times> int) list \<Rightarrow> engine \<Rightarrow> bool" where
  "placed_pairs cs ps e \<longleftrightarrow> distinct (map fst ps) \<and> fst ` set ps \<subseteq> set cs
     \<and> (\<forall>(c, cell) \<in> set ps. od_get (g_chunk_to_cell e) c = Some cell)"

lemma g_place_post:
  assumes "placing u ev cs e" "g_place u ev cs e = (r, e')"
  shows "chunk_inv e' \<and> kept_chunks u e e' \<and> (\<forall>ps. r = Inr ps \<longrightarrow> placed_pairs cs ps e')"
  using assms
proof (induction cs arbitrary: ev e r)
  case Nil
  then have ev: "hand ev = []" by (cases ev) (auto simp: placing_def hand_def)
  with placing_inv [OF Nil.prems(1)] Nil.prems(2) show ?case by (auto simp: kept_chunks_refl placed_pairs_def)
next
  case (Cons c cs)
  from Cons.prems show ?case
  proof (cases rule: g_place_Cons)
    case (place cell ev' e1 r')
    from Cons.IH [OF place(1,4)] have IH: "chunk_inv e'" "kept_chunks u e1 e'"
      "\<And>ps. r' = Inr ps \<Longrightarrow> placed_pairs cs ps e'" by blast+
    have c: "c \<in> set u" "c \<notin> set cs" using Cons.prems(1) by (auto simp: placing_def)
    from IH(2) c(1) place(3) have m: "od_get (g_chunk_to_cell e') c = Some cell" by (simp add: kept_chunks_def)
    have "placed_pairs (c # cs) ps e'" if r: "r = Inr ps" for ps
    proof -
      from r place(5) obtain ps' where "r' = Inr ps'" "ps = (c, cell) # ps'" by (cases r') auto
      with IH(3) m c(2) show ?thesis unfolding placed_pairs_def by fastforce
    qed
    with IH kept_chunks_trans [OF place(2) IH(2)] show ?thesis by blast
  next
    case (full e1)
    then show ?thesis
      by (auto simp: g_exhausted_def chunk_inv_full placed_pairs_def intro: kept_chunks_trans kept_chunks_full)
  qed
qed

text \<open>With a selection no larger than the reserve, the loop places every chunk.\<close>

lemma not_g_exhausted:
  assumes "length u \<le> nat (recall_cell_capacity e)" "c \<in> set u" "od_get (g_chunk_to_cell e) c = None"
  shows "\<not> g_exhausted u e"
proof
  assume ex: "g_exhausted u e"
  let ?d = "g_chunk_to_cell e"
  have s: "slots_ok ?d (g_next_cell e) [] (recall_cell_capacity e)"
    using ex by (auto simp: g_exhausted_def path_inv_def chunk_slots_def)
  have "insert c (set (od_keys ?d)) \<subseteq> set u" "c \<notin> set (od_keys ?d)"
    using ex assms(2,3) by (auto simp: g_exhausted_def map_of_eq_None_iff)
  from card_mono [OF finite_set this(1)] this(2) have "Suc (card (set (od_keys ?d))) \<le> card (set u)" by simp
  also have "\<dots> \<le> length u" by (rule card_length)
  also have "card (set (od_keys ?d)) = length ?d" using distinct_card [OF slots_okD(1) [OF s]] by simp
  finally have "length ?d < nat (recall_cell_capacity e)" using assms(1) by simp
  moreover have "length ?d = nat (recall_cell_capacity e)"
    by (rule slots_full_keys [OF s]) (use ex slots_okD(7) [OF s] in \<open>simp add: g_exhausted_def\<close>)
  ultimately show False by simp
qed

lemma g_place_total:
  assumes "placing u ev cs e" "length u \<le> nat (recall_cell_capacity e)"
  shows "\<exists>ps e'. g_place u ev cs e = (Inr ps, e') \<and> map fst ps = cs"
  using assms
proof (induction cs arbitrary: ev e)
  case (Cons c cs)
  obtain r e' where g: "g_place u ev (c # cs) e = (r, e')" by fastforce
  from Cons.prems(1) g show ?case
  proof (cases rule: g_place_Cons)
    case (place cell ev' e1 r')
    from place(2) have "recall_cell_capacity e1 = recall_cell_capacity e"
      by (intro same_sizes(9)) (simp add: kept_chunks_def)
    with Cons.IH [OF place(1)] Cons.prems(2) place(4) obtain ps where "r' = Inr ps" "map fst ps = cs" by auto
    with g place(5) show ?thesis by (intro exI [of _ "(c, cell) # ps"] exI [of _ e']) simp
  next
    case (full e1)
    from full(2) have "recall_cell_capacity e1 = recall_cell_capacity e"
      by (intro same_sizes(9)) (simp add: kept_chunks_def)
    moreover have "c \<in> set u" using Cons.prems(1) by (simp add: placing_def)
    ultimately show ?thesis using not_g_exhausted [of u e1 c] full(1,3) Cons.prems(2) by simp
  qed
qed simp



subsection \<open>The allocation and the recall\<close>

lemma chunk_block:
  assumes inv: "chunk_inv e" and new: "distinct new" "\<forall>c \<in> set new. od_get (g_chunk_to_cell e) c = None"
    and cap: "g_next_cell e + int (length new) \<le> recall_cell_capacity e"
  defines "ps \<equiv> zip new (int_range (g_next_cell e) (length new))"
  defines "e' \<equiv> e\<lparr>g_next_cell := g_next_cell e + int (length new),
      g_chunk_to_cell := fold (\<lambda>(c, cell). od_set c cell) ps (g_chunk_to_cell e)\<rparr>"
  shows "chunk_inv e'" "kept_chunks u e e'" "placed_pairs new ps e'" "map fst ps = new"
proof -
  show fst: "map fst ps = new" by (simp add: ps_def)
  have get: "od_get (g_chunk_to_cell e') c = (case map_of ps c of Some v \<Rightarrow> Some v | None \<Rightarrow> od_get (g_chunk_to_cell e) c)" for c
    unfolding e'_def using od_get_fold_set [of ps] new(1) fst by simp
  have sz: "sizes e' = sizes e" "reserve_buf e' = reserve_buf e" by (simp_all add: e'_def sizes_def reserve_buf_def)
  have lut: "chunk_cell_lut e' = chunk_cell_lut e" "host_mirror e' = host_mirror e" by (simp_all add: e'_def)
  have old: "od_get (g_chunk_to_cell e') c = od_get (g_chunk_to_cell e) c" if "od_get (g_chunk_to_cell e) c \<noteq> None" for c
  proof -
    have "c \<notin> set (map fst ps)" using that new(2) fst by auto
    then show ?thesis unfolding get by (simp add: map_of_eq_None_iff [THEN iffD2])
  qed
  have "slots_ok (g_chunk_to_cell e) (g_next_cell e) (g_free_cells e) (recall_cell_capacity e)"
    using inv by (simp add: path_inv_def chunk_slots_def)
  from slots_block [OF this new(1) _ cap] new(2) have "chunk_slots e'"
    unfolding chunk_slots_def same_sizes(9) [OF sz(1)] by (simp add: e'_def ps_def od_mem_get)
  then show "chunk_inv e'"
  proof (rule chunk_step [OF inv sz(1)])
    fix l c assume "resident e' l c"
    then have "resident e l c" using same_sizes(2,5) [OF sz(1)] by (simp add: resident_def lut)
    from old [OF resident_chunk_mapped [OF inv this]]
    show "od_get (g_chunk_to_cell e') c = od_get (g_chunk_to_cell e) c" .
  qed (simp_all add: sz lut)
  show "kept_chunks u e e'" using old by (simp add: kept_chunks_def sz lut)
  show "placed_pairs new ps e'"
    unfolding placed_pairs_def using fst new(1) by (force simp: get)
qed

lemma od_get_fold_move: "od_get (fold od_move_to_end ks d) k = od_get d k"
  by (induction ks arbitrary: d) (simp_all add: od_simps)

lemma slots_fold_move: "slots_ok d nxt free cap \<Longrightarrow> slots_ok (fold od_move_to_end ks d) nxt free cap"
  by (induction ks arbitrary: d) simp_all

lemma chunk_moves:
  assumes "chunk_inv e"
  defines "e' \<equiv> \<lambda>ks. e\<lparr>g_chunk_to_cell := fold od_move_to_end ks (g_chunk_to_cell e)\<rparr>"
  shows "chunk_inv (e' ks)" "kept_chunks u e (e' ks)"
    and "od_get (g_chunk_to_cell (e' ks)) c = od_get (g_chunk_to_cell e) c"
proof -
  have sz: "sizes (e' ks) = sizes e" "reserve_buf (e' ks) = reserve_buf e"
    by (simp_all add: e'_def sizes_def reserve_buf_def)
  show get: "od_get (g_chunk_to_cell (e' ks)) c = od_get (g_chunk_to_cell e) c" for c
    by (simp add: e'_def od_get_fold_move)
  have "chunk_slots (e' ks)"
    using assms(1) slots_fold_move unfolding chunk_slots_def same_sizes(9) [OF sz(1)] path_inv_def
    by (auto simp: e'_def chunk_slots_def)
  then show "chunk_inv (e' ks)"
    by (rule chunk_step [OF assms(1) sz(1)]) (simp_all add: sz get, simp_all add: e'_def)
  show "kept_chunks u e (e' ks)" by (simp add: kept_chunks_def sz get) (simp add: e'_def)
qed

text \<open>Reused entries keep their cells; new chunks get theirs from a block or from the loop.\<close>

lemma g_alloc_new:
  assumes inv: "chunk_inv e1" and new: "distinct new"
    "\<forall>c \<in> set new. 0 \<le> c \<and> c \<in> set u \<and> od_get (g_chunk_to_cell e1) c = None"
    and r: "(r, e') = (if new = [] then (Inr [], e1)
      else if g_free_cells e1 = [] \<and> g_next_cell e1 + int (length new) \<le> recall_cell_capacity e1 then
        (Inr (zip new (int_range (g_next_cell e1) (length new))),
         e1\<lparr>g_next_cell := g_next_cell e1 + int (length new),
            g_chunk_to_cell := fold (\<lambda>(c, cell). od_set c cell)
              (zip new (int_range (g_next_cell e1) (length new))) (g_chunk_to_cell e1)\<rparr>)
      else g_place u None new e1)"
  shows "chunk_inv e' \<and> kept_chunks u e1 e' \<and> (\<forall>ps. r = Inr ps \<longrightarrow> placed_pairs new ps e')"
    and "length u \<le> nat (recall_cell_capacity e1) \<Longrightarrow> \<exists>ps. r = Inr ps \<and> map fst ps = new"
proof -
  have pl: "placing u None new e1" using inv new by (simp add: placing_def with_hand_def hand_def)
  have n: "\<forall>c \<in> set new. od_get (g_chunk_to_cell e1) c = None" using new(2) by blast
  consider (nil) "new = []" "r = Inr []" "e' = e1"
    | (block) "g_next_cell e1 + int (length new) \<le> recall_cell_capacity e1"
        "r = Inr (zip new (int_range (g_next_cell e1) (length new)))"
        "e' = e1\<lparr>g_next_cell := g_next_cell e1 + int (length new),
            g_chunk_to_cell := fold (\<lambda>(c, cell). od_set c cell)
              (zip new (int_range (g_next_cell e1) (length new))) (g_chunk_to_cell e1)\<rparr>"
    | (loop) "g_place u None new e1 = (r, e')"
    using r by (auto split: if_splits)
  note cases = this
  from cases show "chunk_inv e' \<and> kept_chunks u e1 e' \<and> (\<forall>ps. r = Inr ps \<longrightarrow> placed_pairs new ps e')"
  proof cases
    case nil
    with inv show ?thesis by (simp add: kept_chunks_refl placed_pairs_def)
  next
    case block
    from chunk_block(1-3) [OF inv new(1) n block(1), folded block(3)] block(2) show ?thesis by auto
  next
    case loop
    from g_place_post [OF pl loop] show ?thesis .
  qed
  show "\<exists>ps. r = Inr ps \<and> map fst ps = new" if "length u \<le> nat (recall_cell_capacity e1)"
    using cases
  proof cases
    case block
    with chunk_block(4) [OF inv new(1) n block(1)] show ?thesis by auto
  next
    case loop
    with g_place_total [OF pl that] show ?thesis by auto
  qed auto
qed


lemma placed_pairs_append:
  assumes "placed_pairs cs ps e'" "\<forall>c \<in> set rs. od_get (g_chunk_to_cell e') c = Some (f c)"
    and "distinct rs" "set rs \<inter> set cs = {}" "set rs \<union> set cs \<subseteq> set todo"
  shows "placed_pairs todo (map (\<lambda>c. (c, f c)) rs @ ps) e'"
  using assms unfolding placed_pairs_def by (auto simp: comp_def)

lemma g_alloc_post:
  assumes inv: "chunk_inv e" and todo: "distinct todo" "\<forall>c \<in> set todo. 0 \<le> c \<and> c \<in> set u"
    and g: "g_alloc u todo e = (r, e')"
  shows "chunk_inv e' \<and> kept_chunks u e e' \<and> (\<forall>ps. r = Inr ps \<longrightarrow> placed_pairs todo ps e')"
    and "length u \<le> nat (recall_cell_capacity e) \<Longrightarrow> \<exists>ps. r = Inr ps \<and> fst ` set ps = set todo"
proof -
  let ?c2c = "g_chunk_to_cell e"
  let ?fast = "\<not> list_ex (\<lambda>c. od_mem c ?c2c) todo \<and> g_free_cells e = [] \<and> g_full e \<noteq> Some True
      \<and> g_next_cell e + int (length todo) \<le> recall_cell_capacity e"
  let ?new = "filter (\<lambda>c. \<not> od_mem c ?c2c) todo" and ?reuse = "filter (\<lambda>c. od_mem c ?c2c) todo"
  let ?e1 = "e\<lparr>g_chunk_to_cell := fold od_move_to_end ?reuse ?c2c\<rparr>"
  let ?rs = "map (\<lambda>c. (c, the (od_get ?c2c c))) ?reuse"
  have "(chunk_inv e' \<and> kept_chunks u e e' \<and> (\<forall>ps. r = Inr ps \<longrightarrow> placed_pairs todo ps e'))
      \<and> (length u \<le> nat (recall_cell_capacity e) \<longrightarrow> (\<exists>ps. r = Inr ps \<and> fst ` set ps = set todo))"
  proof (cases ?fast)
    case True
    then have n: "\<forall>c \<in> set todo. od_get ?c2c c = None" by (simp add: list_ex_iff od_mem_get)
    let ?ps = "zip todo (int_range (g_next_cell e) (length todo))"
    have "r = Inr ?ps" and e': "e' = e\<lparr>g_next_cell := g_next_cell e + int (length todo),
        g_chunk_to_cell := fold (\<lambda>(c, cell). od_set c cell) ?ps ?c2c\<rparr>"
      using g True by (auto simp: g_alloc_def Let_def)
    moreover note b = chunk_block [OF inv todo(1) n, folded e'] True
    moreover have "fst ` set ?ps = set todo" using chunk_block(4) [OF inv todo(1) n] True by (metis set_map)
    ultimately show ?thesis by auto
  next
    case False
    note mv = chunk_moves(1) [OF inv, where ks = ?reuse] chunk_moves(2) [OF inv, where ks = ?reuse and u = u]
      chunk_moves(3) [OF inv, where ks = ?reuse]
    define res where "res = (if ?new = [] then (Inr [], ?e1)
      else if g_free_cells ?e1 = [] \<and> g_next_cell ?e1 + int (length ?new) \<le> recall_cell_capacity ?e1 then
        (Inr (zip ?new (int_range (g_next_cell ?e1) (length ?new))),
         ?e1\<lparr>g_next_cell := g_next_cell ?e1 + int (length ?new),
            g_chunk_to_cell := fold (\<lambda>(c, cell). od_set c cell)
              (zip ?new (int_range (g_next_cell ?e1) (length ?new))) (g_chunk_to_cell ?e1)\<rparr>)
      else g_place u None ?new ?e1)"
    obtain r1 e2 where r1: "(r1, e2) = res" by (metis prod.exhaust)
    have cap: "recall_cell_capacity ?e1 = recall_cell_capacity e" by (rule same_sizes(9)) (simp add: sizes_def)
    have eq: "(r, e') = ((case r1 of Inl x \<Rightarrow> Inl x | Inr ps \<Rightarrow> Inr (?rs @ ps)), e2)"
      using g r1 False unfolding g_alloc_def Let_def res_def cap
      by (auto split: if_splits sum.splits prod.splits)
    have n: "distinct ?new" "\<forall>c \<in> set ?new. 0 \<le> c \<and> c \<in> set u \<and> od_get (g_chunk_to_cell ?e1) c = None"
      using todo mv(3) by (auto simp: od_mem_get od_get_fold_move)
    note post = g_alloc_new [OF mv(1) n r1 [unfolded res_def]]
    have rs: "od_get (g_chunk_to_cell e2) c = Some (the (od_get ?c2c c))" if "c \<in> set ?reuse" for c
      using post(1) mv(3) [of c] that todo(2) by (auto simp: kept_chunks_def od_mem_get)
    have "kept_chunks u e e2" using kept_chunks_trans [OF mv(2)] post(1) by blast
    moreover have "placed_pairs todo (?rs @ ps) e2" if "r1 = Inr ps" for ps
      by (rule placed_pairs_append [where cs = ?new]) (use post(1) that rs todo(1) in auto)
    moreover have "\<exists>ps. r = Inr ps \<and> fst ` set ps = set todo" if len: "length u \<le> nat (recall_cell_capacity e)"
    proof -
      from post(2) len cap obtain ps where "r1 = Inr ps" "map fst ps = ?new" by auto
      then have "r = Inr (?rs @ ps)" "fst ` set ps = set ?new" using eq by (auto simp: set_map [symmetric] simp del: set_map)
      then show ?thesis by (intro exI [of _ "?rs @ ps"]) (auto simp: image_Un image_image)
    qed
    ultimately show ?thesis using post(1) eq by (auto split: sum.splits)
  qed
  then show "chunk_inv e' \<and> kept_chunks u e e' \<and> (\<forall>ps. r = Inr ps \<longrightarrow> placed_pairs todo ps e')"
    and "length u \<le> nat (recall_cell_capacity e) \<Longrightarrow> \<exists>ps. r = Inr ps \<and> fst ` set ps = set todo" by blast+
qed


definition selected_chunks :: "int list \<Rightarrow> int list" where
  "selected_chunks locs = filter (\<lambda>c. 0 \<le> c) (unique locs)"

definition missing_chunks :: "engine \<Rightarrow> int list \<Rightarrow> int list" where
  "missing_chunks e locs = filter (\<lambda>c. chunk_cell_lut e 0 (clamp_col e c) < 0) (selected_chunks locs)"

lemma missing_chunks_selected:
  "\<forall>c \<in> set (missing_chunks e locs). 0 \<le> c \<and> c \<in> set (selected_chunks locs)"
  "distinct (missing_chunks e locs)" "distinct (selected_chunks locs)"
  by (auto simp: missing_chunks_def selected_chunks_def)

lemma recall_global_cases:
  assumes inv: "chunk_inv e"
  obtains
    (nothing) "missing_chunks e locs = []" "recall_global locs e = (Inr 0, e)"
  | (raised) x e1 where "g_alloc (selected_chunks locs) (missing_chunks e locs) e = (Inl x, e1)"
      "recall_global locs e = (Inl x, e1)"
  | (recalled) ps e1 where "g_alloc (selected_chunks locs) (missing_chunks e locs) e = (Inr ps, e1)"
      "recall_global locs e = (Inr (int (length (filter (in_bounds (n_logical_pages e) (reserve_pages e)) ps))),
         if filter (in_bounds (n_logical_pages e) (reserve_pages e)) ps = [] then e1
         else install (filter (in_bounds (n_logical_pages e) (reserve_pages e)) ps) e1)"
proof (cases "missing_chunks e locs = []")
  case True
  show ?thesis
    by (rule nothing) (use True in \<open>simp_all add: recall_global_def missing_chunks_def selected_chunks_def Let_def\<close>)
next
  case False
  have ne: "locs \<noteq> []" "selected_chunks locs \<noteq> []"
    using False by (auto simp: missing_chunks_def selected_chunks_def simp del: filter_filter)
  obtain r e1 where g: "g_alloc (selected_chunks locs) (missing_chunks e locs) e = (r, e1)" by fastforce
  from g_alloc_post(1) [OF inv missing_chunks_selected(2,1) g] have sz: "sizes e1 = sizes e"
    by (simp add: kept_chunks_def)
  note unf = recall_global_def selected_chunks_def [symmetric] missing_chunks_def [symmetric] Let_def g
  show ?thesis
  proof (cases r)
    case (Inl x)
    have "recall_global locs e = (Inl x, e1)" unfolding unf Inl using ne False by simp
    with g Inl show ?thesis by (intro raised) auto
  next
    case (Inr ps)
    let ?safe = "filter (in_bounds (n_logical_pages e) (reserve_pages e)) ps"
    have "recall_global locs e = (Inr (int (length ?safe)), if ?safe = [] then e1 else install ?safe e1)"
      unfolding unf Inr install_def [of _ e1] same_sizes(12) [OF sz] using ne False by auto
    with g Inr show ?thesis by (intro recalled) auto
  qed
qed

lemma recall_install_chunks:
  assumes inv: "chunk_inv e" and g: "g_alloc (selected_chunks locs) (missing_chunks e locs) e = (Inr ps, e1)"
  shows "chunk_inv e1" "sizes e1 = sizes e" "distinct (map fst (filter P ps))"
    and "\<And>c d l. (c, d) \<in> set ps \<Longrightarrow> 0 \<le> c \<and> chunk_owner e1 l c = Some d"
    and "chunk_inv (install (filter P ps) e1)"
proof -
  from g_alloc_post(1) [OF inv missing_chunks_selected(2,1) g]
  have post: "chunk_inv e1" "kept_chunks (selected_chunks locs) e e1" "placed_pairs (missing_chunks e locs) ps e1"
    by blast+
  show "chunk_inv e1" "sizes e1 = sizes e" using post by (simp_all add: kept_chunks_def)
  show d: "distinct (map fst (filter P ps))"
    using post(3) by (simp add: placed_pairs_def distinct_map_filter)
  show own: "0 \<le> c \<and> chunk_owner e1 l c = Some d" if "(c, d) \<in> set ps" for c d l
    using post(3) that missing_chunks_selected(1) [of e locs]
    unfolding placed_pairs_def chunk_owner_def by force
  show "chunk_inv (install (filter P ps) e1)"
    by (rule chunk.inv_install [OF post(1) d]) (use own in auto)
qed

lemma recall_global_keeps:
  assumes "chunk_inv e"
  shows "chunk_inv (snd (recall_global locs e))"
  using assms
proof (cases rule: recall_global_cases [where locs = locs])
  case nothing
  with assms show ?thesis by simp
next
  case (raised x e1)
  with g_alloc_post(1) [OF assms missing_chunks_selected(2,1) raised(1)] show ?thesis by simp
next
  case (recalled ps e1)
  from recall_install_chunks(1,5) [OF assms recalled(1)] recalled(2) show ?thesis by simp
qed

lemma recall_global_complete:
  assumes inv: "chunk_inv e" and fit: "length (selected_chunks locs) \<le> nat (recall_cell_capacity e)"
    and r: "recall_global locs e = (res, e2)"
  shows "\<exists>n. res = Inr n"
    and "c \<in> set (missing_chunks e locs) \<Longrightarrow> c < n_logical_pages e * 64 \<Longrightarrow> resident e2 l c"
proof -
  obtain r1 e1 where g: "g_alloc (selected_chunks locs) (missing_chunks e locs) e = (r1, e1)" by fastforce
  from g_alloc_post(2) [OF inv missing_chunks_selected(2,1) g fit] obtain ps where
    ps: "r1 = Inr ps" "fst ` set ps = set (missing_chunks e locs)" by blast
  note g' = g [unfolded ps(1)]
  let ?P = "in_bounds (n_logical_pages e) (reserve_pages e)"
  from inv have e2: "(\<exists>n. res = Inr n) \<and> (e2 = (if filter ?P ps = [] then e1 else install (filter ?P ps) e1)
      \<or> missing_chunks e locs = [])"
    by (cases rule: recall_global_cases [where locs = locs]) (use r g' in auto)
  then show "\<exists>n. res = Inr n" by blast
  show "resident e2 l c" if c: "c \<in> set (missing_chunks e locs)" "c < n_logical_pages e * 64"
  proof -
    note ri = recall_install_chunks [OF inv g']
    note sz1 = same_sizes [OF ri(2)]
    from c(1) ps(2) obtain d where d: "(c, d) \<in> set ps" by (metis imageE prod.collapse)
    from ri(4) [OF d] have c0: "0 \<le> c" and o: "chunk_owner e1 l c = Some d" by auto
    have "chunk_slots e1" "cfg_ok e" using ri(1) inv by (simp_all add: path_inv_def)
    with chunk.owner_range [OF _ o] have dr: "0 \<le> d" "d < decode_base e" by (auto simp: sz1)
    with decode_base_bounds(3) [OF \<open>cfg_ok e\<close>] c0 c(2) d have m: "(c, d) \<in> set (filter ?P ps)"
      by (simp add: in_bounds_def cell_capacity_def)
    have "filter ?P ps \<noteq> []" "missing_chunks e locs \<noteq> []" using m c(1) by (metis list.set(1) empty_iff)+
    with e2 have "e2 = install (filter ?P ps) e1" by simp
    moreover have "\<forall>p \<in> set (filter ?P ps). 0 \<le> fst p" by (simp add: in_bounds_def)
    from install_lut [OF ri(3) this c0, of e1 l] c(2) m ri(3) [of ?P]
    have "chunk_cell_lut (install (filter ?P ps) e1) l c = d" by (simp add: sz1)
    moreover have "sizes e2 = sizes e" using calculation(1) ri(2) by (simp add: engine_simps)
    ultimately show ?thesis using c0 c(2) dr same_sizes(2,5) [of e2 e] by (simp add: resident_def)
  qed
qed



subsection \<open>Releases\<close>

lemma chunk_release:
  assumes inv: "chunk_inv e" and pop: "pop_keys ks (g_chunk_to_cell e, g_free_cells e) = (c2c, free)"
    and cols: "set (filter (col_ok e) ks) \<subseteq> set cols"
  shows "chunk_inv (lut_clear_all cols (e\<lparr>g_chunk_to_cell := c2c, g_free_cells := free\<rparr>))" (is "chunk_inv ?e")
proof -
  have sz: "sizes ?e = sizes e" by (simp add: engine_simps) (simp add: sizes_def)
  have books: "g_chunk_to_cell ?e = c2c" "g_free_cells ?e = free" "g_next_cell ?e = g_next_cell e"
    by (simp_all add: lut_clear_all_def)
  have "slots_ok (g_chunk_to_cell e) (g_next_cell e) (g_free_cells e) (recall_cell_capacity e)"
    using inv by (simp add: path_inv_def chunk_slots_def)
  from slots_pop_keys [OF this pop] have "chunk_slots ?e"
    unfolding chunk_slots_def books same_sizes(9) [OF sz] .
  then show ?thesis
  proof (rule chunk_step [OF inv sz])
    fix l c assume r: "resident ?e l c"
    have lut: "chunk_cell_lut ?e l c = fill cols (- 1) (chunk_cell_lut e l) c" by (simp add: engine_simps)
    have pos: "0 \<le> chunk_cell_lut ?e l c" using r by (simp only: resident_def)
    from this [unfolded lut] show "chunk_cell_lut ?e l c = chunk_cell_lut e l c"
      unfolding lut by (rule chunk.fill_resident)
    have "c \<notin> set ks"
    proof
      assume "c \<in> set ks"
      moreover have "col_ok e c"
        using r same_sizes(2) [OF sz] by (auto simp: resident_def col_ok_def lut_cols_def)
      ultimately have "c \<in> set cols" using cols by auto
      with pos show False unfolding lut by (simp only: fill_in)
    qed
    then show "od_get (g_chunk_to_cell ?e) c = od_get (g_chunk_to_cell e) c"
      unfolding books using pop_keys_get [OF pop] by simp
  qed (simp add: engine_simps, unfold lut_update_fields, simp add: reserve_buf_def)
qed

lemma release_req_chunks_keeps:
  assumes "chunk_inv e" "\<not> page_recall e" "global_mode e"
  shows "chunk_inv (snd (release_req_pool_locs locs e))"
proof -
  let ?locs = "filter (col_ok e) (unique locs)"
  let ?ks = "filter (\<lambda>c. od_mem c (g_chunk_to_cell e)) ?locs"
  obtain c2c free where pop: "pop_keys ?ks (g_chunk_to_cell e, g_free_cells e) = (c2c, free)" by fastforce
  have "set (filter (col_ok e) ?ks) \<subseteq> set ?locs" by auto
  from chunk_release [OF assms(1) pop this] pop assms show ?thesis
    by (simp add: release_req_pool_locs_def Let_def)
qed

lemma reclaim_orphans_keeps:
  assumes "chunk_inv e"
  shows "chunk_inv (snd (reclaim_orphans_global live n e))"
proof -
  let ?ks = "filter (\<lambda>k. \<not> live (clamp 0 (n - 1) k)) (od_keys (g_chunk_to_cell e))"
  obtain c2c free where pop: "pop_keys ?ks (g_chunk_to_cell e, g_free_cells e) = (c2c, free)" by fastforce
  from chunk_release [OF assms pop order_refl] pop assms show ?thesis
    by (simp add: reclaim_orphans_global_def Let_def)
qed

lemma chunk_reset_keeps:
  assumes "cfg_ok e"
  shows "chunk_inv (reset_recall_state e)"
proof -
  have sz: "sizes (reset_recall_state e) = sizes e" by (simp add: reset_recall_state_def sizes_def)
  have "0 \<le> recall_cell_capacity e" using decode_base_bounds [OF assms] by (simp add: recall_cell_capacity_def)
  then have "chunk_slots (reset_recall_state e)"
    using same_sizes(9) [OF sz] by (simp add: chunk_slots_def reset_recall_state_def)
  with assms same_sizes(11) [OF sz] show ?thesis
    by (simp add: path_inv_def owned_def coherent_def resident_def) (simp add: reset_recall_state_def)
qed

end
