(* ===== verification/SwapRun.thy ===== *)
theory SwapRun
  imports SwapPage SwapChunk
begin

section \<open>Runs of the swap engine\<close>

text \<open>
  \<open>engine_step\<close> is one call of the engine's interface in the global (CUDA-graph) mode, with the
  arguments its callers pass; \<open>step_transfer\<close> is the cache transfer of a disaggregated server, which
  writes rows of the mirror from outside and is followed by \<open>discard_copied_pages\<close> on them. A run is
  a sequence of calls, failed ones included. Three guards restrict it. \<open>recall_chunks\<close>, the recall of
  an extend forward's attention, is a step of the chunk mode only: in the page mode it allocates from
  the chunk allocator's books, and \<open>prefill_recall_collides\<close> shows what then breaks. A prefill store
  names chunks of the logical pool and hands over a pack of the format's widths with a row for each;
  one that raises half-way leaves rows of the mirror written and mapped. The debugging switch that
  zeroes the ingested rows of the pool is off unless the engine has a reserve of its own, since
  otherwise those rows are the reserve. The locale
  \<open>swap_path\<close> is what a mode of the engine promises on top of its allocator's contract, and
  proves once that every run keeps the invariant. The page mode and the chunk mode interpret it.
\<close>

inductive engine_step :: "engine \<Rightarrow> engine \<Rightarrow> bool" where
  step_recall: "engine_step e (snd (recall_resident_global locs e))"
| step_recall_chunks: "\<not> page_recall e \<Longrightarrow> engine_step e (snd (recall_chunks l locs e))"
| step_prefill: "\<forall>c \<in> set loc. 0 \<le> c \<and> c < n_logical_pages e * 64 \<Longrightarrow>
    pack_dims p \<Longrightarrow> pack_len (length loc) p \<Longrightarrow> engine_step e (snd (store_prefill_to_mirror l loc p e))"
| step_register: "engine_step e (register_decode_req ri pc n e)"
| step_decode: "pack_dims p \<Longrightarrow> engine_step e (snd (store_decode_to_reserve l rows p e))"
| step_remap: "engine_step e (snd (remap_compressed_locs e l locs))"
| step_stats: "engine_step e (snd (get_and_reset_remap_miss e))"
| step_discard: "engine_step e (snd (discard_copied_pages pages e))"
| step_transfer: "(\<And>l a. a div row_bytes e \<notin> set (pages_in_range e pages) \<Longrightarrow> m l a = host_mirror e l a) \<Longrightarrow>
    engine_step e (snd (discard_copied_pages pages (e\<lparr>host_mirror := m\<rparr>)))"
| step_ingest: "own_reserve e \<or> \<not> poison_after_ingest e \<Longrightarrow>
    engine_step e (snd (ingest_transferred_history pages e))"
| step_release: "engine_step e (snd (release_req_pool_locs locs e))"
| step_record: "engine_step e (record_owned_pages ri sel e)"
| step_release_owned: "engine_step e (snd (release_owned_pages ri e))"
| step_reclaim: "engine_step e (snd (reclaim_orphans_global live n e))"
| step_reset: "engine_step e (reset_recall_state e)"
| step_attach: "engine_step e (attach_index_k_offload page_bytes full_layers e)"
| step_index: "engine_step e (snd (store_index_decode_to_reserve l locs ks e))"

text \<open>A run, and the calls it is made of.\<close>

inductive engine_run :: "engine \<Rightarrow> engine \<Rightarrow> bool" where
  run_refl: "engine_run e e"
| run_step: "engine_run e e1 \<Longrightarrow> engine_step e1 e2 \<Longrightarrow> engine_run e e2"


subsection \<open>No call changes the sizes\<close>

lemma sizes_index [engine_simps]:
  "sizes (copy_index_pages ps e) = sizes e" "host_mirror (copy_index_pages ps e) = host_mirror e"
  by (simp_all add: copy_index_pages_def Let_def sizes_def)

lemma recall_pages_sizes:
  assumes "page_inv e"
  shows "sizes (snd (recall_global_pages locs e)) = sizes e
    \<and> host_mirror (snd (recall_global_pages locs e)) = host_mirror e"
  using assms
proof (cases rule: recall_global_pages_cases [where locs = locs])
  case (raised x e1)
  with p_place_kept [OF assms raised(1) missing_pages_selected(1)] show ?thesis by (simp add: kept_def)
next
  case (recalled np e1 n e2)
  with p_place_kept [OF assms recalled(1) missing_pages_selected(1)] show ?thesis
    by (auto simp: engine_simps kept_def)
qed simp

lemma global_recall_sizes:
  assumes "chunk_inv e"
  shows "sizes (snd (recall_global locs e)) = sizes e
    \<and> host_mirror (snd (recall_global locs e)) = host_mirror e"
  using assms
proof (cases rule: recall_global_cases [where locs = locs])
  case (raised x e1)
  with g_alloc_post(1) [OF assms missing_chunks_selected(2,1) raised(1)] show ?thesis
    by (simp add: kept_chunks_def)
next
  case (recalled ps e1)
  with g_alloc_post(1) [OF assms missing_chunks_selected(2,1) recalled(1)] show ?thesis
    by (simp add: engine_simps kept_chunks_def)
qed simp

lemma sizes_update [engine_simps]:
  "sizes (e\<lparr>pool_buf := x0\<rparr>) = sizes e"
  "sizes (e\<lparr>host_mirror := x1\<rparr>) = sizes e"
  "sizes (e\<lparr>chunk_cell_lut := x2\<rparr>) = sizes e"
  "sizes (e\<lparr>chunk_to_cell := x3\<rparr>) = sizes e"
  "sizes (e\<lparr>next_cell := x4\<rparr>) = sizes e"
  "sizes (e\<lparr>free_cells := x5\<rparr>) = sizes e"
  "sizes (e\<lparr>g_chunk_to_cell := x6\<rparr>) = sizes e"
  "sizes (e\<lparr>g_next_cell := x7\<rparr>) = sizes e"
  "sizes (e\<lparr>g_free_cells := x8\<rparr>) = sizes e"
  "sizes (e\<lparr>g_orphan_miss := x9\<rparr>) = sizes e"
  "sizes (e\<lparr>g_full := x10\<rparr>) = sizes e"
  "sizes (e\<lparr>req_owned_pages := x11\<rparr>) = sizes e"
  "sizes (e\<lparr>g_page_to_block := x12\<rparr>) = sizes e"
  "sizes (e\<lparr>g_next_block := x13\<rparr>) = sizes e"
  "sizes (e\<lparr>g_free_blocks := x14\<rparr>) = sizes e"
  "sizes (e\<lparr>prefill_chunks_t := x15\<rparr>) = sizes e"
  "sizes (e\<lparr>decode_slot_t := x16\<rparr>) = sizes e"
  "sizes (e\<lparr>max_req_pool := x17\<rparr>) = sizes e"
  "sizes (e\<lparr>decode_t_ready := x18\<rparr>) = sizes e"
  "sizes (e\<lparr>next_decode_slot := x19\<rparr>) = sizes e"
  "sizes (e\<lparr>remap_sel_acc := x20\<rparr>) = sizes e"
  "sizes (e\<lparr>remap_res_acc := x21\<rparr>) = sizes e"
  "sizes (e\<lparr>ds_formed_acc := x22\<rparr>) = sizes e"
  "sizes (e\<lparr>ds_valid_acc := x23\<rparr>) = sizes e"
  "sizes (e\<lparr>index_k_offload := x24\<rparr>) = sizes e"
  "sizes (e\<lparr>index_page_bytes := x25\<rparr>) = sizes e"
  "sizes (e\<lparr>index_host_mirror := x26\<rparr>) = sizes e"
  "sizes (e\<lparr>index_reserve_buf := x27\<rparr>) = sizes e"
  "sizes (e\<lparr>index_recall_blocks := x28\<rparr>) = sizes e"
  "sizes (e\<lparr>index_total_blocks := x29\<rparr>) = sizes e"
  "sizes (e\<lparr>index_decode_dropped := x30\<rparr>) = sizes e"
  by (simp_all add: sizes_def)

lemma register_sizes: "sizes (register_decode_req ri pc n e) = sizes e"
  by (simp add: register_decode_req_def ensure_decode_tensors_def Let_def engine_simps)

lemma stats_sizes:
  "sizes (snd (remap_compressed_locs e l locs)) = sizes e"
  "sizes (snd (get_and_reset_remap_miss e)) = sizes e"
  by (simp_all add: remap_compressed_locs_def get_and_reset_remap_miss_def Let_def engine_simps)

lemma discard_sizes:
  "sizes (snd (discard_copied_pages pages e)) = sizes e"
  "sizes (snd (ingest_transferred_history pages e)) = sizes e"
  by (simp_all add: discard_copied_pages_def ingest_transferred_history_def Let_def engine_simps)

lemma record_sizes: "sizes (record_owned_pages ri sel e) = sizes e"
  by (simp add: record_owned_pages_def Let_def engine_simps split: option.split)

lemma reset_sizes:
  "sizes (reset_recall_state e) = sizes e"
  "sizes (attach_index_k_offload page_bytes full_layers e) = sizes e"
  by (simp_all add: reset_recall_state_def attach_index_k_offload_def Let_def engine_simps)

lemma store_prefill_sizes: "sizes (snd (store_prefill_to_mirror l loc p e)) = sizes e"
  by (simp add: store_prefill_to_mirror_def Let_def engine_simps split: sum.split prod.split)

lemma store_index_sizes: "sizes (snd (store_index_decode_to_reserve l locs ks e)) = sizes e"
  by (simp add: store_index_decode_to_reserve_def Let_def engine_simps split: option.split sum.split prod.split)

lemmas other_sizes = register_sizes stats_sizes discard_sizes record_sizes reset_sizes
  store_prefill_sizes store_index_sizes

lemma store_decode_sizes: "sizes (snd (store_decode_to_reserve l rows p e)) = sizes e"
proof (cases "decode_t_ready e")
  case True
  from store_decode_effect(1) [OF this] show ?thesis by (rule alloc_state_sizes)
qed (simp add: store_decode_to_reserve_def)

lemma release_sizes:
  "sizes (snd (release_req_pool_locs locs e)) = sizes e"
  "sizes (snd (release_owned_pages ri e)) = sizes e"
  "sizes (snd (reclaim_orphans_global live n e)) = sizes e"
  by (simp add: release_req_pool_locs_def Let_def engine_simps split: prod.split)
    (simp add: release_owned_pages_def Let_def engine_simps split: option.split prod.split,
     simp add: reclaim_orphans_global_def Let_def engine_simps split: prod.split)


subsection \<open>The contract of a mode\<close>

locale swap_path = cell_owner owner slots
  for owner :: "engine \<Rightarrow> nat \<Rightarrow> int \<Rightarrow> int option" and slots :: "engine \<Rightarrow> bool" +
  fixes mode :: "engine \<Rightarrow> bool"
  assumes mode_sizes: "sizes e' = sizes e \<Longrightarrow> mode e' = mode e"
    and recall_sizes: "mode e \<Longrightarrow> path_inv owner slots e \<Longrightarrow>
      sizes (snd (recall_resident_global locs e)) = sizes e"
    and recall_keeps: "mode e \<Longrightarrow> path_inv owner slots e \<Longrightarrow>
      path_inv owner slots (snd (recall_resident_global locs e))"
    and recall_chunks_sizes: "mode e \<Longrightarrow> \<not> page_recall e \<Longrightarrow> path_inv owner slots e \<Longrightarrow>
      sizes (snd (recall_chunks l locs e)) = sizes e"
    and recall_chunks_keeps: "mode e \<Longrightarrow> \<not> page_recall e \<Longrightarrow> path_inv owner slots e \<Longrightarrow>
      path_inv owner slots (snd (recall_chunks l locs e))"
    and release_keeps: "mode e \<Longrightarrow> path_inv owner slots e \<Longrightarrow>
      path_inv owner slots (snd (release_req_pool_locs locs e))"
    and release_owned_keeps: "mode e \<Longrightarrow> path_inv owner slots e \<Longrightarrow>
      path_inv owner slots (snd (release_owned_pages ri e))"
    and reclaim_keeps: "mode e \<Longrightarrow> path_inv owner slots e \<Longrightarrow>
      path_inv owner slots (snd (reclaim_orphans_global live n e))"
    and reset_keeps: "cfg_ok e \<Longrightarrow> path_inv owner slots (reset_recall_state e)"
begin

lemma step_sizes:
  assumes "engine_step e e'" "mode e" "inv e"
  shows "sizes e' = sizes e"
  using assms
  by (induction rule: engine_step.induct)
    (simp_all add: recall_sizes recall_chunks_sizes other_sizes store_decode_sizes release_sizes sizes_update)

lemma step_inv:
  assumes "engine_step e e'" "mode e" "inv e"
  shows "inv e'"
  using assms
proof (induction rule: engine_step.induct)
  case (step_stats e)
  show ?case by (rule inv_irrelevant [OF step_stats(2)])
      (simp_all add: get_and_reset_remap_miss_def alloc_state_def sizes_def reserve_buf_def)
next
  case (step_record e ri sel)
  show ?case by (rule inv_irrelevant [OF step_record(2)])
      (simp_all add: record_owned_pages_def alloc_state_def sizes_def reserve_buf_def Let_def split: option.split)
next
  case (step_attach e page_bytes full_layers)
  show ?case by (rule inv_irrelevant [OF step_attach(2)])
      (simp_all add: attach_index_k_offload_def alloc_state_def sizes_def reserve_buf_def Let_def)
next
  case (step_reset e)
  then show ?case by (intro reset_keeps) (simp add: path_inv_def)
qed (simp_all add: recall_keeps recall_chunks_keeps inv_store_prefill inv_register inv_store_decode_to_reserve inv_remap inv_discard
    inv_transfer inv_ingest release_keeps release_owned_keeps reclaim_keeps inv_store_index)

lemma run_inv:
  assumes "engine_run e e'" "mode e" "inv e"
  shows "inv e' \<and> mode e' \<and> sizes e' = sizes e"
  using assms
proof (induction rule: engine_run.induct)
  case (run_step e e1 e2)
  then have e1: "inv e1" "mode e1" "sizes e1 = sizes e" by auto
  with step_inv [OF run_step(2)] step_sizes [OF run_step(2)] mode_sizes [of e2 e1] show ?case by simp
qed simp

lemma run_read:
  assumes "engine_run e e'" "mode e" "inv e" "0 \<le> c" "c < n_logical_pages e * 64"
    and "0 \<le> remap_loc e' l c" "remap_loc e' l c < decode_base e"
  shows "chunk_bytes (row_bytes e) (reserve_buf e' l) (remap_loc e' l c)
       = chunk_bytes (row_bytes e) (host_mirror e' l) c"
proof -
  from run_inv [OF assms(1-3)] have i: "inv e'" "sizes e' = sizes e" by simp_all
  from read_mirror [OF i(1) assms(4) _ refl assms(6)] assms(5,7) same_sizes [OF i(2)] show ?thesis by simp
qed

lemma run_apart:
  assumes "engine_run e e'" "mode e" "inv e" "resident e' l c" "resident e' l d" "c \<noteq> d"
  shows "chunk_cell_lut e' l c \<noteq> chunk_cell_lut e' l d"
  using run_inv [OF assms(1-3)] cells_apart assms(4-6) by blast

end

lemma page_reclaim_keeps:
  assumes "page_inv e"
  shows "page_inv (snd (reclaim_orphans_global live n e))"
proof -
  let ?e = "snd (reclaim_orphans_global live n e)"
  have books: "g_page_to_block ?e = g_page_to_block e" "g_next_block ?e = g_next_block e" "g_free_blocks ?e = g_free_blocks e"
    "host_mirror ?e = host_mirror e" "reserve_buf ?e = reserve_buf e"
    by (simp_all add: reclaim_orphans_global_def lut_clear_all_def reserve_buf_def Let_def split: prod.split)
  have lut: "\<exists>cols. chunk_cell_lut ?e = (\<lambda>l. fill cols (- 1) (chunk_cell_lut e l))"
  proof -
    have "chunk_cell_lut e = (\<lambda>l. fill [] (- 1) (chunk_cell_lut e l))" by (simp add: fill_def)
    then show ?thesis
      by (auto simp: reclaim_orphans_global_def Let_def lut_clear_all_def split: prod.split)
  qed
  then obtain cols where lut: "\<And>l. chunk_cell_lut ?e l = fill cols (- 1) (chunk_cell_lut e l)" by auto
  note sz = release_sizes(3) [of live n e]
  have "page_slots ?e"
    using assms unfolding page_slots_def books same_sizes(9) [OF sz] by (simp add: path_inv_def page_slots_def)
  then show ?thesis
  proof (rule page_step [OF assms sz])
    fix l c assume "resident ?e l c"
    then have "0 \<le> chunk_cell_lut ?e l c" by (simp only: resident_def)
    then show "chunk_cell_lut ?e l c = chunk_cell_lut e l c" unfolding lut by (rule page.fill_resident)
  qed (simp_all only: books)
qed

interpretation page_path: swap_path page_owner page_slots page_recall
proof (unfold_locales, goal_cases)
  case (1 e' e)
  then show ?case by (rule same_sizes)
qed (simp_all add: recall_resident_global_def recall_pages_sizes recall_global_pages_keeps release_req_pages_keeps
    release_owned_keeps page_reclaim_keeps reset_keeps)

interpretation chunk_path: swap_path chunk_owner chunk_slots "\<lambda>e. \<not> page_recall e \<and> global_mode e"
proof (unfold_locales, goal_cases)
  case (1 e' e)
  from same_sizes(16,17) [OF 1] show ?case by simp
next
  case (7 e ri)
  then show ?case by (simp add: release_owned_pages_def)
qed (simp_all add: recall_resident_global_def recall_chunks_def global_recall_sizes recall_global_keeps release_req_chunks_keeps
    reclaim_orphans_keeps chunk_reset_keeps)

end
