(* ===== verification/SwapProps.thy ===== *)
theory SwapProps
  imports SwapRun
begin

section \<open>What the swap engine guarantees\<close>

text \<open>
  The properties of the swap engine that its callers rely on, stated over the operations as the
  code composes them, from the engine the constructor returns. Each has a witness on a small
  engine: two layers, four logical pages, a reserve of two pages of its own and one decode slot
  of one chunk.
\<close>

definition small_env :: "bool \<Rightarrow> envs" where
  "small_env paged = \<lparr>env_cudagraph = True, env_page_recall = paged, env_lut_truth = True,
     env_owner_release = False, env_dbg_remap_miss = False, env_poison = False, env_localfix = False,
     env_capfix_off = False, env_decode_resident_chunks = 1, env_decode_max_conc = 1\<rparr>"

definition small_engine :: "bool \<Rightarrow> engine" where
  "small_engine paged = init_engine (small_env paged) (\<lambda>_ _. 0) 4 4 2 448 64 2"

lemma init_fields:
  fixes env :: envs and pool :: "nat \<Rightarrow> buf" and pool_rows n nope rope res :: int and layers :: nat
  defines "e \<equiv> init_engine env pool pool_rows n layers nope rope res"
  shows "chunk_cell_lut e = (\<lambda>_ _. - 1)" "g_page_to_block e = []" "g_next_block e = 0" "g_free_blocks e = []"
    and "g_chunk_to_cell e = []" "g_next_cell e = 0" "g_free_cells e = []" "n_logical_pages e = n"
    and "page_recall e = env_page_recall env" "global_mode e = env_cudagraph env" "lut_truth e = env_lut_truth env"
    and "g_full e = None" "chunk_to_cell e = (\<lambda>_. [])" "next_cell e = (\<lambda>_. 0)" "free_cells e = (\<lambda>_. [])"
  by (simp_all add: e_def init_engine_def ensure_decode_tensors_def Let_def)

lemma init_inv:
  assumes "cfg_ok (init_engine env pool pool_rows n layers nope rope res)" (is "cfg_ok ?e")
  shows "page_inv ?e" "chunk_inv ?e" "eager_inv ?e"
proof -
  have "0 \<le> recall_cell_capacity ?e"
    using decode_base_bounds(1) [OF assms] by (simp add: recall_cell_capacity_def)
  then show "page_inv ?e" "chunk_inv ?e" "eager_inv ?e"
    using assms by (simp_all add: path_inv_def owned_def coherent_def resident_def page_slots_def
        chunk_slots_def eager_slots_def init_fields)
qed

lemmas small_defs = small_engine_def small_env_def init_engine_def ensure_decode_tensors_def Let_def

lemma small_engine_fields [simp]:
  "cfg_ok (small_engine b)" "n_logical_pages (small_engine b) = 4" "decode_base (small_engine b) = 126"
  "recall_cell_capacity (small_engine b) = 126" "own_reserve (small_engine b)" "lut_cols (small_engine b) = 257"
  "chunk_cell_lut (small_engine b) = (\<lambda>_ _. - 1)" "page_recall (small_engine b) = b"
  "global_mode (small_engine b)" "lut_truth (small_engine b)" "g_full (small_engine b) = None"
  "g_page_to_block (small_engine b) = []" "g_next_block (small_engine b) = 0" "g_free_blocks (small_engine b) = []"
  by (simp_all add: small_defs cfg_ok_def size_defs row_bytes_of_def)

lemma resident_remap:
  assumes "resident e l c"
  shows "remap_loc e l c = chunk_cell_lut e l c" "0 \<le> remap_loc e l c" "remap_loc e l c < decode_base e"
  using assms by (auto simp: remap_loc_def Let_def resident_def clamp_col_def lut_cols_def)

lemma small_engine_inv: "page_inv (small_engine b)" "chunk_inv (small_engine b)"
  using init_inv(1,2) small_engine_fields(1) [of b] by (simp_all add: small_engine_def)


subsection \<open>Reads\<close>

text \<open>The read guarantee of both global modes.\<close>

lemma run_reads:
  assumes "e0 = init_engine env pool pool_rows n layers nope rope res" "env_page_recall env \<or> env_cudagraph env" "cfg_ok e0" "engine_run e0 e"
  shows "sizes e = sizes e0"
    and "0 \<le> c \<Longrightarrow> c < n * 64 \<Longrightarrow> 0 \<le> remap_loc e l c \<Longrightarrow> remap_loc e l c < decode_base e \<Longrightarrow>
      chunk_bytes (row_bytes e) (reserve_buf e l) (remap_loc e l c) = chunk_bytes (row_bytes e) (host_mirror e l) c"
proof -
  note f = init_fields [of env pool pool_rows n layers nope rope res, folded assms(1)]
  note inv = init_inv [of env pool pool_rows n layers nope rope res, folded assms(1), OF assms(3)]
  consider (page) "page_recall e0" | (chunk) "\<not> page_recall e0 \<and> global_mode e0" using assms(2) by (auto simp: f)
  then have both: "sizes e = sizes e0 \<and> (0 \<le> c \<longrightarrow> c < n_logical_pages e0 * 64 \<longrightarrow> 0 \<le> remap_loc e l c \<longrightarrow> remap_loc e l c < decode_base e0 \<longrightarrow>
      chunk_bytes (row_bytes e0) (reserve_buf e l) (remap_loc e l c) = chunk_bytes (row_bytes e0) (host_mirror e l) c)"
    using page_path.run_inv [OF assms(4) _ inv(1)] page_path.run_read [OF assms(4) _ inv(1)]
      chunk_path.run_inv [OF assms(4) _ inv(2)] chunk_path.run_read [OF assms(4) _ inv(2)] by cases blast+
  then show sz: "sizes e = sizes e0" by blast
  show "chunk_bytes (row_bytes e) (reserve_buf e l) (remap_loc e l c) = chunk_bytes (row_bytes e) (host_mirror e l) c"
    if "0 \<le> c" "c < n * 64" "0 \<le> remap_loc e l c" "remap_loc e l c < decode_base e"
    using both that by (simp add: same_sizes [OF sz] f)
qed

text \<open>C3: In the page-granular mode, after any sequence of calls on a fresh engine other than
  \<open>recall_chunks\<close>, failed recalls included, a history chunk that \<open>remap_compressed_locs\<close> sends to a
  cell of the recall region is read from that cell with exactly the bytes the host mirror holds for
  it, in every layer. \<open>recall_chunks\<close> is what the attention of an extend forward calls; in this mode
  the guarantee does not survive it (\<open>prefill_recall_collides\<close>), so this is a guarantee for a server
  that only decodes, its prompts transferred or stored to the mirror. The prefill stores of the
  sequence name chunks of the logical pool, and the debugging switch \<open>SGLANG_SWAP_P_POISON\<close> is off
  unless the engine has its own reserve.\<close>

theorem page_mode_reads:
  assumes "env_page_recall env" "cfg_ok (init_engine env pool pool_rows n layers nope rope res)"
    and "engine_run (init_engine env pool pool_rows n layers nope rope res) e"
    and "0 \<le> c" "c < n * 64" "0 \<le> remap_loc e l c" "remap_loc e l c < decode_base e"
  shows "chunk_bytes (row_bytes e) (reserve_buf e l) (remap_loc e l c)
       = chunk_bytes (row_bytes e) (host_mirror e l) c"
proof -
  let ?e0 = "init_engine env pool pool_rows n layers nope rope res"
  have m: "page_recall ?e0" using assms(1) by (simp add: init_fields)
  have "sizes e = sizes ?e0" using page_path.run_inv [OF assms(3) m init_inv(1) [OF assms(2)]] by blast
  note sz = same_sizes [OF this]
  from page_path.run_read [OF assms(3) m init_inv(1) [OF assms(2)] assms(4) _ assms(6)] assms(5,7)
  show ?thesis by (simp add: sz init_fields)
qed

text \<open>The small engine after a recall of chunk 5.\<close>

definition small_recalled :: "bool \<Rightarrow> engine" where
  "small_recalled paged = snd (recall_resident_global [5] (small_engine paged))"

lemma small_recall:
  "engine_run (small_engine b) (small_recalled b)"
  "0 \<le> remap_loc (small_recalled b) l 5" "remap_loc (small_recalled b) l 5 < decode_base (small_recalled b)"
proof -
  show "engine_run (small_engine b) (small_recalled b)"
    unfolding small_recalled_def by (intro run_step [OF run_refl] step_recall)
  obtain res e' where r: "recall_resident_global [5] (small_engine b) = (res, e')" by fastforce
  have "resident e' l 5 \<and> sizes e' = sizes (small_engine b)"
  proof (cases b)
    case True
    with r have p: "recall_global_pages [5] (small_engine True) = (res, e')" by (simp add: recall_resident_global_def)
    have "missing_pages (small_engine True) [5] = [0]" "selected_pages [5] = [0]"
      by (simp_all add: missing_pages_def selected_pages_def unique_def)
    with recall_complete(2,4) [OF small_engine_inv(1) _ _ p] True show ?thesis by simp
  next
    case False
    with r have p: "recall_global [5] (small_engine False) = (res, e')" by (simp add: recall_resident_global_def)
    have "missing_chunks (small_engine False) [5] = [5]" "selected_chunks [5] = [5]"
      by (simp_all add: missing_chunks_def selected_chunks_def unique_def)
    with recall_global_complete(2) [OF small_engine_inv(2) _ p] global_recall_sizes [OF small_engine_inv(2) [of False], of "[5]"]
    show ?thesis using False p by simp
  qed
  then have "remap_loc e' l 5 = chunk_cell_lut e' l 5" "resident e' l 5"
    using same_sizes(7) [of e' "small_engine b"]
    by (auto simp: remap_loc_def Let_def resident_def clamp_col_def)
  then show "0 \<le> remap_loc (small_recalled b) l 5"
    and "remap_loc (small_recalled b) l 5 < decode_base (small_recalled b)"
    using r by (simp_all add: small_recalled_def resident_def)
qed

theorem page_mode_reads_witness:
  "chunk_bytes (row_bytes (small_recalled True)) (reserve_buf (small_recalled True) 1)
     (remap_loc (small_recalled True) 1 5)
   = chunk_bytes (row_bytes (small_recalled True)) (host_mirror (small_recalled True) 1) 5"
  by (rule page_mode_reads [where n = 4, OF _ small_engine_fields(1) [of True, unfolded small_engine_def]
        small_recall(1) [of True, unfolded small_engine_def] _ _ small_recall(2,3)])
    (simp_all add: small_env_def)


text \<open>C4: In the chunk-granular global mode, after any sequence of calls on a fresh engine, failed
  recalls, batch evictions and the recalls of extend forwards included, a history chunk remapped to a
  cell of the recall region is read from that cell with exactly the bytes the host mirror holds for
  it, in every layer. The prefill stores of the sequence name chunks of the logical pool, and the
  debugging switch \<open>SGLANG_SWAP_P_POISON\<close> is off unless the engine has its own reserve.\<close>

theorem chunk_mode_reads:
  assumes "\<not> env_page_recall env" "env_cudagraph env"
    and "cfg_ok (init_engine env pool pool_rows n layers nope rope res)"
    and "engine_run (init_engine env pool pool_rows n layers nope rope res) e"
    and "0 \<le> c" "c < n * 64" "0 \<le> remap_loc e l c" "remap_loc e l c < decode_base e"
  shows "chunk_bytes (row_bytes e) (reserve_buf e l) (remap_loc e l c)
       = chunk_bytes (row_bytes e) (host_mirror e l) c"
proof -
  let ?e0 = "init_engine env pool pool_rows n layers nope rope res"
  have m: "\<not> page_recall ?e0 \<and> global_mode ?e0" using assms(1,2) by (simp add: init_fields)
  have "sizes e = sizes ?e0" using chunk_path.run_inv [OF assms(4) m init_inv(2) [OF assms(3)]] by blast
  note sz = same_sizes [OF this]
  from chunk_path.run_read [OF assms(4) m init_inv(2) [OF assms(3)] assms(5) _ assms(7)] assms(6,8)
  show ?thesis by (simp add: sz init_fields)
qed

theorem chunk_mode_reads_witness:
  "chunk_bytes (row_bytes (small_recalled False)) (reserve_buf (small_recalled False) 1)
     (remap_loc (small_recalled False) 1 5)
   = chunk_bytes (row_bytes (small_recalled False)) (host_mirror (small_recalled False) 1) 5"
  by (rule chunk_mode_reads [where n = 4, OF _ _ small_engine_fields(1) [of False, unfolded small_engine_def]
        small_recall(1) [of False, unfolded small_engine_def] _ _ small_recall(2,3)])
    (simp_all add: small_env_def)

text \<open>In the page-granular mode two chunks that a layer maps to the recall region never share a
  cell, after any sequence of calls on a fresh engine.\<close>

theorem page_mode_cells_apart:
  assumes "env_page_recall env" "cfg_ok (init_engine env pool pool_rows n layers nope rope res)"
    and "engine_run (init_engine env pool pool_rows n layers nope rope res) e"
    and "resident e l c" "resident e l d" "c \<noteq> d"
  shows "chunk_cell_lut e l c \<noteq> chunk_cell_lut e l d"
  using page_path.run_apart [OF assms(3) _ init_inv(1) [OF assms(2)] assms(4-6)] assms(1)
  by (simp add: init_fields)

lemma small_resident: "c div 64 = 0 \<Longrightarrow> resident (small_recalled True) l c"
proof -
  assume c: "c div 64 = 0"
  obtain res e' where p: "recall_global_pages [5] (small_engine True) = (res, e')" by fastforce
  have "missing_pages (small_engine True) [5] = [0]" "selected_pages [5] = [0]"
    by (simp_all add: missing_pages_def selected_pages_def unique_def)
  moreover have "c < 256" using c by simp
  ultimately show ?thesis
    using recall_complete(4) [OF small_engine_inv(1) _ _ p, of c l] c
    by (simp add: small_recalled_def recall_resident_global_def p)
qed

theorem page_mode_cells_apart_witness:
  "chunk_cell_lut (small_recalled True) 0 5 \<noteq> chunk_cell_lut (small_recalled True) 0 6"
  by (rule page_mode_cells_apart [OF _ small_engine_fields(1) [of True, unfolded small_engine_def]
        small_recall(1) [of True, unfolded small_engine_def]])
    (simp_all add: small_env_def small_resident)


subsection \<open>Recalls\<close>

lemma recall_readable:
  assumes "page_inv e" "lut_truth e" "length (selected_pages locs) \<le> nat (recall_cell_capacity e div 64)"
    and "recall_global_pages locs e = (res, e')"
    and "c div 64 \<in> set (missing_pages e locs)" "c < n_logical_pages e * 64" "own_reserve e \<longrightarrow> chunk_cell_lut e 0 c < decode_base e"
  shows "0 \<le> remap_loc e' l c" "remap_loc e' l c < decode_base e"
    and "chunk_bytes (row_bytes e) (reserve_buf e' l) (remap_loc e' l c) = chunk_bytes (row_bytes e) (host_mirror e l) c"
proof -
  note rc = recall_complete [OF assms(1-4)]
  have m: "host_mirror e' = host_mirror e" using recall_pages_sizes [OF assms(1), of locs] assms(4) by simp
  have r: "resident e' l c" using rc(4) assms(5-7) by blast
  note v = resident_remap [OF r] and sz = same_sizes [OF rc(2)]
  show "0 \<le> remap_loc e' l c" "remap_loc e' l c < decode_base e" using v by (simp_all add: sz)
  show "chunk_bytes (row_bytes e) (reserve_buf e' l) (remap_loc e' l c) = chunk_bytes (row_bytes e) (host_mirror e l) c"
    using page.read_mirror [OF rc(3) _ _ refl, of c l] r v by (simp add: sz m resident_def)
qed

text \<open>C7: When the table is the authority (\<open>_lut_truth\<close>) and the pages of the selection fit the
  recall region, \<open>_recall_global_pages\<close> does not raise, and afterwards every chunk of every page
  that was missing is readable in every layer with the mirror's bytes; only chunks whose cell is a
  decode-resident one keep it.\<close>

theorem page_recall_complete:
  assumes "page_inv e" "lut_truth e" "recall_global_pages locs e = (res, e')"
    and "length (selected_pages locs) \<le> nat (recall_cell_capacity e div 64)"
  shows "(\<exists>n. res = Inr n) \<and>
    (\<forall>l c. c div 64 \<in> set (missing_pages e locs) \<and> c < n_logical_pages e * 64
        \<and> (own_reserve e \<longrightarrow> chunk_cell_lut e 0 c < decode_base e) \<longrightarrow>
      0 \<le> remap_loc e' l c \<and> remap_loc e' l c < decode_base e
      \<and> chunk_bytes (row_bytes e) (reserve_buf e' l) (remap_loc e' l c)
          = chunk_bytes (row_bytes e) (host_mirror e l) c)"
proof (intro conjI allI impI)
  show "\<exists>n. res = Inr n" by (rule recall_complete(1) [OF assms(1,2,4,3)])
  fix l c assume "c div 64 \<in> set (missing_pages e locs) \<and> c < n_logical_pages e * 64
        \<and> (own_reserve e \<longrightarrow> chunk_cell_lut e 0 c < decode_base e)"
  then have c: "c div 64 \<in> set (missing_pages e locs)" "c < n_logical_pages e * 64"
    "own_reserve e \<longrightarrow> chunk_cell_lut e 0 c < decode_base e" by blast+
  note r = recall_readable [OF assms(1,2,4,3) c]
  show "0 \<le> remap_loc e' l c" "remap_loc e' l c < decode_base e" by (rule r)+
  show "chunk_bytes (row_bytes e) (reserve_buf e' l) (remap_loc e' l c)
      = chunk_bytes (row_bytes e) (host_mirror e l) c" by (rule r)
qed

lemma small_page_recall:
  "missing_pages (small_engine b) [5] = [0]" "selected_pages [5] = [0]"
  "missing_chunks (small_engine b) [5] = [5]" "selected_chunks [5] = [5]"
  by (simp_all add: missing_pages_def selected_pages_def missing_chunks_def selected_chunks_def unique_def)

theorem page_recall_complete_witness:
  "\<exists>n. fst (recall_global_pages [5] (small_engine True)) = Inr n"
  by (rule conjunct1 [OF page_recall_complete [OF small_engine_inv(1) [of True] _ prod.collapse [symmetric]]])
    (simp_all add: small_page_recall)

text \<open>C8: When the selected chunks fit the recall region, \<open>_recall_global\<close> does not raise, and
  afterwards every selected chunk that layer 0 did not map is readable in every layer with the
  mirror's bytes.\<close>

theorem chunk_recall_complete:
  assumes "chunk_inv e" "recall_global locs e = (res, e')"
    and "length (selected_chunks locs) \<le> nat (recall_cell_capacity e)"
  shows "(\<exists>n. res = Inr n) \<and>
    (\<forall>l. \<forall>c \<in> set (missing_chunks e locs). c < n_logical_pages e * 64 \<longrightarrow>
      0 \<le> remap_loc e' l c \<and> remap_loc e' l c < decode_base e
      \<and> chunk_bytes (row_bytes e) (reserve_buf e' l) (remap_loc e' l c)
          = chunk_bytes (row_bytes e) (host_mirror e l) c)"
proof (intro conjI allI ballI impI)
  note rc = recall_global_complete [OF assms(1,3,2)]
  show "\<exists>n. res = Inr n" by (rule rc(1))
  have e': "sizes e' = sizes e" "host_mirror e' = host_mirror e" "chunk_inv e'"
    using global_recall_sizes [OF assms(1), of locs] recall_global_keeps [OF assms(1), of locs] assms(2) by simp_all
  fix l c assume "c \<in> set (missing_chunks e locs)" "c < n_logical_pages e * 64"
  then have r: "resident e' l c" by (rule rc(2))
  note v = resident_remap [OF r] and sz = same_sizes [OF e'(1)]
  show "0 \<le> remap_loc e' l c" "remap_loc e' l c < decode_base e" using v by (simp_all add: sz)
  show "chunk_bytes (row_bytes e) (reserve_buf e' l) (remap_loc e' l c)
      = chunk_bytes (row_bytes e) (host_mirror e l) c"
    using chunk.read_mirror [OF e'(3) _ _ refl, of c l] r v by (simp add: sz e'(2) resident_def)
qed

theorem chunk_recall_complete_witness:
  "0 \<le> remap_loc (snd (recall_global [5] (small_engine False))) 1 5"
proof -
  have "\<forall>l. \<forall>c \<in> set (missing_chunks (small_engine False) [5]). c < n_logical_pages (small_engine False) * 64 \<longrightarrow>
      0 \<le> remap_loc (snd (recall_global [5] (small_engine False))) l c"
    using chunk_recall_complete [OF small_engine_inv(2) [of False] prod.collapse [symmetric], of "[5]"]
    by (simp add: small_page_recall)
  then show ?thesis by (simp add: small_page_recall)
qed


text \<open>C36: A page recall never takes a block away from a page of its own selection: a selected page
  keeps the block it had, whatever the outcome.\<close>

theorem page_recall_protects_selection:
  assumes "page_inv e" "pg \<in> set (selected_pages locs)" "od_get (g_page_to_block e) pg = Some blk"
  shows "od_get (g_page_to_block (snd (recall_global_pages locs e))) pg = Some blk"
  using assms(1)
proof (cases rule: recall_global_pages_cases [where locs = locs])
  case nothing
  with assms(3) show ?thesis by simp
next
  case (raised x e1)
  with p_place_kept [OF assms(1) raised(1) missing_pages_selected(1)] assms(2,3) show ?thesis
    by (simp add: kept_def)
next
  case (recalled np e1 n e2)
  have "od_get (g_page_to_block e1) pg = Some blk"
    using p_place_kept [OF assms(1) recalled(1) missing_pages_selected(1)] assms(2,3) by (simp add: kept_def)
  moreover have "g_page_to_block e2 = g_page_to_block e1"
    using recalled(4) alloc_state_parts(7) [OF install_fields(1)] by (auto simp: copy_index_pages_def Let_def)
  ultimately show ?thesis using recalled(2) by simp
qed

definition small_owned :: engine where
  "small_owned = (small_engine True)\<lparr>g_page_to_block := [(0, 0)], g_next_block := 1\<rparr>"

lemma small_owned_inv: "page_inv small_owned"
proof -
  have sz: "sizes small_owned = sizes (small_engine True)" by (simp add: small_owned_def sizes_def)
  have "page_slots small_owned"
    unfolding page_slots_def same_sizes(9) [OF sz] by (auto simp: small_owned_def slots_ok_def)
  then show ?thesis
    by (rule page_step [OF small_engine_inv(1) [of True] sz])
      (simp_all add: small_owned_def reserve_buf_def resident_def)
qed

theorem page_recall_protects_selection_witness:
  "od_get (g_page_to_block (snd (recall_global_pages [5, 200] small_owned))) 0 = Some 0"
  by (rule page_recall_protects_selection [OF small_owned_inv])
    (simp_all add: selected_pages_def small_owned_def)

text \<open>\<open>_evict_one_page\<close> evicts the entry of the page map that has been there longest among those
  outside the selection, hands out its block, and unmaps all chunks of the page in every layer.\<close>

theorem evict_page_oldest:
  assumes "page_inv e" "evict_one_page prot e = (Some blk, e')"
  shows "\<exists>older v newer. g_page_to_block e = older @ (v, blk) # newer \<and> v \<notin> set prot
    \<and> fst ` set older \<subseteq> set prot \<and> g_page_to_block e' = older @ newer
    \<and> (\<forall>l c. c div 64 = v \<and> c < n_logical_pages e * 64 \<longrightarrow> chunk_cell_lut e' l c = - 1)
    \<and> n_evictions e' = n_evictions e + 1"
proof -
  from assms(2) obtain v where v: "first_unprotected prot (g_page_to_block e) = Some (v, blk)"
    and e': "e' = (lut_clear_all (map (clamp_col e) (page_chunks v)) e)
       \<lparr>g_page_to_block := od_pop v (g_page_to_block e), n_evictions := n_evictions e + 1\<rparr>"
    by (auto simp: evict_one_page_def split: option.splits)
  from first_unprotected_oldest [OF v] obtain us vs where d: "g_page_to_block e = us @ (v, blk) # vs"
    and us: "fst ` set us \<subseteq> set prot" by blast
  have s: "page_slots e" using assms(1) by (simp add: path_inv_def)
  have dist: "distinct (od_keys (us @ (v, blk) # vs))"
    using slots_okD(1) [OF page_slotsD(1) [OF s]] by (simp add: d)
  have "0 \<le> v" using page_slotsD(3) [OF s] by (simp add: d)
  have "od_pop v (us @ (v, blk) # vs) = us @ vs"
    using dist od_pop_absent [of v us] od_pop_absent [of v vs] by (simp add: od_pop_def od_mem_iff)
  moreover have "chunk_cell_lut e' l c = - 1" if "c div 64 = v" "c < n_logical_pages e * 64" for l c
  proof -
    have "0 \<le> c" using \<open>0 \<le> v\<close> that(1) by auto
    from clear_page_other [OF this that(2) \<open>0 \<le> v\<close>] that(1) show ?thesis
      by (simp add: e' engine_simps del: set_map)
  qed
  ultimately show ?thesis
    using us first_unprotected_Some(2) [OF v] d by (intro exI [of _ us] exI [of _ v] exI [of _ vs]) (auto simp: e')
qed

theorem evict_page_oldest_witness:
  "\<exists>older v newer. g_page_to_block small_owned = older @ (v, 0) # newer \<and> v \<notin> set [1]
    \<and> fst ` set older \<subseteq> set [1]
    \<and> g_page_to_block (snd (evict_one_page [1] small_owned)) = older @ newer
    \<and> (\<forall>l c. c div 64 = v \<and> c < n_logical_pages small_owned * 64 \<longrightarrow>
          chunk_cell_lut (snd (evict_one_page [1] small_owned)) l c = - 1)
    \<and> n_evictions (snd (evict_one_page [1] small_owned)) = n_evictions small_owned + 1"
proof (rule evict_page_oldest [OF small_owned_inv])
  have "fst (evict_one_page [1] small_owned) = Some 0"
    by (simp add: evict_one_page_def first_unprotected_def small_owned_def)
  then show "evict_one_page [1] small_owned = (Some 0, snd (evict_one_page [1] small_owned))"
    by (simp add: prod_eq_iff)
qed



subsection \<open>Error paths\<close>

text \<open>The loop of the page recall, when \<open>_g_full\<close> was never assigned, ends by raising or with every
  page placed.\<close>

lemma p_place_unset:
  assumes "page_inv e" "g_full e = None" "p_place prot pgs e = (r, e')"
    and "\<forall>pg \<in> set pgs. 0 \<le> pg \<and> pg \<in> set prot"
  shows "r = Inl AttributeError \<or> (\<exists>ps. r = Inr ps) \<and> (\<forall>pg \<in> set pgs. od_get (g_page_to_block e') pg \<noteq> None)"
  using assms
proof (induction pgs arbitrary: e r)
  case (Cons pg pgs)
  have pgs: "\<forall>pg \<in> set pgs. 0 \<le> pg \<and> pg \<in> set prot" "0 \<le> pg" "pg \<in> set prot" using Cons.prems(4) by simp_all
  have go: ?case if k: "page_inv e1" "g_full e1 = None" "od_get (g_page_to_block e1) pg \<noteq> None"
    and t: "p_place prot pgs e1 = (r', e')" and r: "r = r' \<or> r = emit (pg, blk) r'" for e1 r' blk
  proof -
    have "od_get (g_page_to_block e') pg \<noteq> None"
      using p_place_kept [OF k(1) t pgs(1)] k(3) pgs(3) by (simp add: kept_def)
    with Cons.IH [OF k(1,2) t pgs(1)] r show ?thesis by (auto simp: emit_def)
  qed
  from Cons.prems(1) pgs(2) Cons.prems(3) show ?case
  proof (cases rule: p_place_Cons)
    case (mapped blk r')
    have "page_inv (e\<lparr>g_page_to_block := od_move_to_end pg (g_page_to_block e)\<rparr>)"
      using kept_move [OF Cons.prems(1)] unfolding kept_def by blast
    from go [OF this _ _ mapped(2), of blk] mapped Cons.prems(2) show ?thesis
      by (simp add: od_simps split: if_splits)
  next
    case (place blk e1 r')
    then show ?thesis using Cons.prems(2) by (intro go [OF _ _ _ place(3)]) (auto simp: placed_def)
  next
    case full
    with Cons.prems(2) show ?thesis by simp
  qed
qed simp

text \<open>C37: \<open>_g_full\<close> is not assigned by the constructor, so a page selection larger than the recall
  region does not mask the pages that do not fit, as the code announces, but raises an
  \<open>AttributeError\<close>. The pages of the selection may be missing or have a block already; each is
  missing or has its first chunk in the recall region, so that none counts as present because its
  first chunk is a decode-resident one.\<close>

theorem page_recall_overflow_raises:
  assumes "page_inv e" "g_full e = None"
    and "\<forall>pg \<in> set (selected_pages locs). pg \<in> set (missing_pages e locs) \<or> resident e 0 (pg * 64)"
    and "nat (recall_cell_capacity e div 64) < length (selected_pages locs)"
  shows "fst (recall_global_pages locs e) = Inl AttributeError"
proof -
  have blk: "od_get (g_page_to_block e) pg \<noteq> None" if "pg \<in> set (selected_pages locs)" "pg \<notin> set (missing_pages e locs)" for pg
    using that assms(1,3) by (fastforce simp: path_inv_def owned_def page_owner_def)
  have few: False if x: "page_inv x" "sizes x = sizes e" "\<forall>pg \<in> set (selected_pages locs). od_get (g_page_to_block x) pg \<noteq> None" for x
  proof -
    have "length (selected_pages locs) = card (set (selected_pages locs))"
      by (simp add: distinct_card missing_pages_selected(3))
    also have "\<dots> \<le> card (set (od_keys (g_page_to_block x)))"
      using x(3) by (intro card_mono) (auto simp: map_of_eq_None_iff)
    also have "\<dots> \<le> length (g_page_to_block x)" using card_length [of "od_keys (g_page_to_block x)"] by simp
    also have "\<dots> \<le> nat (recall_cell_capacity x div 64)"
      using x(1) by (intro slots_length [OF page_slotsD(1)]) (simp add: path_inv_def)
    finally show False using assms(4) same_sizes(9) [OF x(2)] by simp
  qed
  from assms(1) show ?thesis
  proof (cases rule: recall_global_pages_cases [where locs = locs])
    case nothing
    with few [OF assms(1) refl] blk show ?thesis by simp
  next
    case (raised x e1)
    with p_place_unset [OF assms(1,2) raised(1) missing_pages_selected(1)] show ?thesis by simp
  next
    case (recalled np e1 n e2)
    have k: "kept (selected_pages locs) e e1" by (rule p_place_kept [OF assms(1) recalled(1) missing_pages_selected(1)])
    have "od_get (g_page_to_block e1) pg \<noteq> None" if "pg \<in> set (selected_pages locs)" for pg
      using p_place_unset [OF assms(1,2) recalled(1) missing_pages_selected(1)] k blk [OF that] that
      by (cases "pg \<in> set (missing_pages e locs)") (auto simp: kept_def)
    with few [of e1] k show ?thesis by (simp add: kept_def)
  qed
qed

text \<open>Page 0 has the only block of the recall region, and its chunks are mapped.\<close>

definition small_mapped :: engine where
  "small_mapped = small_owned\<lparr>chunk_cell_lut := (\<lambda>l c. if 0 \<le> c \<and> c < 64 then c else - 1)\<rparr>"

lemma small_mapped_inv: "page_inv small_mapped"
proof -
  have sz: "sizes small_mapped = sizes small_owned" by (simp add: small_mapped_def sizes_def)
  have z: "reserve_buf small_mapped l = (\<lambda>_. 0)" "host_mirror small_mapped l = (\<lambda>_. 0)" for l
    by (simp_all add: small_mapped_def small_owned_def small_defs reserve_buf_def)
  have "coherent small_mapped" by (simp add: coherent_def chunk_bytes_def z map_replicate_const int_range_def)
  moreover have "owned page_owner small_mapped"
    by (auto simp: owned_def resident_def page_owner_def small_mapped_def small_owned_def)
  moreover have "page_slots small_mapped"
    using small_owned_inv same_sizes(9) [OF sz] by (simp add: path_inv_def page_slots_def) (simp add: small_mapped_def)
  ultimately show ?thesis
    using small_owned_inv same_sizes [OF sz] by (simp add: path_inv_def cfg_ok_def)
qed

theorem page_recall_overflow_raises_witness:
  "resident small_mapped 0 0 \<and> fst (recall_global_pages [5, 64] small_mapped) = Inl AttributeError"
proof -
  have sz: "sizes small_mapped = sizes (small_engine True)" by (simp add: small_mapped_def small_owned_def sizes_def)
  have r: "resident small_mapped 0 0" "g_full small_mapped = None" "chunk_cell_lut small_mapped 0 64 = - 1"
    by (simp_all add: resident_def same_sizes [OF sz]) (simp_all add: small_mapped_def small_owned_def)
  then have "\<forall>pg \<in> set (selected_pages [5, 64]). pg \<in> set (missing_pages small_mapped [5, 64]) \<or> resident small_mapped 0 (pg * 64)"
    by (auto simp: missing_pages_def selected_pages_def unique_def clamp_col_def lut_cols_def same_sizes [OF sz])
  from page_recall_overflow_raises [OF small_mapped_inv r(2) this] r(1) show ?thesis
    by (simp add: same_sizes [OF sz] selected_pages_def unique_def)
qed

text \<open>In the global modes the miss check reads layer 0 alone. A prefill store to another layer
  unmaps its chunks in that layer only, so a chunk that layer 0 still maps is not recalled again,
  and that layer keeps masking it: the table is not uniform across layers.\<close>

theorem prefill_store_masks_layer:
  assumes "cfg_ok e" "l \<noteq> 0" "0 \<le> c" "c < n_logical_pages e * 64" "0 \<le> chunk_cell_lut e 0 c"
    and "pack_dims p" "pack_len 1 p" "store_prefill_to_mirror l [c] p e = (res, e')"
  shows "res = Inr () \<and> recall_global [c] e' = (Inr 0, e') \<and> remap_loc e' l c = - 1"
proof -
  from store_prefill_effect [of e "[c]" p l] assms obtain m where
    st: "(res, e') = (Inr (), lut_clear_layer l (unique [c]) (e\<lparr>host_mirror := (host_mirror e)(l := m)\<rparr>))"
    by auto
  then have lut: "chunk_cell_lut e' = (chunk_cell_lut e)(l := fill [c] (- 1) (chunk_cell_lut e l))"
    and n: "lut_cols e' = lut_cols e"
    by (simp_all add: engine_simps unique_def) (simp add: lut_clear_layer_def lut_cols_def)
  have col: "clamp_col e' c = c" using assms(3,4) n by (simp add: clamp_col_def lut_cols_def)
  have "chunk_cell_lut e' l c = - 1" "chunk_cell_lut e' 0 c = chunk_cell_lut e 0 c" using assms(2) by (simp_all add: lut)
  then show ?thesis
    using st assms(3,5) col by (simp add: recall_global_def unique_def remap_loc_def)
qed

definition zero_pack :: pack where
  "zero_pack = \<lparr>k_nope_fp8 = [replicate 448 0], k_rope_bf16 = [replicate 128 0],
     scale_k_nope_ue8m0 = [replicate 7 0]\<rparr>"

theorem prefill_store_masks_layer_witness:
  "fst (store_prefill_to_mirror 1 [5] zero_pack (small_recalled True)) = Inr ()
   \<and> recall_global [5] (snd (store_prefill_to_mirror 1 [5] zero_pack (small_recalled True)))
     = (Inr 0, snd (store_prefill_to_mirror 1 [5] zero_pack (small_recalled True)))
   \<and> remap_loc (snd (store_prefill_to_mirror 1 [5] zero_pack (small_recalled True))) 1 5 = - 1"
proof (rule prefill_store_masks_layer [OF _ _ _ _ _ _ _ prod.collapse [symmetric]])
  have r: "resident (small_recalled True) 0 5" by (rule small_resident) simp
  then show "(5::int) < n_logical_pages (small_recalled True) * 64" "0 \<le> chunk_cell_lut (small_recalled True) 0 5"
    by (simp_all add: resident_def)
  have "page_inv (small_recalled True)"
    using page_path.run_inv [OF small_recall(1) [of True] _ small_engine_inv(1)] by simp
  then show "cfg_ok (small_recalled True)" by (simp add: path_inv_def)
qed (simp_all add: zero_pack_def pack_dims_def pack_len_def)



subsection \<open>Stores and copies\<close>

text \<open>C38: \<open>store_prefill_to_mirror\<close> leaves in the layer's mirror exactly the buffer that the Triton
  store of the native pool would leave, given all rows in order, although it first keeps only the
  last row of every location; it touches no other layer's mirror and unmaps the stored chunks in
  that layer.\<close>

theorem prefill_store_is_pool_store:
  assumes "cfg_ok e" "loc \<noteq> []" "\<forall>c \<in> set loc. 0 \<le> c \<and> c < n_logical_pages e * 64"
    and "pack_dims p" "pack_len (length loc) p" "store_prefill_to_mirror l loc p e = (res, e')"
  shows "res = Inr ()
    \<and> host_mirror e' = (host_mirror e)
        (l := snd (set_k_and_s_triton (row_bytes e) (host_mirror e l) loc p C4_PAGE_SIZE))
    \<and> chunk_cell_lut e' = (chunk_cell_lut e)(l := fill loc (- 1) (chunk_cell_lut e l))"
proof -
  have fits: "row_fits (row_bytes e)" "even (row_bytes e)" using assms(1) by (auto simp: cfg_ok_def)
  from store_prefill_effect [OF assms(1-5), of l] assms(6) obtain m where
    st: "(res, e') = (Inr (), lut_clear_layer l (unique loc) (e\<lparr>host_mirror := (host_mirror e)(l := m)\<rparr>))"
    and m: "m = fold (\<lambda>(c, row). put_chunk (row_bytes e) c row)
       (zip (map (\<lambda>i. loc ! i) (keep_rows loc)) (pack_rows (pack_select (keep_rows loc) p))) (host_mirror e l)"
    by metis
  have "m = snd (set_k_and_s_triton (row_bytes e) (host_mirror e l) loc p C4_PAGE_SIZE)"
    unfolding m keep_rows_store [OF fits(1) assms(4,5)]
    using assms(5) by (simp add: set_k_and_s_triton_def fold_triton_put [OF fits(2) pack_toks_dims [OF assms(4)]])
  moreover have "fill (unique loc) v f = fill loc v f" for v :: int and f
    by (simp add: fill_def)
  ultimately show ?thesis using st by (simp add: engine_simps)
qed

theorem prefill_store_is_pool_store_witness:
  "host_mirror (snd (store_prefill_to_mirror 1 [5] zero_pack (small_engine True)))
     = (host_mirror (small_engine True))
        (1 := snd (set_k_and_s_triton (row_bytes (small_engine True)) (host_mirror (small_engine True) 1)
                 [5] zero_pack C4_PAGE_SIZE))"
  by (rule conjunct1 [OF conjunct2 [OF prefill_store_is_pool_store [OF small_engine_fields(1) _ _ _ _ prod.collapse [symmetric]]]])
    (simp_all add: zero_pack_def pack_dims_def pack_len_def)

text \<open>C39: The copy of all layers through strided rows and the copy of one layer through flat byte
  indices move the same bytes, pairs out of range included, on any buffers.\<close>

theorem chunk_copies_agree:
  "copy_chunks_all_layers rb np rp mirrors bufs src dst l
     = copy_chunks_layer rb np rp (mirrors l) (bufs l) src dst"
  by (simp add: copy_chunks_all_layers_pairs copy_chunks_layer_pairs)

text \<open>The torch store and the Triton kernel leave the same buffer for locations inside it.\<close>

theorem stores_agree:
  assumes "row_fits rb" "even rb" "pack_dims p" "\<forall>c \<in> set loc. 0 \<le> c \<and> c < num_pages * 64"
  shows "set_k_and_s_torch num_pages rb b loc p C4_PAGE_SIZE = set_k_and_s_triton rb b loc p C4_PAGE_SIZE"
proof (cases "pack_len (length loc) p")
  case True
  have "\<forall>(c, row) \<in> set (zip loc (pack_rows p)). 0 \<le> c \<and> c < num_pages * 64 \<and> row_dims row"
    using pack_toks_dims [OF assms(3), of loc] assms(4) by (auto dest: set_zip_leftD)
  from set_k_and_s_torch_loop_put [OF assms(1,2) this] True show ?thesis
    by (simp add: set_k_and_s_torch_def set_k_and_s_triton_def
        fold_triton_put [OF assms(2) pack_toks_dims [OF assms(3)]])
qed (simp add: set_k_and_s_torch_def set_k_and_s_triton_def)

theorem stores_agree_witness:
  "set_k_and_s_torch 4 37440 (\<lambda>_. 1) [200] zero_pack C4_PAGE_SIZE
     = set_k_and_s_triton 37440 (\<lambda>_. 1) [200] zero_pack C4_PAGE_SIZE"
  by (rule stores_agree) (simp_all add: zero_pack_def pack_dims_def)

lemma decode_cell_real:
  assumes "cfg_ok e" "decode_valid e ri loc sl"
    and "decode_slot_t e (clamp 0 (max_req_pool e - 1) ri) < decode_max_conc e"
  shows "decode_cell e ri loc sl = decode_base e
      + decode_slot_t e (clamp 0 (max_req_pool e - 1) ri) * decode_resident_chunks e + decode_local e ri loc sl"
    and "decode_base e \<le> decode_cell e ri loc sl" "decode_cell e ri loc sl < sink_cell e"
proof -
  let ?s = "decode_slot_t e (clamp 0 (max_req_pool e - 1) ri)" and ?l = "decode_local e ri loc sl"
  let ?R = "decode_resident_chunks e"
  have v: "0 \<le> ?s" "0 \<le> ?l" "?l < ?R" using assms(2) by (auto simp: decode_valid_def Let_def)
  have "?s * ?R + ?l < (?s + 1) * ?R" using v by (simp add: distrib_right)
  also have "\<dots> \<le> decode_max_conc e * ?R" using assms(3) v by (intro mult_right_mono) auto
  finally have b: "?s * ?R + ?l < decode_region e" by (simp add: decode_region_def mult.commute)
  note d = decode_base_bounds [OF assms(1)]
  have c: "decode_cell e ri loc sl = clamp 0 (cell_capacity e - 1) (decode_base e + ?s * ?R + ?l)"
    using assms(2) by (simp add: decode_cell_def Let_def)
  have "decode_base e + ?s * ?R + ?l < cell_capacity e - 1" "0 \<le> decode_base e + ?s * ?R + ?l"
    using b d v by simp_all
  then show "decode_cell e ri loc sl = decode_base e + ?s * ?R + ?l"
    and "decode_base e \<le> decode_cell e ri loc sl" "decode_cell e ri loc sl < sink_cell e"
    using c v by (simp_all add: sink_cell_def)
qed


text \<open>Two decode chunks of different slots or of different positions in a slot get different
  cells, and no decode chunk gets a cell of the recall region or the sink.\<close>

theorem decode_cells_apart:
  assumes "cfg_ok e" "\<And>ri. decode_slot_t e ri < decode_max_conc e"
    and "decode_valid e r1 loc1 sl1" "decode_valid e r2 loc2 sl2"
    and "(decode_slot_t e (clamp 0 (max_req_pool e - 1) r1), decode_local e r1 loc1 sl1)
       \<noteq> (decode_slot_t e (clamp 0 (max_req_pool e - 1) r2), decode_local e r2 loc2 sl2)"
  shows "decode_cell e r1 loc1 sl1 \<noteq> decode_cell e r2 loc2 sl2
    \<and> decode_base e \<le> decode_cell e r1 loc1 sl1 \<and> decode_cell e r1 loc1 sl1 < sink_cell e"
proof -
  note c1 = decode_cell_real [OF assms(1,3,2)] and c2 = decode_cell_real [OF assms(1,4,2)]
  let ?R = "decode_resident_chunks e"
  have l: "0 \<le> decode_local e r1 loc1 sl1" "decode_local e r1 loc1 sl1 < ?R"
    "0 \<le> decode_local e r2 loc2 sl2" "decode_local e r2 loc2 sl2 < ?R"
    using assms(3,4) by (auto simp: decode_valid_def Let_def)
  have "s = s' \<and> a = b" if "s * ?R + a = s' * ?R + b" "0 \<le> a" "a < ?R" "0 \<le> b" "b < ?R" for s s' a b :: int
  proof -
    have "(s * ?R + a) div ?R = s" "(s' * ?R + b) div ?R = s'" using that(2-) by simp_all
    with that(1) have "s = s'" by metis
    with that(1) show ?thesis by simp
  qed
  from this [of "decode_slot_t e (clamp 0 (max_req_pool e - 1) r1)" "decode_local e r1 loc1 sl1"
      "decode_slot_t e (clamp 0 (max_req_pool e - 1) r2)" "decode_local e r2 loc2 sl2"] l assms(5) c1 c2(1)
  show ?thesis by auto
qed

text \<open>The small engine with two decode slots of three chunks and one registered request.\<close>

definition small_decode :: engine where
  "small_decode = register_decode_req 3 10 4096
     ((small_engine True)\<lparr>decode_resident_chunks := 3, decode_max_conc := 2\<rparr>)"

lemma small_decode_fields [simp]:
  "cfg_ok small_decode" "decode_slot_t small_decode = (\<lambda>_. - 1)(3 := 0)"
  "prefill_chunks_t small_decode = (\<lambda>_. - 1)(3 := 10)" "max_req_pool small_decode = 4096"
  "decode_resident_chunks small_decode = 3" "decode_max_conc small_decode = 2" "localfix small_decode = False"
  "decode_t_ready small_decode" "n_logical_pages small_decode = 4" "cell_capacity small_decode = 128"
  by (simp_all add: small_decode_def small_defs register_decode_req_def cfg_ok_def size_defs row_bytes_of_def)

lemma small_decode_valid: "10 \<le> c \<Longrightarrow> c < 13 \<Longrightarrow> decode_valid small_decode 3 c None"
  by (simp add: decode_valid_def decode_local_def)

theorem decode_cells_apart_witness:
  "decode_cell small_decode 3 10 None \<noteq> decode_cell small_decode 3 12 None
    \<and> decode_base small_decode \<le> decode_cell small_decode 3 10 None
    \<and> decode_cell small_decode 3 10 None < sink_cell small_decode"
  by (rule decode_cells_apart) (simp_all add: small_decode_valid, simp add: decode_local_def)


lemma fold_put_bytes:
  assumes fits: "row_fits rb" and dims: "\<forall>(d, row) \<in> set toks. row_dims row"
    and i: "i < length toks" "toks ! i = (c, nope, rope, scl)"
    and other: "\<forall>j < length toks. j \<noteq> i \<longrightarrow> fst (toks ! j) \<noteq> c"
  shows "\<exists>pad. chunk_bytes rb (fold (\<lambda>(c, row). put_chunk rb c row) toks b) c = nope @ rope @ scl @ [pad]"
proof -
  have split: "toks = take i toks @ (c, nope, rope, scl) # drop (Suc i) toks"
    using id_take_nth_drop [OF i(1)] i(2) by simp
  let ?f = "\<lambda>(c, row). put_chunk rb c row"
  have "\<forall>(d, row) \<in> set (drop (Suc i) toks). row_dims row \<and> d \<noteq> c"
  proof
    fix t assume "t \<in> set (drop (Suc i) toks)"
    then obtain k where "k < length (drop (Suc i) toks)" "drop (Suc i) toks ! k = t" by (auto simp only: in_set_conv_nth)
    then have t: "toks ! (Suc i + k) = t" "Suc i + k < length toks" by auto
    then have "t \<in> set toks" "fst t \<noteq> c" using other by (auto dest: nth_mem)
    with dims show "case t of (d, row) \<Rightarrow> row_dims row \<and> d \<noteq> c" by (auto split: prod.splits)
  qed
  note after = fold_put_untouched [OF fits this]
  have d: "row_dims (nope, rope, scl)" using dims i by (force dest: nth_mem)
  have "fold ?f toks b = fold ?f (drop (Suc i) toks) (put_chunk rb c (nope, rope, scl) (fold ?f (take i toks) b))"
    by (subst split) simp
  with after put_chunk_bytes [OF fits d] show ?thesis by simp
qed

lemma scatter_at:
  assumes "i < length cols" "length cells = length cols" "\<forall>j < length cols. j \<noteq> i \<longrightarrow> cols ! j \<noteq> cols ! i"
  shows "scatter (zip cols cells) f (cols ! i) = cells ! i"
  using assms
proof (induction cols arbitrary: cells f i)
  case (Cons c cols)
  then obtain x xs where cells: "cells = x # xs" "length xs = length cols" by (cases cells) auto
  show ?case
  proof (cases i)
    case 0
    have "c \<notin> fst ` set (zip cols xs)"
    proof
      assume "c \<in> fst ` set (zip cols xs)"
      then obtain k where "k < length cols" "cols ! k = c" by (auto simp: in_set_conv_nth)
      with Cons.prems(3) 0 show False by (auto dest!: spec [of _ "Suc k"])
    qed
    with 0 show ?thesis by (simp add: cells scatter_Cons scatter_other)
  next
    case (Suc k)
    have "\<forall>j < length cols. j \<noteq> k \<longrightarrow> cols ! j \<noteq> cols ! k"
      using Cons.prems(3) Suc by (metis length_Cons not_less_eq nat.inject nth_Cons_Suc)
    with Cons.IH [of k xs] Cons.prems Suc cells show ?thesis by (simp add: scatter_Cons)
  qed
qed simp

text \<open>A decode chunk is readable from the step it forms: when \<open>store_decode_to_reserve\<close> stores a
  valid row, \<open>remap_compressed_locs\<close> maps its location to the row's decode cell, and that cell holds
  the row's 448 nope, 128 rope and 7 scale bytes, whatever the other rows of the batch are, as long
  as they are other locations of other cells.\<close>

theorem decode_store_readback:
  assumes cfg: "cfg_ok e" and ready: "decode_t_ready e" and p: "pack_dims p" "pack_len (length rows) p"
    and i: "i < length rows" "rows ! i = (ri, loc, sl)" "pack_rows p ! i = (nope, rope, scl)"
    and v: "decode_valid e ri loc sl" "loc < n_logical_pages e * 64"
    and other: "\<forall>j < length rows. j \<noteq> i \<longrightarrow> (case rows ! j of (rj, lj, sj) \<Rightarrow>
        decode_lut_col e rj lj sj \<noteq> loc \<and> decode_cell e rj lj sj \<noteq> decode_cell e ri loc sl)"
    and st: "store_decode_to_reserve l rows p e = (res, e')"
  shows "res = Inr () \<and> remap_loc e' l loc = decode_cell e ri loc sl
    \<and> (\<exists>pad. chunk_bytes (row_bytes e) (reserve_buf e' l) (decode_cell e ri loc sl) = nope @ rope @ scl @ [pad])"
proof -
  have fits: "row_fits (row_bytes e)" "even (row_bytes e)" using cfg by (auto simp: cfg_ok_def)
  define cells where "cells = map (\<lambda>(ri, loc, sl). decode_cell e ri loc sl) rows"
  define cols where "cols = map (\<lambda>(ri, loc, sl). decode_lut_col e ri loc sl) rows"
  define toks where "toks = zip cells (pack_rows p)"
  have loc: "0 < loc" "clamp_col e loc = loc" "decode_lut_col e ri loc sl = loc"
    using v by (auto simp: decode_valid_def decode_lut_col_def Let_def clamp_col_def lut_cols_def lut_sentinel_col_def)
  have tri: "set_k_and_s_triton (row_bytes e) (reserve_buf e l) cells p C4_PAGE_SIZE
      = (Inr (), fold (\<lambda>(c, row). put_chunk (row_bytes e) c row) toks (reserve_buf e l))"
    using p by (simp add: set_k_and_s_triton_def toks_def cells_def fold_triton_put [OF fits(2) pack_toks_dims [OF p(1)]])
  note eff = store_decode_effect(1,3) [OF ready, of l rows p]
  have res: "res = Inr ()" and lut: "chunk_cell_lut e' l = scatter (zip cols cells) (chunk_cell_lut e l)"
    using st ready tri
    by (auto simp: store_decode_to_reserve_def Let_def cells_def [symmetric] cols_def [symmetric] engine_simps
        split: if_splits)
  have sz: "sizes e' = sizes e" using store_decode_sizes [of l rows p e] st by simp
  have "chunk_cell_lut e' l (cols ! i) = cells ! i"
    unfolding lut by (rule scatter_at) (use i other loc in \<open>auto simp: cols_def cells_def split: prod.splits\<close>)
  then have "chunk_cell_lut e' l loc = decode_cell e ri loc sl" using i loc by (simp add: cols_def cells_def)
  then have remap: "remap_loc e' l loc = decode_cell e ri loc sl"
    using loc decode_cell_region(1) [OF cfg, of ri loc sl] decode_base_bounds(1) [OF cfg] same_sizes(12) [OF sz]
    by (simp add: remap_loc_def)
  have "\<exists>pad. chunk_bytes (row_bytes e) (fold (\<lambda>(c, row). put_chunk (row_bytes e) c row) toks (reserve_buf e l))
      (decode_cell e ri loc sl) = nope @ rope @ scl @ [pad]"
    by (rule fold_put_bytes [OF fits(1), where i = i])
      (use p i other pack_toks_dims [OF p(1), of cells] in \<open>auto simp: toks_def cells_def split: prod.splits\<close>)
  moreover have "reserve_buf e' l = fold (\<lambda>(c, row). put_chunk (row_bytes e) c row) toks (reserve_buf e l)"
    using eff(2) [of l] tri st by (simp add: cells_def)
  ultimately show ?thesis using res remap by simp
qed

theorem decode_store_readback_witness:
  "remap_loc (snd (store_decode_to_reserve 1 [(3, 10, None)] zero_pack small_decode)) 1 10
     = decode_cell small_decode 3 10 None"
  using decode_store_readback [OF small_decode_fields(1) small_decode_fields(8), of zero_pack "[(3, 10, None)]" 0 3 10 None
      "replicate 448 0" "replicate 128 0" "replicate 7 0" 1]
  by (simp add: small_decode_valid zero_pack_def pack_dims_def pack_len_def pack_rows_def
      split: prod.splits) (metis prod.collapse)



subsection \<open>Releases\<close>

lemma pop_keys_free:
  assumes "pop_keys ks (d, free) = (d', free')"
  shows "set free' = set free \<union> {v. \<exists>k \<in> set ks. od_get d k = Some v}"
  using assms
proof (induction ks arbitrary: d free)
  case (Cons k ks)
  show ?case
  proof (cases "od_get d k")
    case None
    with Cons.prems have "pop_keys ks (d, free) = (d', free')" by (simp add: pop_keys_def pop_key_def)
    from Cons.IH [OF this] None show ?thesis by auto
  next
    case (Some v)
    with Cons.prems have "pop_keys ks (od_pop k d, free @ [v]) = (d', free')" by (simp add: pop_keys_def pop_key_def)
    note IH = Cons.IH [OF this]
    have g: "od_get (od_pop k d) j = Some u \<longleftrightarrow> j \<noteq> k \<and> od_get d j = Some u" for j u by (simp add: od_get_pop)
    have "{u. \<exists>j \<in> set ks. od_get (od_pop k d) j = Some u} \<union> {v} = {u. \<exists>j \<in> set (k # ks). od_get d j = Some u}"
      unfolding g using Some by (auto, metis option.inject)
    with IH show ?thesis by auto
  qed
qed (simp add: pop_keys_def)

text \<open>C40: \<open>release_owned_pages\<close> gives back exactly the pages the request recorded: their blocks
  become free and their chunks are unmapped in every layer; every other page keeps its block and
  its chunks keep their cells; the record of the request is gone.\<close>

theorem release_owned_exact:
  assumes "page_inv e" "owner_release e" "page_recall e" "req_owned_pages e ri = Some pages" "pages \<noteq> []"
    and "release_owned_pages ri e = (n, e')"
  shows "req_owned_pages e' ri = None
    \<and> (\<forall>pg. od_get (g_page_to_block e') pg = (if pg \<in> set pages then None else od_get (g_page_to_block e) pg))
    \<and> set (g_free_blocks e') = set (g_free_blocks e) \<union> {b. \<exists>pg \<in> set pages. od_get (g_page_to_block e) pg = Some b}
    \<and> (\<forall>l c. 0 \<le> c \<and> c < n_logical_pages e * 64 \<longrightarrow>
         chunk_cell_lut e' l c = (if c div 64 \<in> set pages then - 1 else chunk_cell_lut e l c))
    \<and> page_inv e'"
proof -
  obtain p2b free where pop: "pop_keys pages (g_page_to_block e, g_free_blocks e) = (p2b, free)" by fastforce
  let ?cols = "filter (col_ok e) (concat (map page_chunks pages))"
  have e': "e' = lut_clear_all ?cols (e\<lparr>req_owned_pages := (req_owned_pages e)(ri := None),
      g_page_to_block := p2b, g_free_blocks := free\<rparr>)"
    using assms pop by (simp add: release_owned_pages_def Let_def)
  have col: "c \<in> set ?cols \<longleftrightarrow> c div 64 \<in> set pages" if "0 \<le> c" "c < n_logical_pages e * 64" for c
  proof -
    have "c \<in> set (page_chunks pg) \<longleftrightarrow> c div 64 = pg" for pg by (auto simp: page_chunks_def)
    with that show ?thesis by (auto simp: col_ok_def lut_cols_def)
  qed
  have "chunk_cell_lut e' l c = (if c div 64 \<in> set pages then - 1 else chunk_cell_lut e l c)"
    if "0 \<le> c" "c < n_logical_pages e * 64" for l c
    using col [OF that] by (simp add: e' engine_simps fill_def del: set_filter set_concat)
  moreover have "page_inv e'" using release_owned_keeps [OF assms(1), of ri] assms(6) by simp
  moreover have "g_page_to_block e' = p2b" "g_free_blocks e' = free"
    "req_owned_pages e' = (req_owned_pages e)(ri := None)" by (simp_all add: e' lut_clear_all_def)
  ultimately show ?thesis using pop_keys_get [OF pop] pop_keys_free [OF pop] by simp
qed

definition small_owner :: engine where
  "small_owner = small_owned\<lparr>owner_release := True, req_owned_pages := (\<lambda>r. if r = 1 \<or> r = 2 then Some [0] else None)\<rparr>"

lemma small_owner_inv: "page_inv small_owner"
proof -
  have "cell_capacity small_owner = cell_capacity small_owned" "decode_region small_owner = decode_region small_owned"
    "decode_base small_owner = decode_base small_owned" "recall_cell_capacity small_owner = recall_cell_capacity small_owned"
    "reserve_buf small_owner = reserve_buf small_owned"
    by (simp_all add: small_owner_def size_defs reserve_buf_def)
  with small_owned_inv show ?thesis
    unfolding path_inv_def cfg_ok_def page_slots_def owned_def coherent_def resident_def page_owner_def
    by (simp add: small_owner_def)
qed

theorem release_owned_exact_witness:
  "od_get (g_page_to_block (snd (release_owned_pages 1 small_owner))) 0 = None
   \<and> req_owned_pages (snd (release_owned_pages 1 small_owner)) 1 = None"
proof -
  have "page_recall small_owner" "owner_release small_owner" "req_owned_pages small_owner 1 = Some [0]"
    by (simp_all add: small_owner_def small_owned_def)
  from release_owned_exact [OF small_owner_inv this(2,1,3) _ prod.collapse [symmetric]] show ?thesis by simp
qed

text \<open>A page that two requests recorded is taken away from both when one of them finishes: it
  loses its block and its chunks are masked although the other request still owns it.\<close>

theorem release_owned_shared:
  assumes "page_inv e" "owner_release e" "page_recall e" "r1 \<noteq> r2" "pg \<in> set p1" "pg \<in> set p2"
    and "req_owned_pages e r1 = Some p1" "req_owned_pages e r2 = Some p2"
    and "0 \<le> c" "c < n_logical_pages e * 64" "c div 64 = pg"
  shows "req_owned_pages (snd (release_owned_pages r1 e)) r2 = Some p2
    \<and> od_get (g_page_to_block (snd (release_owned_pages r1 e))) pg = None
    \<and> remap_loc (snd (release_owned_pages r1 e)) l c = - 1"
proof -
  let ?e = "snd (release_owned_pages r1 e)"
  obtain p2b free where pop: "pop_keys p1 (g_page_to_block e, g_free_blocks e) = (p2b, free)" by fastforce
  have ne: "p1 \<noteq> []" using assms(5) by auto
  have e': "?e = lut_clear_all (filter (col_ok e) (concat (map page_chunks p1)))
      (e\<lparr>req_owned_pages := (req_owned_pages e)(r1 := None), g_page_to_block := p2b, g_free_blocks := free\<rparr>)"
    using assms(2,3,7) ne pop by (simp add: release_owned_pages_def Let_def)
  have "c \<in> set (filter (col_ok e) (concat (map page_chunks p1)))"
    using assms(5,9-11) by (auto simp: page_chunks_def col_ok_def lut_cols_def intro!: bexI [of _ pg])
  then have "chunk_cell_lut ?e l c = - 1" by (simp add: e' engine_simps del: set_filter set_concat)
  moreover have "clamp_col ?e c = c"
    using assms(9,10) same_sizes(7) [OF release_sizes(2) [of r1 e]] by (simp add: clamp_col_def lut_cols_def)
  moreover have "req_owned_pages ?e r2 = Some p2" "g_page_to_block ?e = p2b"
    using assms(4,8) by (simp_all add: e' lut_clear_all_def)
  ultimately show ?thesis using pop_keys_get [OF pop, of pg] assms(5) by (simp add: remap_loc_def Let_def)
qed

theorem release_owned_shared_witness:
  "req_owned_pages (snd (release_owned_pages 1 small_owner)) 2 = Some [0]
    \<and> od_get (g_page_to_block (snd (release_owned_pages 1 small_owner))) 0 = None
    \<and> remap_loc (snd (release_owned_pages 1 small_owner)) 0 5 = - 1"
  by (rule release_owned_shared [OF small_owner_inv, where ?p1.0 = "[0]"])
    (simp_all add: small_owner_def small_owned_def)

end
