(* ===== verification/SwapEager.thy ===== *)
theory SwapEager
  imports SwapOwner
begin

section \<open>The eager path: recall of one layer\<close>

text \<open>
  \<open>recall_chunks\<close> outside the global mode, with \<open>_evict_one\<close>, \<open>store_decode\<close> and the per-layer
  release. The eager recall maps a chunk before it copies the bytes, so in the middle of a call
  the invariant holds except for the chunks still to be copied in that layer; the copy at the end
  restores it.
\<close>

definition mid :: "nat \<Rightarrow> int set \<Rightarrow> engine \<Rightarrow> bool" where
  "mid l S e \<longleftrightarrow> cfg_ok e \<and> eager_slots e \<and> owned eager_owner e
     \<and> (\<forall>l' c. resident e l' c \<and> \<not> (l' = l \<and> c \<in> S) \<longrightarrow>
          chunk_bytes (row_bytes e) (reserve_buf e l') (chunk_cell_lut e l' c)
            = chunk_bytes (row_bytes e) (host_mirror e l') c)"

lemma mid_eager: "eager_inv e \<Longrightarrow> mid l S e"
  by (auto simp: mid_def path_inv_def coherent_def)

lemma mid_empty: "mid l {} e \<longleftrightarrow> eager_inv e"
  by (auto simp: mid_def path_inv_def coherent_def)

lemma mid_layer: "mid l S e \<Longrightarrow> slots_ok (chunk_to_cell e l') (next_cell e l') (free_cells e l') (recall_cell_capacity e)"
  by (simp add: mid_def eager_slots_def)

lemma mid_update:
  assumes m: "mid l S e" and e': "sizes e' = sizes e" "host_mirror e' = host_mirror e" "reserve_buf e' = reserve_buf e"
    and sl: "slots_ok (chunk_to_cell e' l) (next_cell e' l) (free_cells e' l) (recall_cell_capacity e)"
      "list_all (col_ok e) (od_keys (chunk_to_cell e' l))"
    and others: "\<And>l'. l' \<noteq> l \<Longrightarrow> chunk_to_cell e' l' = chunk_to_cell e l' \<and> next_cell e' l' = next_cell e l'
        \<and> free_cells e' l' = free_cells e l' \<and> chunk_cell_lut e' l' = chunk_cell_lut e l'"
    and own: "\<And>c. resident e' l c \<Longrightarrow> od_get (chunk_to_cell e' l) c = Some (chunk_cell_lut e' l c)"
    and out: "\<And>c. resident e' l c \<Longrightarrow> c \<notin> S \<Longrightarrow> chunk_cell_lut e' l c = chunk_cell_lut e l c"
  shows "mid l S e'"
proof -
  note sz = same_sizes [OF e'(1)]
  have sl': "eager_slots e'"
    unfolding eager_slots_def sz
  proof
    fix l'
    show "slots_ok (chunk_to_cell e' l') (next_cell e' l') (free_cells e' l') (recall_cell_capacity e)
        \<and> list_all (col_ok e) (od_keys (chunk_to_cell e' l'))"
      using sl others [of l'] m by (cases "l' = l") (auto simp: mid_def eager_slots_def)
  qed
  have old: "resident e l' c \<and> chunk_cell_lut e' l' c = chunk_cell_lut e l' c"
    if "resident e' l' c" "\<not> (l' = l \<and> c \<in> S)" for l' c
  proof -
    have eq: "chunk_cell_lut e' l' c = chunk_cell_lut e l' c"
      using that others [of l'] out [of c] by (cases "l' = l") auto
    with that(1) show ?thesis by (simp add: resident_def sz)
  qed
  have "owned eager_owner e'"
    unfolding owned_def eager_owner_def
  proof (intro allI impI)
    fix l' c assume r: "resident e' l' c"
    show "od_get (chunk_to_cell e' l') c = Some (chunk_cell_lut e' l' c)"
    proof (cases "l' = l")
      case False
      with old [OF r] m others [OF False] show ?thesis by (auto simp: mid_def owned_def eager_owner_def)
    qed (use own r in simp)
  qed
  then show ?thesis
    using m sl' old unfolding mid_def by (simp add: sz e')
qed

text \<open>A new chunk of the selection gets a cell.\<close>

definition put_cell :: "nat \<Rightarrow> int \<Rightarrow> int \<Rightarrow> engine \<Rightarrow> engine" where
  "put_cell l c cell e = lut_scatter_layer l [(c, cell)]
     (e\<lparr>chunk_to_cell := (chunk_to_cell e)(l := od_set c cell (chunk_to_cell e l))\<rparr>)"

lemma place_chunk_put: "col_ok e c \<Longrightarrow> place_chunk l c cell e = (Inr (), put_cell l c cell e)"
  by (simp add: place_chunk_def put_cell_def Let_def)

lemma put_cell_fields:
  "sizes (put_cell l c cell e) = sizes e" "host_mirror (put_cell l c cell e) = host_mirror e"
  "reserve_buf (put_cell l c cell e) = reserve_buf e"
  "chunk_to_cell (put_cell l c cell e) = (chunk_to_cell e)(l := od_set c cell (chunk_to_cell e l))"
  "next_cell (put_cell l c cell e) = next_cell e" "free_cells (put_cell l c cell e) = free_cells e"
  "chunk_cell_lut (put_cell l c cell e) = (chunk_cell_lut e)(l := (chunk_cell_lut e l)(c := cell))"
  by (simp_all add: put_cell_def engine_simps scatter_Cons) (simp_all add: lut_scatter_layer_def sizes_def reserve_buf_def)

lemma mid_put:
  assumes m: "mid l S e" and c: "c \<in> S" "col_ok e c"
    and e1: "sizes e1 = sizes e" "host_mirror e1 = host_mirror e" "reserve_buf e1 = reserve_buf e"
      "\<And>l'. l' \<noteq> l \<Longrightarrow> chunk_to_cell e1 l' = chunk_to_cell e l' \<and> next_cell e1 l' = next_cell e l'
         \<and> free_cells e1 l' = free_cells e l' \<and> chunk_cell_lut e1 l' = chunk_cell_lut e l'"
    and keys: "list_all (col_ok e) (od_keys (chunk_to_cell e1 l))"
    and gone: "\<And>x. 0 \<le> chunk_cell_lut e1 l x \<Longrightarrow> col_ok e x \<Longrightarrow> chunk_cell_lut e1 l x = chunk_cell_lut e l x
        \<and> od_get (chunk_to_cell e1 l) x = od_get (chunk_to_cell e l) x"
    and sl: "slots_ok (od_set c cell (chunk_to_cell e1 l)) (next_cell e1 l) (free_cells e1 l) (recall_cell_capacity e)"
  shows "mid l S (put_cell l c cell e1)"
proof (rule mid_update [OF m])
  show "list_all (col_ok e) (od_keys (chunk_to_cell (put_cell l c cell e1) l))"
    using keys c(2) by (simp add: put_cell_fields od_keys_set)
  fix x assume r: "resident (put_cell l c cell e1) l x"
  have sz: "sizes (put_cell l c cell e1) = sizes e" by (simp add: put_cell_fields e1)
  note sz' = same_sizes [OF sz]
  have x: "x \<noteq> c \<Longrightarrow> 0 \<le> chunk_cell_lut e1 l x" "col_ok e x"
    using r by (auto simp: resident_def put_cell_fields sz' col_ok_def lut_cols_def)
  show "od_get (chunk_to_cell (put_cell l c cell e1) l) x = Some (chunk_cell_lut (put_cell l c cell e1) l x)"
  proof (cases "x = c")
    case False
    have "resident e l x" using r gone [OF x(1) [OF False] x(2)] False by (simp add: resident_def put_cell_fields sz')
    with m have "od_get (chunk_to_cell e l) x = Some (chunk_cell_lut e l x)"
      by (simp add: mid_def owned_def eager_owner_def)
    with gone [OF x(1) [OF False] x(2)] False show ?thesis by (simp add: put_cell_fields od_simps)
  qed (simp add: put_cell_fields od_simps)
  show "chunk_cell_lut (put_cell l c cell e1) l x = chunk_cell_lut e l x" if "x \<notin> S"
    using that c(1) gone [OF x(1) x(2)] by (auto simp: put_cell_fields)
qed (use sl e1 in \<open>simp_all add: put_cell_fields\<close>)


definition same_bytes :: "engine \<Rightarrow> engine \<Rightarrow> bool" where
  "same_bytes e e' \<longleftrightarrow> sizes e' = sizes e \<and> host_mirror e' = host_mirror e \<and> reserve_buf e' = reserve_buf e"

lemma evict_one_put:
  assumes m: "mid l S e" and c: "c \<in> S" "col_ok e c" "od_get (chunk_to_cell e l) c = None"
    and ev: "evict_one l prot e = (r, e1)"
  shows "(\<exists>cell. r = Inr (Some cell) \<and> mid l S (put_cell l c cell e1) \<and> same_bytes e (put_cell l c cell e1)
            \<and> (\<forall>x. od_get (chunk_to_cell e l) x = None \<longrightarrow> od_get (chunk_to_cell e1 l) x = None))
       \<or> r = Inr None \<and> e1 = e"
proof (cases "first_unprotected prot (chunk_to_cell e l)")
  case None
  with ev show ?thesis by (simp add: evict_one_def)
next
  case (Some vc)
  obtain v cell where vc: "vc = (v, cell)" by (cases vc)
  note sl = mid_layer [OF m, of l]
  have dist: "distinct (od_keys (chunk_to_cell e l))" by (rule slots_okD(1) [OF sl])
  have v: "od_get (chunk_to_cell e l) v = Some cell"
    using first_unprotected_Some(1) [of prot "chunk_to_cell e l" v cell] Some vc dist by simp
  have keys: "list_all (col_ok e) (od_keys (chunk_to_cell e l))" using m by (simp add: mid_def eager_slots_def)
  then have "col_ok e v" using first_unprotected_Some(1) Some vc by (fastforce simp: list_all_iff)
  then have r: "r = Inr (Some cell)"
    and e1: "e1 = (lut_clear_layer l [v] (e\<lparr>chunk_to_cell := (chunk_to_cell e)(l := od_pop v (chunk_to_cell e l))\<rparr>))
        \<lparr>n_evictions := n_evictions e + 1\<rparr>"
    using ev Some vc by (auto simp: evict_one_def)
  have f: "sizes e1 = sizes e" "host_mirror e1 = host_mirror e" "reserve_buf e1 = reserve_buf e"
    "chunk_to_cell e1 = (chunk_to_cell e)(l := od_pop v (chunk_to_cell e l))" "next_cell e1 = next_cell e"
    "free_cells e1 = free_cells e" "chunk_cell_lut e1 = (chunk_cell_lut e)(l := fill [v] (- 1) (chunk_cell_lut e l))"
    by (simp_all add: e1 lut_clear_layer_def sizes_def reserve_buf_def)
  have "mid l S (put_cell l c cell e1)"
  proof (rule mid_put [OF m c(1,2) f(1-3)])
    show "slots_ok (od_set c cell (chunk_to_cell e1 l)) (next_cell e1 l) (free_cells e1 l) (recall_cell_capacity e)"
      using slots_evict [OF sl v] c(3) by (simp add: f od_mem_get)
    show "list_all (col_ok e) (od_keys (chunk_to_cell e1 l))" using keys by (auto simp: f od_keys_pop list_all_iff)
    fix x assume "0 \<le> chunk_cell_lut e1 l x"
    then have "x \<noteq> v" by (auto simp: f)
    then show "chunk_cell_lut e1 l x = chunk_cell_lut e l x \<and> od_get (chunk_to_cell e1 l) x = od_get (chunk_to_cell e l) x"
      by (simp add: f od_simps)
  qed (simp add: f)
  then show ?thesis using r f by (auto simp: same_bytes_def put_cell_fields od_simps)
qed

lemma place_chunks_post:
  assumes "mid l S e" "distinct cs" "\<forall>c \<in> set cs. c \<in> S \<and> col_ok e c \<and> od_get (chunk_to_cell e l) c = None"
    and "place_chunks l prot cs e = (r, e')"
  shows "r = Inr () \<and> mid l S e' \<and> same_bytes e e'"
  using assms
proof (induction cs arbitrary: e)
  case Nil
  then show ?case by (simp add: same_bytes_def)
next
  case (Cons c cs)
  note m = Cons.prems(1)
  have c: "c \<in> S" "col_ok e c" "od_get (chunk_to_cell e l) c = None" using Cons.prems(3) by auto
  have keys: "list_all (col_ok e) (od_keys (chunk_to_cell e l))" using m by (simp add: mid_def eager_slots_def)
  have go: ?case if "mid l S (put_cell l c cell e1)" "same_bytes e (put_cell l c cell e1)"
    "\<forall>x. od_get (chunk_to_cell e l) x = None \<longrightarrow> od_get (chunk_to_cell e1 l) x = None"
    and eq: "place_chunks l prot (c # cs) e = (case place_chunk l c cell e1 of
        (Inl x, e'') \<Rightarrow> (Inl x, e'') | (Inr _, e'') \<Rightarrow> place_chunks l prot cs e'')" for cell e1
  proof -
    have sz: "sizes (put_cell l c cell e1) = sizes e" using that(2) by (simp add: same_bytes_def)
    then have "col_ok e1 c" using c(2) same_sizes(13) [of e1 e] by (simp add: put_cell_fields)
    then have "place_chunks l prot cs (put_cell l c cell e1) = (r, e')"
      using Cons.prems(4) eq by (simp add: place_chunk_put)
    moreover have "\<forall>x \<in> set cs. x \<in> S \<and> col_ok (put_cell l c cell e1) x
        \<and> od_get (chunk_to_cell (put_cell l c cell e1) l) x = None"
      using Cons.prems(2,3) that(3) same_sizes(13) [OF sz] by (auto simp: put_cell_fields od_simps)
    ultimately show ?thesis using Cons.IH [OF that(1)] Cons.prems(2) that(2) by (auto simp: same_bytes_def)
  qed
  note sl = mid_layer [OF m, of l]
  have nm: "\<not> od_mem c (chunk_to_cell e l)" using c(3) by (simp add: od_mem_get)
  show ?case
  proof (cases "free_cells e l = []")
    case False
    let ?e1 = "e\<lparr>free_cells := (free_cells e)(l := butlast (free_cells e l))\<rparr>"
    have f: "sizes ?e1 = sizes e" "reserve_buf ?e1 = reserve_buf e" by (simp_all add: sizes_def reserve_buf_def)
    have "mid l S (put_cell l c (last (free_cells e l)) ?e1)"
      by (rule mid_put [OF m c(1,2) f(1) _ f(2)]) (use slots_from_free [OF sl nm False] keys in simp_all)
    then show ?thesis by (rule go) (simp_all add: False same_bytes_def put_cell_fields f)
  next
    case free: True
    show ?thesis
    proof (cases "next_cell e l < recall_cell_capacity e")
      case True
      let ?e1 = "e\<lparr>next_cell := (next_cell e)(l := next_cell e l + 1)\<rparr>"
      have f: "sizes ?e1 = sizes e" "reserve_buf ?e1 = reserve_buf e" by (simp_all add: sizes_def reserve_buf_def)
      have "mid l S (put_cell l c (next_cell e l) ?e1)"
        by (rule mid_put [OF m c(1,2) f(1) _ f(2)]) (use slots_from_mark [OF sl nm True] keys in simp_all)
      then show ?thesis by (rule go) (simp_all add: free True same_bytes_def put_cell_fields f)
    next
      case mark: False
      obtain r1 e1 where ev: "evict_one l prot e = (r1, e1)" by fastforce
      from evict_one_put [OF m c ev] show ?thesis
      proof (elim disjE exE conjE)
        fix cell assume "r1 = Inr (Some cell)" "mid l S (put_cell l c cell e1)" "same_bytes e (put_cell l c cell e1)"
          "\<forall>x. od_get (chunk_to_cell e l) x = None \<longrightarrow> od_get (chunk_to_cell e1 l) x = None"
        then show ?thesis by (intro go) (simp_all add: free mark ev)
      next
        assume n: "r1 = Inr None" "e1 = e"
        let ?e = "e\<lparr>full_flag := (full_flag e)(l := True)\<rparr>"
        have f: "sizes ?e = sizes e" "reserve_buf ?e = reserve_buf e" by (simp_all add: sizes_def reserve_buf_def)
        have "mid l S ?e"
          using m sl keys same_sizes(2,5) [OF f(1)]
          by (intro mid_update [OF m f(1) _ f(2)]) (auto simp: mid_def owned_def eager_owner_def resident_def)
        with n Cons.prems(4) f show ?thesis by (auto simp: free mark ev same_bytes_def)
      qed
    qed
  qed
qed


lemma clamp_col_ok: "col_ok e c \<Longrightarrow> clamp_col e c = c"
  by (simp add: col_ok_def clamp_col_def)

text \<open>Mapping chunks of \<open>S\<close> to the cells they own.\<close>

lemma mid_map:
  assumes m: "mid l S e" and keys: "distinct (map fst ps)" "fst ` set ps \<subseteq> S"
    and e1: "sizes e1 = sizes e" "host_mirror e1 = host_mirror e" "reserve_buf e1 = reserve_buf e"
      "chunk_cell_lut e1 = (chunk_cell_lut e)(l := scatter ps (chunk_cell_lut e l))"
      "\<And>l'. l' \<noteq> l \<Longrightarrow> chunk_to_cell e1 l' = chunk_to_cell e l' \<and> next_cell e1 l' = next_cell e l'
         \<and> free_cells e1 l' = free_cells e l'"
    and sl: "slots_ok (chunk_to_cell e1 l) (next_cell e1 l) (free_cells e1 l) (recall_cell_capacity e)"
      "list_all (col_ok e) (od_keys (chunk_to_cell e1 l))"
    and own: "\<And>c d. (c, d) \<in> set ps \<Longrightarrow> od_get (chunk_to_cell e1 l) c = Some d"
    and old: "\<And>c. c \<notin> fst ` set ps \<Longrightarrow> od_get (chunk_to_cell e l) c \<noteq> None \<Longrightarrow>
        od_get (chunk_to_cell e1 l) c = od_get (chunk_to_cell e l) c"
  shows "mid l S e1"
proof (rule mid_update [OF m e1(1-3) sl])
  fix l' assume "l' \<noteq> l"
  with e1(4,5) show "chunk_to_cell e1 l' = chunk_to_cell e l' \<and> next_cell e1 l' = next_cell e l'
      \<and> free_cells e1 l' = free_cells e l' \<and> chunk_cell_lut e1 l' = chunk_cell_lut e l'" by simp
next
  fix c assume r: "resident e1 l c"
  have out: "c \<notin> fst ` set ps \<Longrightarrow> chunk_cell_lut e1 l c = chunk_cell_lut e l c"
    by (simp add: e1 scatter_other)
  then show "c \<notin> S \<Longrightarrow> chunk_cell_lut e1 l c = chunk_cell_lut e l c" using keys(2) by blast
  show "od_get (chunk_to_cell e1 l) c = Some (chunk_cell_lut e1 l c)"
  proof (cases "c \<in> fst ` set ps")
    case True
    then obtain d where d: "(c, d) \<in> set ps" by force
    then have "chunk_cell_lut e1 l c = d" using scatter_distinct [of ps c d] keys(1) by (simp add: e1)
    with own [OF d] show ?thesis by simp
  next
    case False
    with out r same_sizes(2,5) [OF e1(1)] have "resident e l c" by (simp add: resident_def)
    with m have "od_get (chunk_to_cell e l) c = Some (chunk_cell_lut e l c)"
      by (simp add: mid_def owned_def eager_owner_def)
    with old [OF False] out [OF False] show ?thesis by simp
  qed
qed

lemma eager_alloc_post:
  assumes inv: "eager_inv e" and todo: "distinct todo" "\<forall>c \<in> set todo. col_ok e c"
    and a: "eager_alloc l chunks_t todo e = (r, e')"
  shows "r = Inr () \<and> mid l (set todo) e' \<and> same_bytes e e'"
proof -
  let ?c2c = "chunk_to_cell e l"
  let ?reuse = "filter (\<lambda>c. od_mem c ?c2c) todo" and ?new = "filter (\<lambda>c. \<not> od_mem c ?c2c) todo"
  let ?rs = "map (\<lambda>c. (c, the (od_get ?c2c c))) ?reuse"
  let ?e1 = "lut_scatter_layer l ?rs e"
  have clamp: "map (\<lambda>c. (clamp_col e c, the (od_get ?c2c c))) ?reuse = ?rs"
    using todo(2) by (simp add: clamp_col_ok)
  have f: "sizes ?e1 = sizes e" "host_mirror ?e1 = host_mirror e" "reserve_buf ?e1 = reserve_buf e"
    "chunk_to_cell ?e1 = chunk_to_cell e" "next_cell ?e1 = next_cell e" "free_cells ?e1 = free_cells e"
    "chunk_cell_lut ?e1 = (chunk_cell_lut e)(l := scatter ?rs (chunk_cell_lut e l))"
    by (simp_all add: engine_simps) (simp_all add: lut_scatter_layer_def)
  note m0 = mid_eager [OF inv, of l "set todo"]
  note sl = mid_layer [OF m0, of l]
  have keys: "list_all (col_ok e) (od_keys ?c2c)" using m0 by (simp add: mid_def eager_slots_def)
  have m1: "mid l (set todo) ?e1"
    by (rule mid_map [OF m0, where ps = ?rs])
      (use todo(1) sl keys f in \<open>auto simp: comp_def od_mem_get\<close>)
  have new: "distinct ?new" "\<forall>c \<in> set ?new. \<not> od_mem c ?c2c"
    "\<forall>c \<in> set ?new. c \<in> set todo \<and> col_ok ?e1 c \<and> od_get (chunk_to_cell ?e1 l) c = None"
    unfolding f(4) same_sizes(13) [OF f(1)] using todo by (auto simp: od_mem_get)
  consider (none) "?new = []" "r = Inr ()" "e' = ?e1"
    | (block) "next_cell e l + int (length ?new) \<le> recall_cell_capacity e" "r = Inr ()"
        "e' = (lut_scatter_layer l (zip ?new (int_range (next_cell e l) (length ?new))) ?e1)
           \<lparr>next_cell := (next_cell e)(l := next_cell e l + int (length ?new)),
            chunk_to_cell := (chunk_to_cell e)(l := fold (\<lambda>(c, cell). od_set c cell)
               (zip ?new (int_range (next_cell e l) (length ?new))) ?c2c)\<rparr>"
    | (loop) "place_chunks l chunks_t ?new ?e1 = (r, e')"
  proof -
    have "map (clamp_col e) ?new = ?new" using todo(2) by (intro map_idI) (simp add: clamp_col_ok)
    with a that show thesis unfolding eager_alloc_def Let_def clamp by (auto split: if_splits)
  qed
  then show ?thesis
  proof cases
    case none
    with m1 f show ?thesis by (simp add: same_bytes_def)
  next
    case block
    let ?ps = "zip ?new (int_range (next_cell e l) (length ?new))"
    have fst: "map fst ?ps = ?new" by simp
    have f': "sizes e' = sizes ?e1" "host_mirror e' = host_mirror ?e1" "reserve_buf e' = reserve_buf ?e1"
      "chunk_cell_lut e' = (chunk_cell_lut ?e1)(l := scatter ?ps (chunk_cell_lut ?e1 l))"
      "next_cell e' = (next_cell e)(l := next_cell e l + int (length ?new))" "free_cells e' = free_cells e"
      "chunk_to_cell e' = (chunk_to_cell e)(l := fold (\<lambda>(c, cell). od_set c cell) ?ps ?c2c)"
      by (simp_all add: block(3) lut_scatter_layer_def sizes_def reserve_buf_def)
    have get: "od_get (chunk_to_cell e' l) c = (case map_of ?ps c of Some v \<Rightarrow> Some v | None \<Rightarrow> od_get ?c2c c)" for c
      unfolding f' using od_get_fold_set [of ?ps ?c2c c] new(1) fst by simp
    have ks: "set (od_keys (chunk_to_cell e' l)) \<subseteq> set (od_keys ?c2c) \<union> set ?new"
    proof
      fix k assume "k \<in> set (od_keys (chunk_to_cell e' l))"
      then have "od_get (chunk_to_cell e' l) k \<noteq> None" by (simp add: map_of_eq_None_iff)
      then have "map_of ?ps k \<noteq> None \<or> od_get ?c2c k \<noteq> None" unfolding get by (cases "map_of ?ps k") simp_all
      then have "k \<in> fst ` set ?ps \<or> k \<in> fst ` set ?c2c" unfolding map_of_eq_None_iff by blast
      moreover have "fst ` set ?ps = set ?new" using fst by (metis set_map)
      ultimately show "k \<in> set (od_keys ?c2c) \<union> set ?new" by auto
    qed
    have cap: "recall_cell_capacity ?e1 = recall_cell_capacity e" "col_ok ?e1 = col_ok e"
      using same_sizes(9,13) [OF f(1)] by simp_all
    have "mid l (set todo) e'"
    proof (rule mid_map [OF m1, where ps = ?ps])
      show "slots_ok (chunk_to_cell e' l) (next_cell e' l) (free_cells e' l) (recall_cell_capacity ?e1)"
        using slots_block [OF sl new(1,2) block(1)] by (simp add: f' cap)
      show "list_all (col_ok ?e1) (od_keys (chunk_to_cell e' l))"
        unfolding cap list_all_iff
      proof
        fix k assume "k \<in> set (od_keys (chunk_to_cell e' l))"
        with ks have "k \<in> set (od_keys ?c2c) \<or> k \<in> set todo" by auto
        with keys todo(2) show "col_ok e k" by (auto simp: list_all_iff)
      qed
      show "od_get (chunk_to_cell e' l) c = Some d" if "(c, d) \<in> set ?ps" for c d
        unfolding get using map_of_is_SomeI [of ?ps c d] that new(1) fst by simp
      show "od_get (chunk_to_cell e' l) c = od_get (chunk_to_cell ?e1 l) c"
        if "c \<notin> fst ` set ?ps" for c
        unfolding get f using that by (simp add: map_of_eq_None_iff [THEN iffD2])
      show "fst ` set ?ps \<subseteq> set todo" using fst by (metis filter_is_subset set_map)
      show "distinct (map fst ?ps)" using fst new(1) by simp
    qed (simp_all add: f' f)
    with block(2) f f' show ?thesis by (simp add: same_bytes_def)
  next
    case loop
    from place_chunks_post [OF m1 new(1,3) loop] f show ?thesis by (simp add: same_bytes_def)
  qed
qed



subsection \<open>The recall\<close>

lemma eager_selected:
  assumes "\<forall>c \<in> set locs. c < lut_cols e"
  shows "\<forall>c \<in> set (filter (\<lambda>c. chunk_cell_lut e l (clamp_col e c) < 0) (filter (\<lambda>c. 0 \<le> c) (unique locs))). col_ok e c"
  using assms by (auto simp: col_ok_def)

text \<open>The copy at the end covers every chunk left to copy.\<close>

lemma mid_copy:
  assumes m: "mid l (set todo) e" and d: "distinct todo" "\<forall>c \<in> set todo. 0 \<le> c"
  defines "cl \<equiv> filter (\<lambda>c. od_mem c (chunk_to_cell e l)) todo"
  shows "eager_inv (copy_layer l cl (map (\<lambda>c. the (od_get (chunk_to_cell e l) c)) cl) e)" (is "eager_inv ?e")
    and "cl = [] \<Longrightarrow> eager_inv e"
proof -
  let ?cells = "map (\<lambda>c. the (od_get (chunk_to_cell e l) c)) cl"
  let ?ok = "filter (in_bounds (n_logical_pages e) (reserve_pages e)) (zip cl ?cells)"
  have cfg: "cfg_ok e" and fits: "row_fits (row_bytes e)" using m by (auto simp: mid_def cfg_ok_def)
  have own: "od_get (chunk_to_cell e l') c = Some (chunk_cell_lut e l' c)" if "resident e l' c" for l' c
    using m that by (simp add: mid_def owned_def eager_owner_def)
  have zip: "zip cl ?cells = map (\<lambda>c. (c, the (od_get (chunk_to_cell e l) c))) cl"
    by (rule nth_equalityI) simp_all
  have in_ok: "(c, d) \<in> set ?ok \<Longrightarrow> od_get (chunk_to_cell e l) c = Some d" for c d
    unfolding zip by (auto simp: cl_def od_mem_get)
  have cells: "distinct (map snd ?ok)"
  proof -
    have "distinct (map fst ?ok)" unfolding zip using d(1) by (auto simp: cl_def distinct_map_filter comp_def)
    moreover have "inj_on snd (set ?ok)"
    proof (rule inj_onI)
      fix p q assume p: "p \<in> set ?ok" "q \<in> set ?ok" "snd p = snd q"
      then have "od_get (chunk_to_cell e l) (fst p) = Some (snd p)" "od_get (chunk_to_cell e l) (fst q) = Some (snd p)"
        using in_ok [unfolded prod.collapse, of "fst p" "snd p"] in_ok [of "fst q" "snd q"]
        unfolding prod.collapse by simp_all
      then have "fst p = fst q" by (rule slots_inj [OF mid_layer [OF m]])
      with p(3) show "p = q" by (simp add: prod_eq_iff)
    qed
    ultimately show ?thesis by (simp add: distinct_map)
  qed
  have f: "sizes ?e = sizes e" "host_mirror ?e = host_mirror e" "chunk_cell_lut ?e = chunk_cell_lut e"
    "alloc_state ?e = alloc_state e"
    "reserve_buf ?e = (reserve_buf e)(l := copy_pairs (row_bytes e) (host_mirror e l) ?ok (reserve_buf e l))"
    by (simp_all add: copy_layer_def engine_simps copy_chunks_layer_pairs)
  note sz = same_sizes [OF f(1)]
  have res: "resident ?e l' c \<longleftrightarrow> resident e l' c" for l' c by (simp add: resident_def f sz)
  have bytes: "chunk_bytes (row_bytes e) (reserve_buf ?e l') (chunk_cell_lut e l' c)
      = chunk_bytes (row_bytes e) (host_mirror e l') c" if r: "resident e l' c" for l' c
  proof (cases "l' = l \<and> c \<in> set todo")
    case True
    have "(c, chunk_cell_lut e l c) \<in> set ?ok"
      unfolding zip using True own [OF r] r decode_base_bounds(3) [OF cfg]
      by (auto simp: cl_def od_mem_get resident_def in_bounds_def cell_capacity_def image_iff)
    from copy_pairs_copied [OF fits cells this] True show ?thesis by (simp add: f)
  next
    case False
    then have old: "chunk_bytes (row_bytes e) (reserve_buf e l') (chunk_cell_lut e l' c)
        = chunk_bytes (row_bytes e) (host_mirror e l') c"
      using m r by (simp add: mid_def)
    show ?thesis
    proof (cases "l' = l")
      case True
      have "chunk_cell_lut e l c \<notin> snd ` set ?ok"
      proof
        assume "chunk_cell_lut e l c \<in> snd ` set ?ok"
        then obtain x where x: "(x, chunk_cell_lut e l c) \<in> set ?ok" by force
        have "x = c" using slots_inj [OF mid_layer [OF m] in_ok [OF x]] own [OF r] True by simp
        with x False True show False unfolding zip by (auto simp: cl_def)
      qed
      from copy_pairs_untouched [OF fits this] old True show ?thesis by (simp add: f)
    qed (use old in \<open>simp add: f\<close>)
  qed
  have sl: "eager_slots ?e" using eager.slots_books [OF f(4)] m by (simp add: mid_def)
  have ow: "owned eager_owner ?e"
    using eager.owner_books [OF f(4)] m by (simp add: owned_def res f mid_def)
  show "eager_inv ?e"
    unfolding path_inv_def coherent_def using sl ow cfg bytes by (simp add: res f sz)
  show "eager_inv e" if "cl = []"
  proof -
    have "?ok = []" using that by simp
    then have "reserve_buf ?e = reserve_buf e" by (simp add: f copy_pairs_def)
    with bytes m show ?thesis by (simp add: path_inv_def coherent_def mid_def)
  qed
qed

lemma recall_eager_keeps:
  assumes inv: "eager_inv e" and rng: "\<forall>c \<in> set locs. c < lut_cols e"
  shows "eager_inv (snd (recall_eager l locs e)) \<and> (\<exists>n. fst (recall_eager l locs e) = Inr n)
    \<and> sizes (snd (recall_eager l locs e)) = sizes e \<and> host_mirror (snd (recall_eager l locs e)) = host_mirror e"
proof -
  let ?u = "filter (\<lambda>c. 0 \<le> c) (unique locs)"
  let ?todo = "filter (\<lambda>c. chunk_cell_lut e l (clamp_col e c) < 0) ?u"
  obtain r e1 where a: "eager_alloc l ?u ?todo e = (r, e1)" by fastforce
  from eager_alloc_post [OF inv _ eager_selected [OF rng] a]
  have post: "r = Inr ()" "mid l (set ?todo) e1" "same_bytes e e1" by simp_all
  let ?cl = "filter (\<lambda>c. od_mem c (chunk_to_cell e1 l)) ?todo"
  let ?e2 = "copy_layer l ?cl (map (\<lambda>c. the (od_get (chunk_to_cell e1 l) c)) ?cl) e1"
  have "distinct ?todo" "\<forall>c \<in> set ?todo. 0 \<le> c" by simp_all
  note copy = mid_copy [OF post(2) this]
  have f: "sizes ?e2 = sizes e1" "host_mirror ?e2 = host_mirror e1" by (simp_all add: copy_layer_def engine_simps)
  have eq: "recall_eager l locs e = (if locs = [] \<or> ?u = [] \<or> ?todo = [] then (Inr 0, e)
      else if ?cl = [] then (Inr 0, e1) else (Inr (int (length ?cl)), ?e2))"
    unfolding recall_eager_def Let_def a post(1) by simp
  show ?thesis unfolding eq using inv copy f post(3) by (simp add: same_bytes_def)
qed


text \<open>The eager decode store: the mirror write, then the recall of the written chunks.\<close>

lemma store_decode_eager_keeps:
  assumes inv: "eager_inv e" and mode: "\<not> global_mode e"
    and loc: "\<forall>c \<in> set loc. 0 \<le> c \<and> c < n_logical_pages e * 64" and p: "pack_dims p" "pack_len (length loc) p"
  shows "eager_inv (snd (store_decode l loc p e)) \<and> fst (store_decode l loc p e) = Inr ()
    \<and> sizes (snd (store_decode l loc p e)) = sizes e"
proof (cases "loc = []")
  case False
  have "cfg_ok e" using inv by (simp add: path_inv_def)
  then obtain m where
    st: "store_prefill_to_mirror l loc p e
      = (Inr (), lut_clear_layer l (unique loc) (e\<lparr>host_mirror := (host_mirror e)(l := m)\<rparr>))"
      (is "_ = (_, ?e1)") by (rule store_prefill_effect [OF _ False loc p]) (rule that)
  have sz: "sizes ?e1 = sizes e" by (simp add: engine_simps) (simp add: sizes_def)
  from eager.inv_store_prefill [OF inv loc p, of l] st have i: "eager_inv ?e1" by simp
  have "\<forall>c \<in> set loc. c < lut_cols ?e1" using loc same_sizes(7) [OF sz] by (auto simp: lut_cols_def)
  note r = recall_eager_keeps [OF i this, of l]
  have "store_decode l loc p e = (case recall_eager l loc ?e1 of (Inl x, e2) \<Rightarrow> (Inl x, e2) | (Inr _, e2) \<Rightarrow> (Inr (), e2))"
    using False st mode same_sizes(17) [OF sz] by (simp add: store_decode_def recall_chunks_def)
  moreover obtain n e2 where "recall_eager l loc ?e1 = (Inr n, e2)" using r by (metis prod.collapse)
  ultimately show ?thesis using r sz by simp
qed (simp add: store_decode_def inv)

lemma pop_keys_subset:
  assumes "pop_keys ks (d, free) = (d', free')"
  shows "set (od_keys d') \<subseteq> set (od_keys d)"
proof
  fix k assume "k \<in> set (od_keys d')"
  then have "od_get d' k \<noteq> None" by (simp add: map_of_eq_None_iff)
  then have "od_get d k \<noteq> None" using pop_keys_get [OF assms, of k] by (simp split: if_splits)
  then show "k \<in> set (od_keys d)" by (simp add: map_of_eq_None_iff)
qed

lemma list_all_subset: "set xs \<subseteq> set ys \<Longrightarrow> list_all P ys \<Longrightarrow> list_all P xs"
  by (auto simp: list_all_iff)

lemma release_req_eager_keeps:
  assumes inv: "eager_inv e" and mode: "\<not> page_recall e" "\<not> global_mode e"
  shows "eager_inv (snd (release_req_pool_locs locs e))" (is "eager_inv ?e")
proof (cases "filter (col_ok e) (unique locs) = []")
  case False
  let ?locs = "filter (col_ok e) (unique locs)"
  let ?pop = "\<lambda>l. if l < c4_layer_num e
    then pop_keys (filter (\<lambda>c. od_mem c (chunk_to_cell e l)) ?locs) (chunk_to_cell e l, free_cells e l)
    else (chunk_to_cell e l, free_cells e l)"
  have e: "?e = lut_clear_all ?locs (e\<lparr>chunk_to_cell := (\<lambda>l. fst (?pop l)), free_cells := (\<lambda>l. snd (?pop l))\<rparr>)"
    using False mode by (simp only: release_req_pool_locs_def Let_def if_False snd_conv)
  have sz: "sizes ?e = sizes e" unfolding e by (simp add: engine_simps) (simp add: sizes_def)
  have books: "chunk_to_cell ?e = (\<lambda>l. fst (?pop l))" "free_cells ?e = (\<lambda>l. snd (?pop l))" "next_cell ?e = next_cell e"
    unfolding e by (simp_all add: lut_clear_all_def)
  have bytes: "host_mirror ?e = host_mirror e" "reserve_buf ?e = reserve_buf e"
    unfolding e by (simp_all add: lut_clear_all_def reserve_buf_def)
  have "eager_slots ?e"
    unfolding eager_slots_def books same_sizes(9,13) [OF sz]
  proof (intro allI conjI)
    fix l
    have old: "slots_ok (chunk_to_cell e l) (next_cell e l) (free_cells e l) (recall_cell_capacity e)"
      "list_all (col_ok e) (od_keys (chunk_to_cell e l))"
      using inv by (simp_all add: path_inv_def eager_slots_def)
    obtain d f where pop: "pop_keys (filter (\<lambda>c. od_mem c (chunk_to_cell e l)) ?locs) (chunk_to_cell e l, free_cells e l) = (d, f)"
      by fastforce
    show "slots_ok (fst (?pop l)) (next_cell e l) (snd (?pop l)) (recall_cell_capacity e)"
      using old(1) slots_pop_keys [OF old(1) pop] by (simp add: pop del: filter_filter)
    show "list_all (col_ok e) (od_keys (fst (?pop l)))"
      using old(2) list_all_subset [OF pop_keys_subset [OF pop] old(2)] by (simp add: pop del: filter_filter)
  qed
  then show ?thesis
  proof (rule eager.inv_shrink [OF inv sz])
    fix l c assume r: "resident ?e l c"
    have lut: "chunk_cell_lut ?e l c = fill ?locs (- 1) (chunk_cell_lut e l) c" unfolding e by (simp add: engine_simps)
    have pos: "0 \<le> chunk_cell_lut ?e l c" using r by (simp only: resident_def)
    from this [unfolded lut] show "chunk_cell_lut ?e l c = chunk_cell_lut e l c"
      unfolding lut by (rule eager.fill_resident)
    have c: "c \<notin> set ?locs"
    proof
      assume "c \<in> set ?locs"
      with pos show False unfolding lut by (simp only: fill_in)
    qed
    obtain d f where pop: "pop_keys (filter (\<lambda>c. od_mem c (chunk_to_cell e l)) ?locs) (chunk_to_cell e l, free_cells e l) = (d, f)"
      by fastforce
    have "c \<notin> set (filter (\<lambda>c. od_mem c (chunk_to_cell e l)) ?locs)" using c by auto
    then show "eager_owner ?e l c = eager_owner e l c"
      unfolding eager_owner_def books using pop_keys_get [OF pop, of c] by (simp add: pop del: filter_filter set_filter)
    show "chunk_bytes (row_bytes e) (host_mirror ?e l) c = chunk_bytes (row_bytes e) (host_mirror e l) c"
      by (simp only: bytes)
  qed (simp only: bytes)
next
  case True
  then have "?e = e" by (simp add: release_req_pool_locs_def Let_def)
  with inv show ?thesis by simp
qed

end
