(* ===== verification/EagerRun.thy ===== *)
theory EagerRun
  imports SwapProps SwapEager
begin

section \<open>Runs of the eager path\<close>

text \<open>
  The swap engine outside the CUDA-graph mode: every layer has its own table, dictionary and high-
  water mark, and \<open>store_decode\<close> writes through the mirror. \<open>eager_step\<close> is one call of the
  interface with the arguments its callers pass; the runs keep the invariant of the eager owner,
  so a mapped chunk always reads its mirror bytes. \<open>reset_recall_state\<close> is left out of the
  relation: it rewinds the high-water marks and keeps the per-layer dictionaries, and the last
  theorem exhibits two chunks in one cell after it.
\<close>

inductive eager_step :: "engine \<Rightarrow> engine \<Rightarrow> bool" where
  eager_recall: "\<forall>c \<in> set locs. c < lut_cols e \<Longrightarrow> eager_step e (snd (recall_chunks l locs e))"
| eager_prefill: "\<forall>c \<in> set loc. 0 \<le> c \<and> c < n_logical_pages e * 64 \<Longrightarrow>
    pack_dims p \<Longrightarrow> pack_len (length loc) p \<Longrightarrow> eager_step e (snd (store_prefill_to_mirror l loc p e))"
| eager_decode: "\<forall>c \<in> set loc. 0 \<le> c \<and> c < n_logical_pages e * 64 \<Longrightarrow>
    pack_dims p \<Longrightarrow> pack_len (length loc) p \<Longrightarrow> eager_step e (snd (store_decode l loc p e))"
| eager_remap: "eager_step e (snd (remap_compressed_locs e l locs))"
| eager_stats: "eager_step e (snd (get_and_reset_remap_miss e))"
| eager_discard: "eager_step e (snd (discard_copied_pages pages e))"
| eager_transfer: "(\<And>l a. a div row_bytes e \<notin> set (pages_in_range e pages) \<Longrightarrow> m l a = host_mirror e l a) \<Longrightarrow>
    eager_step e (snd (discard_copied_pages pages (e\<lparr>host_mirror := m\<rparr>)))"
| eager_ingest: "own_reserve e \<or> \<not> poison_after_ingest e \<Longrightarrow>
    eager_step e (snd (ingest_transferred_history pages e))"
| eager_release: "eager_step e (snd (release_req_pool_locs locs e))"

inductive eager_run :: "engine \<Rightarrow> engine \<Rightarrow> bool" where
  eager_refl: "eager_run e e"
| eager_next: "eager_run e e1 \<Longrightarrow> eager_step e1 e2 \<Longrightarrow> eager_run e e2"

definition eager_mode :: "engine \<Rightarrow> bool" where
  "eager_mode e \<longleftrightarrow> \<not> global_mode e \<and> \<not> page_recall e"

lemma eager_step_keeps:
  assumes "eager_step e e'" "eager_mode e" "eager_inv e"
  shows "eager_inv e' \<and> sizes e' = sizes e"
  using assms
proof (induction rule: eager_step.induct)
  case (eager_recall locs e l)
  with recall_eager_keeps [OF eager_recall(3,1)] show ?case by (simp add: recall_chunks_def eager_mode_def)
next
  case (eager_prefill loc e p l)
  then show ?case by (simp add: eager.inv_store_prefill other_sizes)
next
  case (eager_decode loc e p l)
  then show ?case using store_decode_eager_keeps by (simp add: eager_mode_def)
next
  case (eager_stats e)
  show ?case by (rule conjI, rule eager.inv_irrelevant [OF eager_stats(2)])
      (simp_all add: get_and_reset_remap_miss_def alloc_state_def sizes_def reserve_buf_def)
next
  case (eager_release e locs)
  then show ?case by (simp add: release_req_eager_keeps release_sizes eager_mode_def)
qed (simp_all add: eager.inv_remap eager.inv_discard eager.inv_transfer eager.inv_ingest other_sizes sizes_update)

lemma eager_run_keeps:
  assumes "eager_run e e'" "eager_mode e" "eager_inv e"
  shows "eager_inv e' \<and> sizes e' = sizes e"
  using assms
proof (induction rule: eager_run.induct)
  case (eager_next e e1 e2)
  then have e1: "eager_inv e1" "sizes e1 = sizes e" by auto
  from same_sizes(16,17) [OF e1(2)] eager_next.prems(1) have "eager_mode e1" by (simp add: eager_mode_def)
  from eager_step_keeps [OF eager_next.hyps(2) this e1(1)] e1(2) show ?case by simp
qed simp

definition eager_env :: envs where
  "eager_env = (small_env False)\<lparr>env_cudagraph := False\<rparr>"

definition eager_engine :: engine where
  "eager_engine = init_engine eager_env (\<lambda>_ _. 0) 4 4 2 448 64 2"

lemma eager_engine_fields [simp]:
  "cfg_ok eager_engine" "n_logical_pages eager_engine = 4" "decode_base eager_engine = 126"
  "recall_cell_capacity eager_engine = 126" "own_reserve eager_engine" "lut_cols eager_engine = 257"
  "chunk_cell_lut eager_engine = (\<lambda>_ _. - 1)" "\<not> page_recall eager_engine" "\<not> global_mode eager_engine"
  "chunk_to_cell eager_engine = (\<lambda>_. [])" "next_cell eager_engine = (\<lambda>_. 0)" "free_cells eager_engine = (\<lambda>_. [])"
  by (simp_all add: eager_engine_def eager_env_def small_defs cfg_ok_def size_defs row_bytes_of_def)

text \<open>C22: After any sequence of calls of the eager path other than \<open>reset_recall_state\<close> on the
  constructor's engine, a location the remap maps to a recall cell reads, in that layer, exactly the
  mirror's bytes of the chunk, and two chunks mapped in one layer never share a cell. The recalls and
  stores name locations of the logical pool. \<open>reset_recall_state\<close>, which the admission of a request
  calls when \<open>SGLANG_PATHP_RESET_RECALL_PER_REQ\<close> is set (it is not by default), is left out because
  it breaks both statements on this path: it rewinds the high-water marks and keeps the per-layer
  dictionaries (\<open>reset_shares_cell\<close>).\<close>

theorem eager_mode_reads:
  assumes "cfg_ok e0" "e0 = init_engine env pool pool_rows n layers nope rope res"
    and "\<not> env_cudagraph env" "\<not> env_page_recall env" "eager_run e0 e"
    and "0 \<le> c" "c < n * 64" "0 \<le> remap_loc e l c" "remap_loc e l c < decode_base e"
  shows "chunk_bytes (row_bytes e) (reserve_buf e l) (remap_loc e l c)
       = chunk_bytes (row_bytes e) (host_mirror e l) c
     \<and> (\<forall>d. resident e l c \<and> resident e l d \<and> c \<noteq> d \<longrightarrow> chunk_cell_lut e l c \<noteq> chunk_cell_lut e l d)"
proof -
  have "eager_mode e0" "n_logical_pages e0 = n" using assms(2-4) by (simp_all add: eager_mode_def init_fields)
  moreover have "eager_inv e0" using assms(1) unfolding assms(2) by (rule init_inv(3))
  ultimately have i: "eager_inv e" "n_logical_pages e = n"
    using eager_run_keeps [OF assms(5)] same_sizes(2) [of e e0] by simp_all
  show ?thesis
    using eager.read_mirror [OF i(1) assms(6) _ refl assms(8,9)] assms(7) i(2) eager.cells_apart [OF i(1)] by simp
qed

lemma recall_one_eager:
  assumes "\<not> global_mode e" "chunk_cell_lut e l c < 0" "0 \<le> c" "c < lut_cols e"
  shows "od_get (chunk_to_cell e l) c = None \<Longrightarrow> free_cells e l = [] \<Longrightarrow> next_cell e l < recall_cell_capacity e \<Longrightarrow>
      chunk_cell_lut (snd (recall_chunks l [c] e)) = (chunk_cell_lut e)(l := scatter [(c, next_cell e l)] (chunk_cell_lut e l))
      \<and> chunk_to_cell (snd (recall_chunks l [c] e)) = (chunk_to_cell e)(l := od_set c (next_cell e l) (chunk_to_cell e l))
      \<and> free_cells (snd (recall_chunks l [c] e)) = free_cells e \<and> sizes (snd (recall_chunks l [c] e)) = sizes e"
    and "od_get (chunk_to_cell e l) c = Some v \<Longrightarrow>
      chunk_cell_lut (snd (recall_chunks l [c] e)) = (chunk_cell_lut e)(l := scatter [(c, v)] (chunk_cell_lut e l))"
proof -
  have c: "clamp_col e c = c" using assms(3,4) by (simp add: clamp_col_ok col_ok_def)
  have eq: "recall_chunks l [c] e = (case eager_alloc l [c] [c] e of (Inl x, e1) \<Rightarrow> (Inl x, e1) | (Inr _, e1) \<Rightarrow>
      if od_mem c (chunk_to_cell e1 l)
      then (Inr 1, copy_layer l [c] [the (od_get (chunk_to_cell e1 l) c)] e1) else (Inr 0, e1))"
    using assms by (simp add: recall_chunks_def recall_eager_def unique_def Let_def c split: prod.split sum.split)
  show "chunk_cell_lut (snd (recall_chunks l [c] e)) = (chunk_cell_lut e)(l := scatter [(c, next_cell e l)] (chunk_cell_lut e l))
      \<and> chunk_to_cell (snd (recall_chunks l [c] e)) = (chunk_to_cell e)(l := od_set c (next_cell e l) (chunk_to_cell e l))
      \<and> free_cells (snd (recall_chunks l [c] e)) = free_cells e \<and> sizes (snd (recall_chunks l [c] e)) = sizes e"
    if "od_get (chunk_to_cell e l) c = None" "free_cells e l = []" "next_cell e l < recall_cell_capacity e"
    unfolding eq using that
    by (simp add: eager_alloc_def lut_scatter_layer_def int_range_def od_mem_get od_get_set c
        copy_layer_def set_reserve_def sizes_def Let_def)
  show "chunk_cell_lut (snd (recall_chunks l [c] e)) = (chunk_cell_lut e)(l := scatter [(c, v)] (chunk_cell_lut e l))"
    if "od_get (chunk_to_cell e l) c = Some v"
    unfolding eq using that
    by (simp add: eager_alloc_def lut_scatter_layer_def od_mem_get c copy_layer_def set_reserve_def Let_def)
qed

theorem eager_mode_reads_witness:
  "chunk_bytes (row_bytes (snd (recall_chunks 0 [5] eager_engine)))
     (reserve_buf (snd (recall_chunks 0 [5] eager_engine)) 0) 0
   = chunk_bytes (row_bytes (snd (recall_chunks 0 [5] eager_engine)))
     (host_mirror (snd (recall_chunks 0 [5] eager_engine)) 0) 5"
proof -
  let ?e = "snd (recall_chunks 0 [5] eager_engine)"
  have run: "eager_run eager_engine ?e" by (intro eager_next [OF eager_refl] eager_recall) simp
  have "eager_inv eager_engine" using init_inv(3) eager_engine_fields(1) unfolding eager_engine_def by blast
  from eager_run_keeps [OF run _ this] have sz: "sizes ?e = sizes eager_engine" by (simp add: eager_mode_def)
  have "chunk_cell_lut ?e 0 5 = 0" using recall_one_eager(1) [of eager_engine 0 5] by (simp add: scatter_def)
  with same_sizes(7) [OF sz] have "remap_loc ?e 0 5 = 0" by (simp add: remap_loc_def clamp_col_def clamp_def)
  with eager_mode_reads [OF eager_engine_fields(1) eager_engine_def _ _ run, of 5 0] same_sizes(5) [OF sz]
  show ?thesis by (simp add: eager_env_def small_env_def)
qed

text \<open>\<open>reset_recall_state\<close> is not a reset of the eager path: it clears the table and rewinds the
  per-layer high-water marks but keeps the per-layer dictionaries. From the constructor's engine, recalling
  chunk 5, resetting, recalling chunk 6 and then chunk 5 again leaves both chunks mapped to cell 0.\<close>

theorem reset_shares_cell:
  "let e1 = snd (recall_chunks 0 [5] eager_engine);
       e2 = snd (recall_chunks 0 [6] (reset_recall_state e1));
       e3 = snd (recall_chunks 0 [5] e2)
   in chunk_cell_lut e3 0 5 = 0 \<and> chunk_cell_lut e3 0 6 = 0"
proof -
  let ?e1 = "snd (recall_chunks 0 [5] eager_engine)"
  let ?r = "reset_recall_state ?e1"
  let ?e2 = "snd (recall_chunks 0 [6] ?r)"
  have 1: "chunk_to_cell ?e1 0 = [(5, 0)]" "free_cells ?e1 0 = []" "sizes ?e1 = sizes eager_engine"
    using recall_one_eager(1) [of eager_engine 0 5] by (simp_all add: od_set_def od_mem_def)
  have r: "chunk_to_cell ?r 0 = [(5, 0)]" "free_cells ?r 0 = []" "next_cell ?r 0 = 0" "chunk_cell_lut ?r = (\<lambda>_ _. - 1)"
    using 1 by (simp_all add: reset_recall_state_def)
  have sr: "sizes ?r = sizes eager_engine" using 1(3) by (simp add: reset_sizes)
  have 2: "chunk_to_cell ?e2 0 = [(5, 0), (6, 0)]" "sizes ?e2 = sizes eager_engine"
    "chunk_cell_lut ?e2 = (\<lambda>_ _. - 1)(0 := scatter [(6, 0)] (\<lambda>_. - 1))"
    using recall_one_eager(1) [of ?r 0 6] r same_sizes(7,9,17) [OF sr] sr by (simp_all add: od_set_def od_mem_def)
  have "chunk_cell_lut (snd (recall_chunks 0 [5] ?e2)) 0 = scatter [(5, 0)] (chunk_cell_lut ?e2 0)"
    using recall_one_eager(2) [of ?e2 0 5 0] 2 same_sizes(7,17) [OF 2(2)] by (simp add: scatter_def)
  then show ?thesis using 2 by (simp add: Let_def scatter_def)
qed

end
