(* ===== verification/TopK.thy ===== *)
theory TopK
  imports Prelude Complex_Main
begin

section \<open>Scores and their top-k selection\<close>

text \<open>
  Scores of the indexer and of the retriever. A logit is a real number or the \<open>-inf\<close> that masking
  writes. \<open>torch.topk\<close> is not part of the repository and leaves the order and the choice among equal
  scores open, so the code that calls it takes it as an argument, and \<open>topk_ok\<close> is what its
  documentation promises. \<open>topk_sort\<close> is one function with that behaviour.
\<close>

datatype logit = NegInf | Fin real

instantiation logit :: linorder
begin

definition less_eq_logit :: "logit \<Rightarrow> logit \<Rightarrow> bool" where
  "less_eq_logit a b = (case a of NegInf \<Rightarrow> True | Fin x \<Rightarrow> (case b of NegInf \<Rightarrow> False | Fin y \<Rightarrow> x \<le> y))"

definition less_logit :: "logit \<Rightarrow> logit \<Rightarrow> bool" where
  "less_logit a b = (case b of NegInf \<Rightarrow> False | Fin y \<Rightarrow> (case a of NegInf \<Rightarrow> True | Fin x \<Rightarrow> x < y))"

instance
  by standard (auto simp: less_eq_logit_def less_logit_def split: logit.splits)

end

lemma logit_le [simp]:
  "NegInf \<le> a" "\<not> Fin x \<le> NegInf" "Fin x \<le> Fin y \<longleftrightarrow> x \<le> y" "a \<le> NegInf \<longleftrightarrow> a = NegInf"
  by (auto simp: less_eq_logit_def split: logit.splits)

lemma logit_less [simp]: "NegInf < Fin y" "\<not> a < NegInf" "Fin x < Fin y \<longleftrightarrow> x < y"
  by (auto simp: less_logit_def split: logit.splits)

type_synonym 'a topk = "'a list \<Rightarrow> nat \<Rightarrow> nat list"

definition topk_ok :: "('a :: linorder) topk \<Rightarrow> bool" where
  "topk_ok tk \<longleftrightarrow> (\<forall>xs k. k \<le> length xs \<longrightarrow>
     length (tk xs k) = k \<and> distinct (tk xs k) \<and> set (tk xs k) \<subseteq> {..<length xs}
     \<and> (\<forall>i \<in> set (tk xs k). \<forall>j < length xs. j \<notin> set (tk xs k) \<longrightarrow> xs ! j \<le> xs ! i))"

lemma topkD:
  assumes "topk_ok tk" "k \<le> length xs"
  shows "length (tk xs k) = k" "distinct (tk xs k)" "i \<in> set (tk xs k) \<Longrightarrow> i < length xs"
    and "i \<in> set (tk xs k) \<Longrightarrow> j < length xs \<Longrightarrow> j \<notin> set (tk xs k) \<Longrightarrow> xs ! j \<le> xs ! i"
    and "card (set (tk xs k)) = k"
proof -
  have all: "length (tk xs k) = k \<and> distinct (tk xs k) \<and> set (tk xs k) \<subseteq> {..<length xs}
     \<and> (\<forall>i \<in> set (tk xs k). \<forall>j < length xs. j \<notin> set (tk xs k) \<longrightarrow> xs ! j \<le> xs ! i)"
    using assms by (simp add: topk_ok_def)
  then show "length (tk xs k) = k" "distinct (tk xs k)"
    and "i \<in> set (tk xs k) \<Longrightarrow> j < length xs \<Longrightarrow> j \<notin> set (tk xs k) \<Longrightarrow> xs ! j \<le> xs ! i" by auto
  show "i \<in> set (tk xs k) \<Longrightarrow> i < length xs" using all by (auto simp: subset_iff)
  show "card (set (tk xs k)) = k" using all by (simp add: distinct_card)
qed

text \<open>An entry that every other entry stays below is selected.\<close>

lemma topk_selects:
  assumes tk: "topk_ok tk" "k \<le> length xs" and j: "j < length xs"
    and few: "card {i. i < length xs \<and> xs ! j \<le> xs ! i} \<le> k"
  shows "j \<in> set (tk xs k)"
proof (rule ccontr)
  assume no: "j \<notin> set (tk xs k)"
  let ?up = "{i. i < length xs \<and> xs ! j \<le> xs ! i}"
  have "insert j (set (tk xs k)) \<subseteq> ?up" using topkD(3,4) [OF tk] j no by auto
  from card_mono [OF _ this] have "Suc k \<le> card ?up" using no topkD(5) [OF tk] by simp
  with few show False by simp
qed

text \<open>With enough unmasked entries no masked one is selected.\<close>

lemma topk_unmasked:
  assumes tk: "topk_ok tk" "k \<le> length xs" and many: "k \<le> card {j. j < length xs \<and> xs ! j \<noteq> NegInf}"
    and i: "i \<in> set (tk xs k)"
  shows "xs ! i \<noteq> NegInf"
proof
  assume inf: "xs ! i = NegInf"
  let ?F = "{j. j < length xs \<and> xs ! j \<noteq> NegInf}"
  have "\<not> ?F \<subseteq> set (tk xs k) - {i}"
  proof
    assume "?F \<subseteq> set (tk xs k) - {i}"
    from card_mono [OF _ this] have "card ?F \<le> card (set (tk xs k)) - 1" using i by simp
    moreover have "0 < card (set (tk xs k))" using i by (auto simp: card_gt_0_iff)
    ultimately show False using many topkD(5) [OF tk] by simp
  qed
  then obtain j where "j < length xs" "xs ! j \<noteq> NegInf" "j \<notin> set (tk xs k)" using inf by auto
  with topkD(4) [OF tk i] inf show False by auto
qed

definition topk_sort :: "('a :: linorder) topk" where
  "topk_sort xs k = take k (rev (sort_key (\<lambda>i. xs ! i) [0..<length xs]))"

lemma topk_sort_ok: "topk_ok topk_sort"
  unfolding topk_ok_def
proof (intro allI impI conjI ballI)
  fix xs :: "'a list" and k assume k: "k \<le> length xs"
  let ?s = "sort_key (\<lambda>i. xs ! i) [0..<length xs]"
  let ?m = "length xs - k"
  have tk: "topk_sort xs k = rev (drop ?m ?s)" using k by (simp add: topk_sort_def take_rev)
  have s: "length ?s = length xs" "distinct ?s" "set ?s = {..<length xs}"
    by (simp_all add: atLeast0LessThan)
  show "length (topk_sort xs k) = k" using k by (simp add: tk)
  show "distinct (topk_sort xs k)" using s(2) by (simp add: tk)
  show "set (topk_sort xs k) \<subseteq> {..<length xs}" unfolding tk set_rev s(3) [symmetric] by (rule set_drop_subset)
  fix i j assume i: "i \<in> set (topk_sort xs k)" and j: "j < length xs" "j \<notin> set (topk_sort xs k)"
  have "i \<in> set (drop ?m ?s)" using i by (simp add: tk)
  then obtain p where "p < length (drop ?m ?s)" "drop ?m ?s ! p = i" unfolding in_set_conv_nth by blast
  then have p: "p < k" "?s ! (?m + p) = i" using s(1) k by simp_all
  have "set (take ?m ?s @ drop ?m ?s) = {..<length xs}" using s(3) by (simp only: append_take_drop_id)
  moreover have "j \<in> {..<length xs}" "j \<notin> set (drop ?m ?s)" using j by (simp_all add: tk)
  ultimately have "j \<in> set (take ?m ?s)" unfolding set_append by blast
  then obtain q where "q < length (take ?m ?s)" "take ?m ?s ! q = j" unfolding in_set_conv_nth by blast
  then have q: "q < ?m" "?s ! q = j" using s(1) by simp_all
  have "sorted (map (\<lambda>i. xs ! i) ?s)" by simp
  from sorted_nth_mono [OF this, of q "?m + p"] p q s(1) k show "xs ! j \<le> xs ! i" by simp
qed

end
