(* ===== verification/Retriever.thy ===== *)
theory Retriever
  imports TopK
begin

section \<open>The inline retriever hook\<close>

text \<open>
  \<open>InlineRetrieverHook\<close> of \<open>inline_retriever_hook.py\<close>: the resident set one cycle of the retriever
  finalizes (\<open>_finalize_resident\<close>), and the score hook's state machine, which opens a cycle at the
  first target layer, collects one score per target layer, commits the finalized mask at the last
  one and confines every layer's logits to the committed mask. Arguments of the definitions: the
  trained scorer (a neural network, \<open>score\<close>: layer, row and number of chunks to a logit per chunk,
  \<open>None\<close> when the compressed keys cannot be extracted), \<open>torch.sigmoid\<close> (\<open>sg\<close>) and \<open>torch.topk\<close>
  (\<open>tk\<close>). Scores are real numbers.
\<close>

record hook =
  target_layers :: "nat list"
  h_interval :: int
  thresh :: real
  last_keep :: int
  first_keep :: int
  ensemble_or :: bool
  max_resident :: int
  sticky :: bool

subsection \<open>Finalizing a resident set\<close>

type_synonym scores = "nat \<Rightarrow> real list option"

definition ensemble :: "(real \<Rightarrow> real) \<Rightarrow> hook \<Rightarrow> scores \<Rightarrow> nat \<Rightarrow> real" where
  "ensemble sg h partial j =
     (let sigs = map (\<lambda>l. sg (the (partial l) ! j)) (target_layers h)
      in if ensemble_or h then fold max (tl sigs) (hd sigs) else sum_list sigs / real (length sigs))"

definition recent_mask :: "hook \<Rightarrow> nat \<Rightarrow> bool list" where
  "recent_mask h n_blk = map (\<lambda>j. max 0 (int n_blk - last_keep h) \<le> int j) [0..<n_blk]"

definition sink_mask :: "hook \<Rightarrow> nat \<Rightarrow> bool list" where
  "sink_mask h n_blk = map (\<lambda>j. int j < min (first_keep h) (int n_blk)) [0..<n_blk]"

definition count_true :: "bool list \<Rightarrow> int" where
  "count_true bs = int (length (filter id bs))"

definition forced_mask :: "hook \<Rightarrow> nat \<Rightarrow> bool list" where
  "forced_mask h n_blk = map2 (\<or>) (recent_mask h n_blk) (sink_mask h n_blk)"

text \<open>The shapes \<open>torch.stack\<close> and the elementwise \<open>|\<close> accept: one score of \<open>n_blk\<close> entries per target layer.\<close>

definition scores_ok :: "hook \<Rightarrow> scores \<Rightarrow> nat \<Rightarrow> bool" where
  "scores_ok h partial n_blk \<longleftrightarrow> target_layers h \<noteq> []
     \<and> list_all (\<lambda>l. case partial l of None \<Rightarrow> False | Some xs \<Rightarrow> length xs = n_blk) (target_layers h)"

definition finalize_resident ::
  "real topk \<Rightarrow> (real \<Rightarrow> real) \<Rightarrow> hook \<Rightarrow> scores \<Rightarrow> nat \<Rightarrow> exn + bool list" where
  "finalize_resident tk sg h partial n_blk =
     (if \<not> scores_ok h partial n_blk then Inl RuntimeError
      else
        let ens = map (ensemble sg h partial) [0..<n_blk];
            thr = map (\<lambda>x. thresh h < x) ens;
            forced = forced_mask h n_blk;
            keep = map2 (\<or>) thr forced
        in if 0 < max_resident h \<and> max_resident h < count_true keep then
             let n_forced = count_true forced;
                 budget = nat (max 0 (max_resident h - n_forced));
                 cand_idx = filter (\<lambda>j. thr ! j \<and> \<not> forced ! j) [0..<n_blk]
             in if budget < length cand_idx then
                  let topb = (if 0 < budget then tk (map (\<lambda>j. ens ! j) cand_idx) budget else []);
                      chosen = map (\<lambda>b. cand_idx ! b) topb
                  in Inr (map (\<lambda>j. forced ! j \<or> j \<in> set chosen) [0..<n_blk])
                else Inr keep
           else Inr keep)"

lemma mask_lengths [simp]:
  "length (recent_mask h n) = n" "length (sink_mask h n) = n" "length (forced_mask h n) = n"
  by (simp_all add: recent_mask_def sink_mask_def forced_mask_def)

lemma forced_mask_nth:
  "j < n \<Longrightarrow> forced_mask h n ! j \<longleftrightarrow> int n - last_keep h \<le> int j \<or> int j < first_keep h"
  by (auto simp: forced_mask_def recent_mask_def sink_mask_def)

lemma count_true_card: "count_true (map P [0..<n]) = int (card {j. j < n \<and> P j})"
proof -
  have "filter id (map P [0..<n]) = map P (filter P [0..<n])" by (simp add: filter_map comp_def)
  then have "length (filter id (map P [0..<n])) = length (filter P [0..<n])" by simp
  also have "\<dots> = card (set (filter P [0..<n]))" by (simp only: distinct_card distinct_filter distinct_upt)
  also have "set (filter P [0..<n]) = {j. j < n \<and> P j}" by auto
  finally show ?thesis unfolding count_true_def by (simp only:)
qed

lemma count_true_nth: "count_true bs = int (card {j. j < length bs \<and> bs ! j})"
  using count_true_card [of "\<lambda>j. bs ! j" "length bs"] by (simp add: map_nth)

lemma kept_split:
  "card {j. j < n \<and> (P j \<or> Q j)} = card {j. j < n \<and> Q j} + length (filter (\<lambda>j. P j \<and> \<not> Q j) [0..<n])"
proof -
  have "{j. j < n \<and> (P j \<or> Q j)} = {j. j < n \<and> Q j} \<union> set (filter (\<lambda>j. P j \<and> \<not> Q j) [0..<n])" by auto
  moreover have "card (set (filter (\<lambda>j. P j \<and> \<not> Q j) [0..<n])) = length (filter (\<lambda>j. P j \<and> \<not> Q j) [0..<n])"
    by (simp only: distinct_card distinct_filter distinct_upt)
  moreover have "{j. j < n \<and> Q j} \<inter> set (filter (\<lambda>j. P j \<and> \<not> Q j) [0..<n]) = {}" by auto
  ultimately show ?thesis by (simp add: card_Un_disjoint)
qed

text \<open>The outcome of \<open>_finalize_resident\<close>, by cases: everything over the threshold fits, or the forced
  chunks and the best of the rest are kept.\<close>

lemma finalize_cases [consumes 1, case_names fits capped]:
  assumes "scores_ok h partial n"
  obtains (fits) "finalize_resident tk sg h partial n = Inr (map (\<lambda>j. thresh h < ensemble sg h partial j \<or> forced_mask h n ! j) [0..<n])"
      "max_resident h \<le> 0 \<or> int (card {j. j < n \<and> (thresh h < ensemble sg h partial j \<or> forced_mask h n ! j)})
          \<le> max (max_resident h) (count_true (forced_mask h n))"
  | (capped) budget cand topb where
      "finalize_resident tk sg h partial n = Inr (map (\<lambda>j. forced_mask h n ! j \<or> (\<exists>b \<in> set topb. cand ! b = j)) [0..<n])"
      "cand = filter (\<lambda>j. thresh h < ensemble sg h partial j \<and> \<not> forced_mask h n ! j) [0..<n]"
      "0 < max_resident h" "budget = nat (max 0 (max_resident h - count_true (forced_mask h n)))"
      "budget < length cand"
      "topb = (if 0 < budget then tk (map (ensemble sg h partial) cand) budget else [])"
proof -
  let ?ens = "map (ensemble sg h partial) [0..<n]" and ?forced = "forced_mask h n"
  let ?thr = "map (\<lambda>x. thresh h < x) ?ens"
  let ?P = "\<lambda>j. thresh h < ensemble sg h partial j \<or> ?forced ! j"
  let ?budget = "nat (max 0 (max_resident h - count_true ?forced))"
  let ?cand = "filter (\<lambda>j. ?thr ! j \<and> \<not> ?forced ! j) [0..<n]"
  have keep: "map2 (\<or>) ?thr ?forced = map ?P [0..<n]" by (rule nth_equalityI) simp_all
  have cand: "?cand = filter (\<lambda>j. thresh h < ensemble sg h partial j \<and> \<not> ?forced ! j) [0..<n]"
    by (rule filter_cong) simp_all
  have ens: "map (\<lambda>j. ?ens ! j) ?cand = map (ensemble sg h partial) ?cand"
    by (rule map_cong) simp_all
  have eq: "finalize_resident tk sg h partial n =
    (if 0 < max_resident h \<and> max_resident h < count_true (map ?P [0..<n]) \<and> ?budget < length ?cand
     then Inr (map (\<lambda>j. ?forced ! j \<or> j \<in> set (map (\<lambda>b. ?cand ! b)
        (if 0 < ?budget then tk (map (ensemble sg h partial) ?cand) ?budget else []))) [0..<n])
     else Inr (map ?P [0..<n]))"
    using assms unfolding finalize_resident_def Let_def keep ens by simp
  show thesis
  proof (cases "0 < max_resident h \<and> max_resident h < count_true (map ?P [0..<n]) \<and> ?budget < length ?cand")
    case True
    show thesis
    proof (rule capped [OF _ cand _ refl _ refl])
      show "finalize_resident tk sg h partial n = Inr (map (\<lambda>j. ?forced ! j \<or>
          (\<exists>b \<in> set (if 0 < ?budget then tk (map (ensemble sg h partial) ?cand) ?budget else []). ?cand ! b = j)) [0..<n])"
        unfolding eq using True by (auto simp: image_iff)
    qed (use True in auto)
  next
    case False
    have "int (card {j. j < n \<and> ?P j}) \<le> max (max_resident h) (count_true ?forced)" if "0 < max_resident h"
    proof (cases "max_resident h < count_true (map ?P [0..<n])")
      case True
      then have "length ?cand \<le> ?budget" using False that by simp
      then show ?thesis
        unfolding kept_split cand [symmetric] using count_true_nth [of ?forced] by simp
    next
      case False
      then show ?thesis by (simp add: count_true_card)
    qed
    then have "max_resident h \<le> 0 \<or> int (card {j. j < n \<and> ?P j}) \<le> max (max_resident h) (count_true ?forced)"
      by linarith
    moreover have "finalize_resident tk sg h partial n = Inr (map ?P [0..<n])" unfolding eq if_not_P [OF False] ..
    ultimately show thesis by (rule fits [rotated])
  qed
qed


definition over :: "(real \<Rightarrow> real) \<Rightarrow> hook \<Rightarrow> scores \<Rightarrow> nat \<Rightarrow> bool" where
  "over sg h partial j \<longleftrightarrow> thresh h < ensemble sg h partial j"

lemma capped_card:
  fixes cand :: "nat list"
  assumes "topk_ok tk" "budget < length cand" "topb = (if 0 < budget then tk (map f cand) budget else [])"
    and "distinct cand" "set cand \<subseteq> {..<n}"
  shows "card {j. j < n \<and> (Q j \<or> (\<exists>b \<in> set topb. cand ! b = j))} \<le> card {j. j < n \<and> Q j} + budget"
proof -
  have "{j. j < n \<and> (Q j \<or> (\<exists>b \<in> set topb. cand ! b = j))} \<subseteq> {j. j < n \<and> Q j} \<union> (\<lambda>b. cand ! b) ` set topb" by auto
  then have "card {j. j < n \<and> (Q j \<or> (\<exists>b \<in> set topb. cand ! b = j))} \<le> card ({j. j < n \<and> Q j} \<union> (\<lambda>b. cand ! b) ` set topb)"
    by (intro card_mono finite_UnI finite_imageI finite_set finite_subset [of "{j. j < n \<and> Q j}" "{..<n}"]) auto
  also have "\<dots> \<le> card {j. j < n \<and> Q j} + card ((\<lambda>b. cand ! b) ` set topb)" by (rule card_Un_le)
  also have "card ((\<lambda>b. cand ! b) ` set topb) \<le> card (set topb)" by (rule card_image_le) simp
  also have "card (set topb) \<le> budget" using topkD(5) [OF assms(1), of budget "map f cand"] assms(2,3) by (cases "0 < budget") simp_all
  finally show ?thesis by simp
qed

lemma capped_best:
  assumes "topk_ok tk" "budget < length cand" "topb = (if 0 < budget then tk (map f cand) budget else [])"
    and "b \<in> set topb" "c < length cand" "\<forall>b' \<in> set topb. cand ! b' \<noteq> cand ! c"
  shows "b < length cand" "f (cand ! c) \<le> f (cand ! b)"
proof -
  have tb: "topb = tk (map f cand) budget" using assms(3,4) by (simp split: if_splits)
  show b: "b < length cand" using topkD(3) [OF assms(1), of budget "map f cand" b] assms(2,4) tb by simp
  have "c \<notin> set topb" using assms(6) by auto
  with topkD(4) [OF assms(1), of budget "map f cand" b c] assms(2,4,5) tb b show "f (cand ! c) \<le> f (cand ! b)" by simp
qed

lemma finalize_post:
  assumes tk: "topk_ok tk" and ok: "scores_ok h partial n"
  obtains keep where "finalize_resident tk sg h partial n = Inr keep" "length keep = n"
    "\<forall>j < n. forced_mask h n ! j \<longrightarrow> keep ! j" "\<forall>j < n. keep ! j \<longrightarrow> forced_mask h n ! j \<or> over sg h partial j"
    "0 < max_resident h \<longrightarrow> count_true keep \<le> max (max_resident h) (count_true (forced_mask h n))"
    "\<forall>i < n. \<forall>j < n. keep ! i \<and> \<not> forced_mask h n ! i \<and> over sg h partial j \<and> \<not> keep ! j \<longrightarrow>
       ensemble sg h partial j \<le> ensemble sg h partial i"
  using ok
proof (cases rule: finalize_cases [where tk = tk and sg = sg])
  case fits
  show thesis
    by (rule that [OF fits(1)]) (use fits(2) in \<open>simp_all add: over_def count_true_card, linarith?\<close>)
next
  case (capped budget cand topb)
  have cand: "distinct cand" "set cand \<subseteq> {..<n}" using capped(2) by auto
  let ?keep = "map (\<lambda>j. forced_mask h n ! j \<or> (\<exists>b \<in> set topb. cand ! b = j)) [0..<n]"
  have inc: "b < length cand" if "b \<in> set topb" for b
    using that topkD(3) [OF tk, of budget "map (ensemble sg h partial) cand" b] capped(5,6) by (simp split: if_splits)
  show thesis
  proof (rule that [OF capped(1)])
    show "\<forall>j < n. ?keep ! j \<longrightarrow> forced_mask h n ! j \<or> over sg h partial j"
    proof (intro allI impI)
      fix j assume j: "j < n" "?keep ! j"
      show "forced_mask h n ! j \<or> over sg h partial j"
      proof (cases "forced_mask h n ! j")
        case False
        then obtain b where "b \<in> set topb" "cand ! b = j" using j by auto
        then have "j \<in> set cand" using inc nth_mem by blast
        then show ?thesis using capped(2) by (simp add: over_def)
      qed simp
    qed
    show "0 < max_resident h \<longrightarrow> count_true ?keep \<le> max (max_resident h) (count_true (forced_mask h n))"
      unfolding count_true_card
      using capped_card [OF tk capped(5,6) cand, of "\<lambda>j. forced_mask h n ! j"] capped(4) count_true_nth [of "forced_mask h n"]
      unfolding mask_lengths by arith
    show "\<forall>i < n. \<forall>j < n. ?keep ! i \<and> \<not> forced_mask h n ! i \<and> over sg h partial j \<and> \<not> ?keep ! j \<longrightarrow>
       ensemble sg h partial j \<le> ensemble sg h partial i"
    proof (intro allI impI)
      fix i j assume ij: "i < n" "j < n" "?keep ! i \<and> \<not> forced_mask h n ! i \<and> over sg h partial j \<and> \<not> ?keep ! j"
      then obtain b where b: "b \<in> set topb" "cand ! b = i" by auto
      have "j \<in> set cand" using ij capped(2) by (auto simp: over_def)
      then obtain c where c: "c < length cand" "cand ! c = j" by (auto simp: in_set_conv_nth)
      have "\<forall>b' \<in> set topb. cand ! b' \<noteq> cand ! c" using ij c(2) by auto
      from capped_best(2) [OF tk capped(5,6) b(1) c(1) this] b c
      show "ensemble sg h partial j \<le> ensemble sg h partial i" by simp
    qed
  qed simp_all
qed

lemma finalize_total:
  assumes "topk_ok tk" "scores_ok h partial n"
  shows "\<exists>keep. finalize_resident tk sg h partial n = Inr keep \<and> length keep = n"
  by (rule finalize_post [OF assms, where sg = sg]) (intro exI conjI)

text \<open>C27: \<open>_finalize_resident\<close>, for scores of the right shape, always returns a mask of the request's
  length that keeps every recent and every sink chunk, keeps only chunks that are recent, sinks or
  over the threshold, never drops a chunk over the threshold in favour of a lower-scored one, and
  under a cap keeps no more chunks than the cap or the forced chunks allow.\<close>

theorem finalize_resident_sound:
  assumes "topk_ok tk" "scores_ok h partial n"
  shows "\<exists>keep. finalize_resident tk sg h partial n = Inr keep \<and> length keep = n
    \<and> (\<forall>j < n. forced_mask h n ! j \<longrightarrow> keep ! j)
    \<and> (\<forall>j < n. keep ! j \<longrightarrow> forced_mask h n ! j \<or> over sg h partial j)
    \<and> (\<forall>i < n. \<forall>j < n. keep ! i \<and> \<not> forced_mask h n ! i \<and> over sg h partial j \<and> \<not> keep ! j \<longrightarrow>
         ensemble sg h partial j \<le> ensemble sg h partial i)
    \<and> (0 < max_resident h \<longrightarrow> count_true keep \<le> max (max_resident h) (count_true (forced_mask h n)))"
  by (rule finalize_post [OF assms, where sg = sg]) (intro exI conjI)

definition small_hook :: hook where
  "small_hook = \<lparr>target_layers = [1, 2], h_interval = 4, thresh = 1 / 2, last_keep = 1, first_keep = 0,
     ensemble_or = True, max_resident = 2, sticky = False\<rparr>"

definition small_scores :: scores where
  "small_scores = (\<lambda>l. if l = 1 then Some [1, 2, 0] else if l = 2 then Some [0, 0, 0] else None)"

theorem finalize_resident_sound_witness:
  "\<exists>keep. finalize_resident topk_sort (\<lambda>x. x) small_hook small_scores 3 = Inr keep
     \<and> keep ! 2 \<and> count_true keep \<le> 2"
proof -
  have ok: "scores_ok small_hook small_scores 3" by (simp add: scores_ok_def small_hook_def small_scores_def)
  have f: "forced_mask small_hook 3 = [False, False, True]"
    by (simp add: forced_mask_def recent_mask_def sink_mask_def small_hook_def upt_conv_Cons)
  have m: "max_resident small_hook = 2" by (simp add: small_hook_def)
  from finalize_resident_sound [OF topk_sort_ok ok, of "\<lambda>x. x", unfolded f m]
  obtain keep where k: "finalize_resident topk_sort (\<lambda>x. x) small_hook small_scores 3 = Inr keep"
    "\<forall>j < 3. [False, False, True] ! j \<longrightarrow> keep ! j" "count_true keep \<le> max 2 (count_true [False, False, True])"
    by (elim exE conjE) simp
  from k(2) have "keep ! 2" by simp
  with k(1,3) show ?thesis by (simp add: count_true_def)
qed

text \<open>The cap of \<open>_finalize_resident\<close> does not bound the resident set: when the recent and sink
  chunks alone exceed \<open>max_resident\<close>, exactly those are kept, which is more than the cap.\<close>

theorem finalize_exceeds_cap:
  assumes "topk_ok tk" "scores_ok h partial n" "0 < max_resident h" "max_resident h < count_true (forced_mask h n)"
  shows "\<exists>keep. finalize_resident tk sg h partial n = Inr keep \<and> keep = forced_mask h n \<and> max_resident h < count_true keep"
proof -
  have "finalize_resident tk sg h partial n = Inr (forced_mask h n)"
    using assms(2)
  proof (cases rule: finalize_cases [where tk = tk and sg = sg])
    case fits
    have "filter (\<lambda>j. thresh h < ensemble sg h partial j \<and> \<not> forced_mask h n ! j) [0..<n] = []"
      using fits(2) assms(3,4) unfolding kept_split by (simp add: count_true_nth)
    then have "map (\<lambda>j. thresh h < ensemble sg h partial j \<or> forced_mask h n ! j) [0..<n] = forced_mask h n"
      by (intro nth_equalityI) (auto simp: filter_empty_conv)
    with fits(1) show ?thesis by simp
  next
    case (capped budget cand topb)
    then have "topb = []" using assms(4) by simp
    moreover have "map (\<lambda>j. forced_mask h n ! j) [0..<n] = forced_mask h n" by (rule nth_equalityI) simp_all
    ultimately show ?thesis using capped(1) by simp
  qed
  with assms(4) show ?thesis by simp
qed

theorem finalize_exceeds_cap_witness:
  "\<exists>keep. finalize_resident topk_sort (\<lambda>x. x) (small_hook\<lparr>last_keep := 3\<rparr>) small_scores 3 = Inr keep
     \<and> keep = [True, True, True] \<and> 2 < count_true keep"
proof -
  have f: "forced_mask (small_hook\<lparr>last_keep := 3\<rparr>) 3 = [True, True, True]"
    by (simp add: forced_mask_def recent_mask_def sink_mask_def small_hook_def upt_conv_Cons)
  have "scores_ok (small_hook\<lparr>last_keep := 3\<rparr>) small_scores 3" "max_resident (small_hook\<lparr>last_keep := 3\<rparr>) = 2"
    by (simp_all add: scores_ok_def small_hook_def small_scores_def)
  from finalize_exceeds_cap [OF topk_sort_ok this(1), of "\<lambda>x. x", unfolded f this(2)] show ?thesis
    by (simp add: count_true_def)
qed


subsection \<open>The score hook\<close>

record entry =
  active :: "bool list option"
  active_seq :: int
  partial :: scores
  pend_step :: int
  pend_seq :: int
  last_cycle :: int

definition NO_CYCLE :: int where
  "NO_CYCLE = - (10 ^ 9)"

definition fresh_entry :: entry where
  "fresh_entry = \<lparr>active = None, active_seq = 0, partial = (\<lambda>_. None),
     pend_step = NO_CYCLE, pend_seq = 0, last_cycle = NO_CYCLE\<rparr>"

type_synonym scorer = "nat \<Rightarrow> nat \<Rightarrow> nat \<Rightarrow> real list option"

definition need_fresh :: "hook \<Rightarrow> int \<Rightarrow> nat \<Rightarrow> int \<Rightarrow> entry \<Rightarrow> bool" where
  "need_fresh h call clid n_blk en \<longleftrightarrow>
     clid = hd (target_layers h) \<and> \<not> NO_CYCLE < pend_step en
     \<and> (active en = None \<or> n_blk < active_seq en \<or> 64 < n_blk - active_seq en
        \<or> h_interval h * int (length (target_layers h)) \<le> call - last_cycle en)"

text \<open>Sticky mode: \<open>new_mask[:w] |= old[:w]\<close>.\<close>

definition union_prefix :: "bool list \<Rightarrow> bool list \<Rightarrow> bool list" where
  "union_prefix old new = map (\<lambda>j. new ! j \<or> (j < length old \<and> old ! j)) [0..<length new]"

definition commit_mask :: "hook \<Rightarrow> int \<Rightarrow> bool list \<Rightarrow> entry \<Rightarrow> entry" where
  "commit_mask h n_blk new_mask en =
     en\<lparr>active := Some (case active en of
           Some old \<Rightarrow> if sticky h then union_prefix old new_mask else new_mask
         | None \<Rightarrow> new_mask),
       active_seq := n_blk, partial := (\<lambda>_. None), pend_step := NO_CYCLE\<rparr>"

definition hook_level1 ::
  "real topk \<Rightarrow> (real \<Rightarrow> real) \<Rightarrow> scorer \<Rightarrow> hook \<Rightarrow> int \<Rightarrow> nat \<Rightarrow> nat \<Rightarrow> int \<Rightarrow> entry \<Rightarrow> (unit, entry) outcome" where
  "hook_level1 tk sg score h call clid bi n_blk en =
     (let pending = NO_CYCLE < pend_step en;
          fresh = need_fresh h call clid n_blk en;
          en1 = (if fresh then en\<lparr>partial := (\<lambda>_. None), pend_step := call, pend_seq := n_blk, last_cycle := call\<rparr>
                 else en);
          in_cycle = ((fresh \<or> pending) \<and> partial en1 clid = None \<and> pend_seq en1 = n_blk);
          en2 = (if in_cycle then
                   case score clid bi (nat n_blk) of
                     None \<Rightarrow> en1
                   | Some lg \<Rightarrow> en1\<lparr>partial := (partial en1)(clid := Some lg)\<rparr>
                 else en1)
      in if clid = last (target_layers h) \<and> list_all (\<lambda>l. partial en2 l \<noteq> None) (target_layers h)
            \<and> pend_seq en2 = n_blk
         then case finalize_resident tk sg h (partial en2) (nat n_blk) of
                Inl x \<Rightarrow> (Inl x, en2)
              | Inr new_mask \<Rightarrow> (Inr (), commit_mask h n_blk new_mask en2)
         else (Inr (), en2))"

text \<open>\<open>drop[:w] = ~km[:w]\<close> on a mask that is all \<open>True\<close>: columns past the committed mask are dropped.\<close>

definition confine :: "bool list \<Rightarrow> logit list \<Rightarrow> logit list" where
  "confine km row = map (\<lambda>j. if j < length km \<and> km ! j then row ! j else NegInf) [0..<length row]"

definition hook_row ::
  "real topk \<Rightarrow> (real \<Rightarrow> real) \<Rightarrow> scorer \<Rightarrow> hook \<Rightarrow> int \<Rightarrow> nat \<Rightarrow> bool \<Rightarrow> nat \<times> int \<times> int
     \<Rightarrow> (int \<Rightarrow> entry option) \<Rightarrow> logit list \<Rightarrow> (logit list, int \<Rightarrow> entry option) outcome" where
  "hook_row tk sg score h call clid has_x r cache row =
     (case r of (bi, ri, n_blk) \<Rightarrow>
        if n_blk \<le> 0 then (Inr row, cache)
        else
          let (res, cache1) =
                (if clid \<in> set (target_layers h) \<and> has_x then
                   let en0 = (case cache ri of None \<Rightarrow> fresh_entry | Some en \<Rightarrow> en);
                       (x, en1) = hook_level1 tk sg score h call clid bi n_blk en0
                   in (x, cache(ri := Some en1))
                 else (Inr (), cache))
          in case res of
               Inl x \<Rightarrow> (Inl x, cache1)
             | Inr _ \<Rightarrow>
                 (case cache1 ri of
                    None \<Rightarrow> (Inr row, cache1)
                  | Some en \<Rightarrow> (case active en of
                       None \<Rightarrow> (Inr row, cache1)
                     | Some km \<Rightarrow> (Inr (confine km row), cache1))))"

fun hook_rows ::
  "real topk \<Rightarrow> (real \<Rightarrow> real) \<Rightarrow> scorer \<Rightarrow> hook \<Rightarrow> int \<Rightarrow> nat \<Rightarrow> bool \<Rightarrow> ((nat \<times> int \<times> int) \<times> logit list) list
     \<Rightarrow> (int \<Rightarrow> entry option) \<Rightarrow> (logit list list, int \<Rightarrow> entry option) outcome" where
  "hook_rows tk sg score h call clid has_x [] cache = (Inr [], cache)"
| "hook_rows tk sg score h call clid has_x ((r, row) # rs) cache =
     (case hook_row tk sg score h call clid has_x r cache row of
        (Inl x, cache1) \<Rightarrow> (Inl x, cache1)
      | (Inr row', cache1) \<Rightarrow>
          (case hook_rows tk sg score h call clid has_x rs cache1 of
             (Inl x, cache2) \<Rightarrow> (Inl x, cache2)
           | (Inr rows', cache2) \<Rightarrow> (Inr (row' # rows'), cache2)))"

record hook_state =
  cache :: "int \<Rightarrow> entry option"
  call_n :: int

text \<open>\<open>__call__\<close> in a decode forward; the logits are the rows with their request and chunk
  count, so a batch of logits has no more rows than the batch has requests.\<close>

definition hook_call ::
  "real topk \<Rightarrow> (real \<Rightarrow> real) \<Rightarrow> scorer \<Rightarrow> hook \<Rightarrow> nat \<Rightarrow> bool \<Rightarrow> bool \<Rightarrow> ((int \<times> int) \<times> logit list) list
     \<Rightarrow> hook_state \<Rightarrow> (logit list list, hook_state) outcome" where
  "hook_call tk sg score h clid is_decode has_x rows st =
     (if \<not> is_decode then (Inr (map snd rows), st)
      else
        let call = (if clid \<in> set (target_layers h) \<and> has_x then call_n st + 1 else call_n st);
            indexed = map (\<lambda>(bi, (ri, n_blk), row). ((bi, ri, n_blk), row)) (zip [0..<length rows] rows);
            (res, cache1) = hook_rows tk sg score h call clid has_x indexed (cache st)
        in (res, st\<lparr>call_n := call, cache := cache1\<rparr>))"

end
