(* ===== verification/RetrieverRun.thy ===== *)
theory RetrieverRun
  imports Retriever
begin

section \<open>Runs of the inline retriever hook\<close>

text \<open>
  The invariant of the hook's cache (a committed mask has one entry per chunk it was scored for, a
  pending score one entry per chunk of its cycle), that no call raises under it, what a call does
  to a request's logits, and that a cycle over the target layers commits.
\<close>

text \<open>The trained scorer gives one logit per chunk.\<close>

definition scorer_ok :: "scorer \<Rightarrow> bool" where
  "scorer_ok score \<longleftrightarrow> (\<forall>l bi n xs. score l bi n = Some xs \<longrightarrow> length xs = n)"

definition entry_ok :: "entry \<Rightarrow> bool" where
  "entry_ok en \<longleftrightarrow> (\<forall>km. active en = Some km \<longrightarrow> int (length km) = active_seq en)
     \<and> (\<forall>l xs. partial en l = Some xs \<longrightarrow> int (length xs) = pend_seq en)"

definition cache_ok :: "(int \<Rightarrow> entry option) \<Rightarrow> bool" where
  "cache_ok c \<longleftrightarrow> (\<forall>ri en. c ri = Some en \<longrightarrow> entry_ok en)"

lemma fresh_entry_ok [simp]: "entry_ok fresh_entry"
  by (simp add: entry_ok_def fresh_entry_def)

lemma length_union_prefix [simp]: "length (union_prefix old new) = length new"
  by (simp add: union_prefix_def)

text \<open>The steps of \<open>hook_level1\<close> before the commit.\<close>

definition scored_entry :: "scorer \<Rightarrow> hook \<Rightarrow> int \<Rightarrow> nat \<Rightarrow> nat \<Rightarrow> int \<Rightarrow> entry \<Rightarrow> entry" where
  "scored_entry score h call clid bi n_blk en =
     (let fresh = need_fresh h call clid n_blk en;
          en1 = (if fresh then en\<lparr>partial := (\<lambda>_. None), pend_step := call, pend_seq := n_blk, last_cycle := call\<rparr>
                 else en)
      in if (fresh \<or> NO_CYCLE < pend_step en) \<and> partial en1 clid = None \<and> pend_seq en1 = n_blk
         then case score clid bi (nat n_blk) of
                None \<Rightarrow> en1
              | Some lg \<Rightarrow> en1\<lparr>partial := (partial en1)(clid := Some lg)\<rparr>
         else en1)"

definition commits :: "hook \<Rightarrow> nat \<Rightarrow> int \<Rightarrow> entry \<Rightarrow> bool" where
  "commits h clid n_blk en \<longleftrightarrow> clid = last (target_layers h)
     \<and> list_all (\<lambda>l. partial en l \<noteq> None) (target_layers h) \<and> pend_seq en = n_blk"

lemma level1_split:
  "hook_level1 tk sg score h call clid bi n_blk en =
     (let en2 = scored_entry score h call clid bi n_blk en
      in if commits h clid n_blk en2
         then case finalize_resident tk sg h (partial en2) (nat n_blk) of
                Inl x \<Rightarrow> (Inl x, en2)
              | Inr new_mask \<Rightarrow> (Inr (), commit_mask h n_blk new_mask en2)
         else (Inr (), en2))"
  unfolding hook_level1_def scored_entry_def commits_def Let_def by simp

lemma scored_entry_ok:
  assumes "scorer_ok score" "entry_ok en" "0 \<le> n_blk"
  shows "entry_ok (scored_entry score h call clid bi n_blk en)"
    and "active (scored_entry score h call clid bi n_blk en) = active en"
    and "active_seq (scored_entry score h call clid bi n_blk en) = active_seq en"
  using assms
  by (auto simp: scored_entry_def entry_ok_def scorer_ok_def Let_def split: option.split if_splits)

lemma commits_scores_ok:
  assumes "target_layers h \<noteq> []" "entry_ok en" "commits h clid n_blk en" "0 \<le> n_blk"
  shows "scores_ok h (partial en) (nat n_blk)"
  unfolding scores_ok_def list_all_iff
proof (intro conjI ballI)
  fix l assume "l \<in> set (target_layers h)"
  with assms(3) obtain xs where "partial en l = Some xs" by (auto simp: commits_def list_all_iff)
  moreover from this assms(2,3) have "int (length xs) = n_blk" by (simp add: entry_ok_def commits_def)
  ultimately show "case partial en l of None \<Rightarrow> False | Some xs \<Rightarrow> length xs = nat n_blk" by simp
qed (rule assms(1))

lemma level1_ok:
  assumes "topk_ok tk" "scorer_ok score" "target_layers h \<noteq> []" "entry_ok en" "0 < n_blk"
  obtains en' where "hook_level1 tk sg score h call clid bi n_blk en = (Inr (), en')" "entry_ok en'"
proof -
  let ?en = "scored_entry score h call clid bi n_blk en"
  from assms(5) have n: "0 \<le> n_blk" by simp
  note ok = scored_entry_ok(1) [OF assms(2,4) n, of h call clid bi]
  show thesis
  proof (cases "commits h clid n_blk ?en")
    case True
    from finalize_total [OF assms(1) commits_scores_ok [OF assms(3) ok True n], where sg = sg]
    obtain keep where k: "finalize_resident tk sg h (partial ?en) (nat n_blk) = Inr keep" "length keep = nat n_blk"
      by blast
    have "entry_ok (commit_mask h n_blk keep ?en)"
      using k(2) n by (auto simp: entry_ok_def commit_mask_def split: option.split)
    with k(1) True that show thesis by (simp add: level1_split Let_def)
  next
    case False
    with ok that show thesis by (simp add: level1_split Let_def)
  qed
qed

lemma hook_row_ok:
  assumes "topk_ok tk" "scorer_ok score" "target_layers h \<noteq> []" "cache_ok c"
  obtains row' c' where "hook_row tk sg score h call clid has_x r c row = (Inr row', c')" "cache_ok c'"
    "length row' = length row"
proof -
  obtain bi ri n_blk where r: "r = (bi, ri, n_blk)" by (cases r) auto
  consider (skip) "n_blk \<le> 0" | (score) "0 < n_blk" "clid \<in> set (target_layers h) \<and> has_x"
    | (idle) "0 < n_blk" "\<not> (clid \<in> set (target_layers h) \<and> has_x)" by linarith
  then show thesis
  proof cases
    case skip
    with assms(4) that show thesis by (simp add: hook_row_def r)
  next
    case score
    let ?en = "case c ri of None \<Rightarrow> fresh_entry | Some en \<Rightarrow> en"
    have "entry_ok ?en" using assms(4) by (simp add: cache_ok_def split: option.split)
    from level1_ok [OF assms(1-3) this score(1), where sg = sg and call = call and clid = clid and bi = bi] obtain en' where
      l: "hook_level1 tk sg score h call clid bi n_blk ?en = (Inr (), en')" "entry_ok en'" .
    have "cache_ok (c(ri := Some en'))" using assms(4) l(2) by (simp add: cache_ok_def)
    with that score l(1) show thesis
      by (cases "active en'") (simp_all add: hook_row_def r confine_def)
  next
    case idle
    with assms(4) that show thesis
      by (cases "c ri"; cases "active (the (c ri))") (simp_all add: hook_row_def r confine_def)
  qed
qed

lemma hook_rows_ok:
  assumes "topk_ok tk" "scorer_ok score" "target_layers h \<noteq> []" "cache_ok c"
  shows "\<exists>rows' c'. hook_rows tk sg score h call clid has_x rs c = (Inr rows', c') \<and> cache_ok c'
    \<and> map length rows' = map (\<lambda>(_, row). length row) rs"
  using assms(4)
proof (induction rs arbitrary: c)
  case (Cons a rs)
  obtain r row where a: "a = (r, row)" by fastforce
  from hook_row_ok [OF assms(1-3) Cons.prems, where sg = sg and call = call and clid = clid and has_x = has_x and r = r and row = row]
  obtain row' c1 where 1: "hook_row tk sg score h call clid has_x r c row = (Inr row', c1)" "cache_ok c1" "length row' = length row" .
  from Cons.IH [OF 1(2)] 1 a show ?case by auto
qed simp


inductive hook_run :: "real topk \<Rightarrow> (real \<Rightarrow> real) \<Rightarrow> scorer \<Rightarrow> hook \<Rightarrow> hook_state \<Rightarrow> hook_state \<Rightarrow> bool"
  for tk sg score h where
  hook_refl: "hook_run tk sg score h st st"
| hook_next: "hook_run tk sg score h st st1 \<Longrightarrow>
    hook_run tk sg score h st (snd (hook_call tk sg score h clid is_decode has_x rows st1))"

definition empty_hook :: hook_state where
  "empty_hook = \<lparr>cache = (\<lambda>_. None), call_n = 0\<rparr>"

lemma hook_call_ok:
  assumes "topk_ok tk" "scorer_ok score" "target_layers h \<noteq> []" "cache_ok (cache st)"
  shows "\<exists>rows' st'. hook_call tk sg score h clid is_decode has_x rows st = (Inr rows', st') \<and> cache_ok (cache st')
    \<and> map length rows' = map (\<lambda>(_, row). length row) rows"
proof (cases is_decode)
  case True
  let ?ix = "map (\<lambda>(bi, (ri, n_blk), row). ((bi, ri, n_blk), row)) (zip [0..<length rows] rows)"
  let ?call = "if clid \<in> set (target_layers h) \<and> has_x then call_n st + 1 else call_n st"
  from hook_rows_ok [OF assms, of sg ?call clid has_x ?ix] obtain rows' c' where
    r: "hook_rows tk sg score h ?call clid has_x ?ix (cache st) = (Inr rows', c')" "cache_ok c'"
    and l: "map length rows' = map (\<lambda>(_, row). length row) ?ix" by blast
  have "map (\<lambda>(_, row). length row) ?ix = map (\<lambda>(_, row). length row) rows"
    by (rule nth_equalityI) (simp_all add: case_prod_beta)
  with r l True show ?thesis by (simp add: hook_call_def Let_def)
next
  case False
  then show ?thesis using assms(4) by (simp add: hook_call_def comp_def case_prod_beta)
qed

lemma hook_run_ok:
  assumes "hook_run tk sg score h st st'" "topk_ok tk" "scorer_ok score" "target_layers h \<noteq> []" "cache_ok (cache st)"
  shows "cache_ok (cache st')"
  using assms
proof (induction rule: hook_run.induct)
  case (hook_next st st1 clid is_decode has_x rows)
  from hook_call_ok [OF hook_next.prems(1-3) hook_next.IH [OF hook_next.prems], of sg clid is_decode has_x rows]
  show ?case by auto
qed

text \<open>C29: The hook never fails in the middle of a batch: after any sequence of calls from the empty cache, with
  a scorer that gives one logit per chunk, every further call returns, with the logits of every row in their
  shape.\<close>

theorem hook_total:
  assumes "topk_ok tk" "scorer_ok score" "target_layers h \<noteq> []" "hook_run tk sg score h empty_hook st"
  shows "\<exists>rows'. fst (hook_call tk sg score h clid is_decode has_x rows st) = Inr rows'
    \<and> map length rows' = map (\<lambda>(_, row). length row) rows"
proof -
  have "cache_ok (cache empty_hook)" by (simp add: cache_ok_def empty_hook_def)
  from hook_run_ok [OF assms(4,1-3) this] hook_call_ok [OF assms(1-3)] show ?thesis by (metis fst_conv)
qed

definition const_scorer :: scorer where
  "const_scorer l bi n = Some (replicate n 1)"

theorem hook_total_witness:
  "\<exists>rows'. fst (hook_call topk_sort (\<lambda>x. x) const_scorer small_hook 1 True True [((7, 3), [Fin 0, Fin 0, Fin 0])]
      empty_hook) = Inr rows' \<and> map length rows' = [3]"
  using hook_total [OF topk_sort_ok _ _ hook_refl, of const_scorer small_hook "\<lambda>x. x" 1 True True "[((7, 3), [Fin 0, Fin 0, Fin 0])]"]
  by (simp add: scorer_ok_def const_scorer_def small_hook_def numeral_3_eq_3)


subsection \<open>A cycle\<close>

text \<open>The target layers of one forward, in order: the call counter advances at each.\<close>

fun run_cycle ::
  "real topk \<Rightarrow> (real \<Rightarrow> real) \<Rightarrow> scorer \<Rightarrow> hook \<Rightarrow> nat \<Rightarrow> int \<Rightarrow> int \<Rightarrow> nat list \<Rightarrow> entry \<Rightarrow> entry" where
  "run_cycle tk sg score h bi n_blk call [] en = en"
| "run_cycle tk sg score h bi n_blk call (l # ls) en =
     run_cycle tk sg score h bi n_blk (call + 1) ls (snd (hook_level1 tk sg score h call l bi n_blk en))"

definition cycle_scores :: "scorer \<Rightarrow> nat \<Rightarrow> int \<Rightarrow> nat list \<Rightarrow> scores" where
  "cycle_scores score bi n_blk ls = (\<lambda>l. if l \<in> set ls then score l bi (nat n_blk) else None)"

lemma cycle_scores_snoc:
  "(cycle_scores score bi n ls)(l := score l bi (nat n)) = cycle_scores score bi n (ls @ [l])"
  by (auto simp: cycle_scores_def fun_eq_iff)

lemma cycle_rest:
  assumes h: "distinct (target_layers h)" "target_layers h = pre @ ls" "pre \<noteq> []" "ls \<noteq> []"
    and sc: "\<forall>l \<in> set (target_layers h). score l bi (nat n) \<noteq> None"
    and en: "partial en = cycle_scores score bi n pre" "NO_CYCLE < pend_step en" "pend_seq en = n"
    and fin: "finalize_resident tk sg h (cycle_scores score bi n (target_layers h)) (nat n) = Inr keep"
  shows "active (run_cycle tk sg score h bi n call ls en) = active (commit_mask h n keep en)
    \<and> active_seq (run_cycle tk sg score h bi n call ls en) = n
    \<and> pend_step (run_cycle tk sg score h bi n call ls en) = NO_CYCLE"
  using h en
proof (induction ls arbitrary: pre en call)
  case (Cons l ls)
  let ?en = "scored_entry score h call l bi n en"
  have "l \<notin> set pre" "l \<in> set (target_layers h)" using Cons.prems(1,2) by auto
  then obtain lg where lg: "score l bi (nat n) = Some lg" using sc by blast
  have "\<not> need_fresh h call l n en" using Cons.prems(6) by (simp add: need_fresh_def)
  then have e: "?en = en\<lparr>partial := cycle_scores score bi n (pre @ [l])\<rparr>"
    using Cons.prems(5,6,7) lg \<open>l \<notin> set pre\<close> cycle_scores_snoc [of score bi n pre l]
    by (simp add: scored_entry_def cycle_scores_def)
  show ?case
  proof (cases "ls = []")
    case True
    then have t: "target_layers h = pre @ [l]" using Cons.prems(2) by simp
    have c: "commits h l n ?en"
      using sc Cons.prems(7) unfolding e commits_def t by (auto simp: list_all_iff cycle_scores_def)
    have "hook_level1 tk sg score h call l bi n en = (Inr (), commit_mask h n keep ?en)"
      unfolding level1_split Let_def using c fin unfolding t by (simp add: e)
    then show ?thesis using True by (simp add: e commit_mask_def)
  next
    case False
    then have "l \<noteq> last (target_layers h)" using Cons.prems(1,2) by auto
    then have "hook_level1 tk sg score h call l bi n en = (Inr (), ?en)"
      by (simp add: level1_split Let_def commits_def)
    with Cons.IH [OF Cons.prems(1) _ _ False, of "pre @ [l]" ?en "call + 1"] Cons.prems show ?thesis
      by (simp add: e commit_mask_def)
  qed
qed simp

text \<open>C28: A cycle of the retriever completes in the forward that opens it: when the first target layer
  opens a cycle for a request, the target layers of that forward score it with the request's current
  keys, and the last one commits the mask finalized from exactly these scores (with the committed
  mask united into it in sticky mode), leaving no cycle pending.\<close>

theorem hook_cycle_commits:
  assumes "topk_ok tk" "scorer_ok score" "target_layers h \<noteq> []" "distinct (target_layers h)" "0 < n" "NO_CYCLE < call"
    and "\<forall>l \<in> set (target_layers h). score l bi (nat n) \<noteq> None" "need_fresh h call (hd (target_layers h)) n en"
  shows "\<exists>keep. finalize_resident tk sg h (cycle_scores score bi n (target_layers h)) (nat n) = Inr keep
    \<and> (let en' = run_cycle tk sg score h bi n call (target_layers h) en
       in active en' = Some (case active en of Some old \<Rightarrow> if sticky h then union_prefix old keep else keep | None \<Rightarrow> keep)
        \<and> active_seq en' = n \<and> pend_step en' = NO_CYCLE)"
proof -
  obtain l ls where t: "target_layers h = l # ls" using assms(3) by (cases "target_layers h") auto
  have len: "length xs = nat n" if "score k bi (nat n) = Some xs" for k xs using assms(2) that by (simp add: scorer_ok_def)
  have "scores_ok h (cycle_scores score bi n (target_layers h)) (nat n)"
    using assms(3,7) len by (auto simp: scores_ok_def list_all_iff cycle_scores_def split: option.split)
  from finalize_total [OF assms(1) this, where sg = sg] obtain keep where
    fin: "finalize_resident tk sg h (cycle_scores score bi n (target_layers h)) (nat n) = Inr keep" by blast
  let ?en = "scored_entry score h call l bi n en"
  from assms(7) t obtain lg where lg: "score l bi (nat n) = Some lg" by auto
  have e: "?en = en\<lparr>partial := cycle_scores score bi n [l], pend_step := call, pend_seq := n, last_cycle := call\<rparr>"
    using assms(8) t lg by (auto simp: scored_entry_def cycle_scores_def fun_eq_iff)
  have "active (run_cycle tk sg score h bi n call (target_layers h) en) = active (commit_mask h n keep ?en)
    \<and> active_seq (run_cycle tk sg score h bi n call (target_layers h) en) = n
    \<and> pend_step (run_cycle tk sg score h bi n call (target_layers h) en) = NO_CYCLE"
  proof (cases "ls = []")
    case True
    have "commits h l n ?en" using assms(7) unfolding e commits_def t True by (auto simp: cycle_scores_def)
    with fin have "hook_level1 tk sg score h call l bi n en = (Inr (), commit_mask h n keep ?en)"
      unfolding level1_split Let_def t True by (simp add: e)
    then show ?thesis by (simp add: t True commit_mask_def)
  next
    case False
    have "l \<noteq> last (target_layers h)" using assms(4) t False by auto
    then have "hook_level1 tk sg score h call l bi n en = (Inr (), ?en)" by (simp add: level1_split Let_def commits_def)
    with cycle_rest [OF assms(4) _ _ False assms(7) _ _ _ fin, of "[l]" ?en "call + 1"] assms(6) t show ?thesis
      by (simp add: e)
  qed
  with fin show ?thesis by (simp add: commit_mask_def e Let_def split: option.split)
qed

theorem hook_cycle_commits_witness:
  "active_seq (run_cycle topk_sort (\<lambda>x. x) const_scorer small_hook 0 3 1 [1, 2] fresh_entry) = 3"
proof -
  have t: "target_layers small_hook = [1, 2]" by (simp add: small_hook_def)
  have "need_fresh small_hook 1 (hd (target_layers small_hook)) 3 fresh_entry"
    by (simp add: need_fresh_def fresh_entry_def t)
  from hook_cycle_commits [OF topk_sort_ok _ _ _ _ _ _ this, of const_scorer 0 "\<lambda>x. x"]
  show ?thesis by (auto simp: t scorer_ok_def const_scorer_def NO_CYCLE_def Let_def)
qed

text \<open>Between two cycles the hook masks every chunk formed after the committed one: while a request
  has a committed mask, no pending cycle, at most 64 new chunks and fewer than an interval's calls
  since its last cycle, a call of any layer leaves the committed mask in place and sets the logits of
  all chunks past it to minus infinity, the newest chunk included. The mask depends on the pool
  index alone, so a new request that is given the index of a finished one meets its mask.\<close>

theorem hook_masks_new_chunks:
  assumes "c ri = Some en" "active en = Some km" "int (length km) = active_seq en"
    and "partial en = (\<lambda>_. None)" "pend_step en = NO_CYCLE" "target_layers h \<noteq> []"
    and "0 < n_blk" "active_seq en < n_blk" "n_blk \<le> active_seq en + 64"
    and "call - last_cycle en < h_interval h * int (length (target_layers h))"
    and "int (length row) = n_blk"
  shows "\<exists>row' en'. hook_row tk sg score h call clid has_x (bi, ri, n_blk) c row = (Inr row', c(ri := Some en'))
    \<and> active en' = Some km \<and> row' = confine km row
    \<and> (\<forall>j. active_seq en \<le> int j \<and> int j < n_blk \<longrightarrow> row' ! j = NegInf) \<and> row' ! (nat n_blk - 1) = NegInf"
proof -
  have "\<not> need_fresh h call clid n_blk en" using assms(2,8-10) by (simp add: need_fresh_def)
  then have "scored_entry score h call clid bi n_blk en = en" using assms(5) by (simp add: scored_entry_def)
  moreover have "\<not> commits h clid n_blk en" using assms(4,6) by (cases "target_layers h") (simp_all add: commits_def)
  ultimately have l: "hook_level1 tk sg score h call clid bi n_blk en = (Inr (), en)" by (simp add: level1_split Let_def)
  have "c(ri := Some en) = c" using assms(1) by (simp add: fun_upd_idem)
  with l assms(1,2,7) have r: "hook_row tk sg score h call clid has_x (bi, ri, n_blk) c row = (Inr (confine km row), c(ri := Some en))"
    by (simp add: hook_row_def)
  have m: "confine km row ! j = NegInf" if "active_seq en \<le> int j" "int j < n_blk" for j
    using that assms(3,11) by (simp add: confine_def)
  have "confine km row ! (nat n_blk - 1) = NegInf" using m [of "nat n_blk - 1"] assms(7,8) by (simp add: of_nat_diff)
  with r m assms(2) show ?thesis by blast
qed

theorem hook_masks_new_chunks_witness:
  "\<exists>row' en'. hook_row topk_sort (\<lambda>x. x) const_scorer small_hook 1 1 True (0, 7, 2)
      [7 \<mapsto> fresh_entry\<lparr>active := Some [True], active_seq := 1, last_cycle := 0\<rparr>] [Fin 0, Fin 1]
    = (Inr row', [7 \<mapsto> en']) \<and> row' ! 1 = NegInf"
proof -
  let ?en = "fresh_entry\<lparr>active := Some [True], active_seq := 1, last_cycle := 0\<rparr>"
  from hook_masks_new_chunks [of "[7 \<mapsto> ?en]" 7 ?en "[True]" small_hook 2 1 "[Fin 0, Fin 1]" topk_sort "\<lambda>x. x"
      const_scorer 1 True 0]
  show ?thesis by (auto simp: fresh_entry_def small_hook_def)
qed

end
