(* ===== verification/ResidentMask.thy ===== *)
theory ResidentMask
  imports Retriever SwapRecall "HOL-Library.Extended_Nat"
begin

section \<open>The resident-mask capturer\<close>

text \<open>
  \<open>ResidentMaskCapturer\<close> of \<open>resident_mask_capturer.py\<close>: the global mask the decode graph reads, the
  per-row buffers of the score-resident path, and the operations the forward pass and the side band
  call. A row buffer is a function of the row (rows at or past \<open>max_bs\<close> are never read), its
  columns a list; the three buffers that are allocated together are one optional record. A page
  table is a list of rows. Requests' dictionaries are maps. The scores of the target layers, the
  trained network's output, are an argument, as are \<open>torch.sigmoid\<close> and \<open>torch.topk\<close>. Timing,
  logging, the diagnostic probes (all off by default) and the schedule metadata of the deep_gemm
  kernel are left out.
\<close>

record rbufs =
  resident_count_buf :: "nat \<Rightarrow> int"
  resident_pool_loc_buf :: "nat \<Rightarrow> int list"
  resident_id_page_table :: "nat \<Rightarrow> int list"

record capturer =
  c4_logical_size :: int
  c4_page_size :: int
  interval :: int
  max_bs :: nat
  cap_hook :: "hook option"
  resident_chunk_mask :: "int \<Rightarrow> bool"
  page_table_buf :: "int list list option"
  c4_seq_lens_buf :: "nat \<Rightarrow> int"
  req_step :: "int \<Rightarrow> int option"
  cycle_count :: int
  ofe_global_step :: int
  stagger_cycle :: bool
  req_phase :: "int \<Rightarrow> int option"
  next_phase :: int
  safe_release :: bool
  no_row_release :: bool
  score_resident :: bool
  cap_page_recall :: bool
  page_kmax :: int
  cap_index_k_offload :: bool
  reclaim_orphans :: bool
  fused_remap :: bool
  async_recall :: bool
  resident_buf :: nat
  resident_pages :: nat
  rows :: "rbufs option"
  resident_id_page_table_reserve :: "(nat \<Rightarrow> int list) option"
  resident_kv_scratch :: "(nat \<Rightarrow> buf) option"
  col_to_cell_buf :: "(nat \<Rightarrow> int list) option"
  valid_mask_buf :: "(nat \<Rightarrow> bool list) option"
  pending_count :: "(nat, int) odict"
  prev_row_occupant :: "int list option"
  cached_req_ids :: "int list option"


subsection \<open>Configuration\<close>

definition target_context_pages :: "int \<Rightarrow> int \<Rightarrow> int" where
  "target_context_pages tgt_ctx_tok page_size =
     (let tgt_chunks = (tgt_ctx_tok + 3) div 4
      in (tgt_chunks + page_size - 1) div page_size)"

text \<open>\<open>int(x)\<close> of a float truncates towards zero.\<close>

definition truncate_real :: "real \<Rightarrow> int" where
  "truncate_real x = (if 0 \<le> x then \<lfloor>x\<rfloor> else \<lceil>x\<rceil>)"

definition resolve_page_kmax :: "real \<Rightarrow> int \<Rightarrow> int \<Rightarrow> int \<Rightarrow> int" where
  "resolve_page_kmax ratio fixed_kmax tgt_ctx_tok page_size =
     (if 0 < ratio
      then max 1 (truncate_real (real_of_int (target_context_pages tgt_ctx_tok page_size) * ratio + 0.9999))
      else fixed_kmax)"

record cap_env =
  env_hook :: "hook option"
  env_stagger :: bool
  env_safe_release :: bool
  env_no_row_release :: bool
  env_score_resident :: bool
  env_cap_page_recall :: bool
  env_kmax_ratio :: real
  env_page_kmax :: int
  env_target_context :: int
  env_index_k_offload :: bool
  env_reclaim_orphans :: bool
  env_fused_remap :: bool
  env_async_recall :: bool
  env_resident_buf :: int

text \<open>\<open>__init__\<close> with \<open>_init_hook\<close>: the interval is the hook's when there is one, and the column
  count is rounded up to whole pages. Negative sizes do not occur: \<open>torch.full\<close> would refuse them.\<close>

definition init_capturer :: "cap_env \<Rightarrow> int \<Rightarrow> int \<Rightarrow> bool \<Rightarrow> int \<Rightarrow> nat \<Rightarrow> capturer" where
  "init_capturer env logical_size page_size on_cpu default_interval bs =
     (let kmax = resolve_page_kmax (env_kmax_ratio env) (env_page_kmax env) (env_target_context env) page_size;
          buf0 = (if env_cap_page_recall env then kmax * page_size else env_resident_buf env);
          pages = (buf0 + page_size - 1) div page_size
      in \<lparr>c4_logical_size = logical_size, c4_page_size = page_size,
          interval = (case env_hook env of None \<Rightarrow> default_interval | Some h \<Rightarrow> h_interval h),
          max_bs = bs, cap_hook = env_hook env, resident_chunk_mask = (\<lambda>_. True),
          page_table_buf = None, c4_seq_lens_buf = (\<lambda>_. 0), req_step = (\<lambda>_. None), cycle_count = 0,
          ofe_global_step = 0, stagger_cycle = env_stagger env, req_phase = (\<lambda>_. None), next_phase = 0,
          safe_release = env_safe_release env, no_row_release = env_no_row_release env,
          score_resident = env_score_resident env, cap_page_recall = env_cap_page_recall env,
          page_kmax = kmax, cap_index_k_offload = env_index_k_offload env,
          reclaim_orphans = env_reclaim_orphans env, fused_remap = env_fused_remap env,
          async_recall = (env_score_resident env \<and> env_async_recall env \<and> \<not> on_cpu),
          resident_buf = nat (pages * page_size), resident_pages = nat pages,
          rows = None, resident_id_page_table_reserve = None, resident_kv_scratch = None,
          col_to_cell_buf = None, valid_mask_buf = None, pending_count = [],
          prev_row_occupant = None, cached_req_ids = None\<rparr>)"


subsection \<open>The mask\<close>

text \<open>The pool location of column \<open>j\<close> in the graph: the page index is clamped to the table's width.\<close>

definition graph_loc :: "capturer \<Rightarrow> int list \<Rightarrow> nat \<Rightarrow> int" where
  "graph_loc c pt j =
     clamp 0 (c4_logical_size c)
       (pt ! nat (clamp 0 (int (length pt) - 1) (int j div c4_page_size c)) * c4_page_size c
          + int j mod c4_page_size c)"

definition apply_mask_row :: "capturer \<Rightarrow> int list \<Rightarrow> int \<Rightarrow> logit list \<Rightarrow> exn + logit list" where
  "apply_mask_row c pt seql row =
     (if pt = [] \<and> row \<noteq> [] then Inl IndexError
      else Inr (map (\<lambda>j. if int j < seql \<and> \<not> resident_chunk_mask c (graph_loc c pt j) then NegInf else row ! j)
                 [0..<length row]))"

text \<open>The pool location of logical chunk \<open>j\<close> in the side band, where the table is indexed as it is.\<close>

definition side_loc :: "capturer \<Rightarrow> int list \<Rightarrow> nat \<Rightarrow> int" where
  "side_loc c pt j =
     clamp 0 (c4_logical_size c) (pt ! nat (int j div c4_page_size c) * c4_page_size c + int j mod c4_page_size c)"

definition table_covers :: "capturer \<Rightarrow> int list list \<Rightarrow> nat \<Rightarrow> nat \<Rightarrow> bool" where
  "table_covers c page_table bi n_blk \<longleftrightarrow> bi < length page_table
     \<and> (0 < n_blk \<longrightarrow> (int n_blk - 1) div c4_page_size c < int (length (page_table ! bi)))"

definition scatter_logical_keep ::
  "nat \<Rightarrow> nat \<Rightarrow> bool list \<Rightarrow> int list list \<Rightarrow> int \<Rightarrow> capturer \<Rightarrow> (int list, capturer) outcome" where
  "scatter_logical_keep bi n_blk keep page_table prefill_chunks c =
     (if \<not> table_covers c page_table bi n_blk then (Inl IndexError, c)
      else if length keep \<noteq> n_blk then (Inl RuntimeError, c)
      else
        let loc = side_loc c (page_table ! bi);
            recall_keep = (\<lambda>j. keep ! j \<and> (0 \<le> prefill_chunks \<longrightarrow> int j < prefill_chunks))
        in (Inr (map loc (filter recall_keep [0..<n_blk])),
            c\<lparr>resident_chunk_mask := scatter (map (\<lambda>j. (loc j, keep ! j)) [0..<n_blk]) (resident_chunk_mask c)\<rparr>))"

definition scatter_resident :: "int list \<Rightarrow> bool list \<Rightarrow> capturer \<Rightarrow> capturer" where
  "scatter_resident pool_locs keep c =
     c\<lparr>resident_chunk_mask := scatter (zip (map (clamp 0 (c4_logical_size c)) pool_locs) keep) (resident_chunk_mask c)\<rparr>"

definition reset_all_resident :: "capturer \<Rightarrow> capturer" where
  "reset_all_resident c = c\<lparr>resident_chunk_mask := (\<lambda>_. True)\<rparr>"

text \<open>\<open>_capture_meta\<close>: rows below \<open>B\<close> are copied into the fixed buffers.\<close>

definition capture_meta :: "int list list \<Rightarrow> (nat \<Rightarrow> int) \<Rightarrow> nat \<Rightarrow> capturer \<Rightarrow> capturer" where
  "capture_meta page_table c4_seq_lens B c =
     (let n_pages = (if page_table = [] then 0 else length (hd page_table));
          stale = (case page_table_buf c of None \<Rightarrow> True | Some b \<Rightarrow> b = [] \<or> length (hd b) \<noteq> n_pages);
          old_pt = (if stale then replicate (max_bs c) (replicate n_pages 0) else the (page_table_buf c));
          old_sl = (if stale then (\<lambda>_. 0) else c4_seq_lens_buf c)
      in c\<lparr>page_table_buf := Some (take B page_table @ drop B old_pt),
           c4_seq_lens_buf := (\<lambda>r. if r < B then c4_seq_lens r else old_sl r)\<rparr>)"

definition capture_side_band_inputs ::
  "nat \<Rightarrow> nat \<Rightarrow> int list list \<Rightarrow> (nat \<Rightarrow> int) \<Rightarrow> capturer \<Rightarrow> capturer" where
  "capture_side_band_inputs clid batch page_table c4_seq_lens c =
     (case cap_hook c of
        None \<Rightarrow> c
      | Some h \<Rightarrow> if clid \<in> set (target_layers h) \<and> clid = hd (target_layers h)
                  then capture_meta page_table c4_seq_lens (min batch (max_bs c)) c else c)"


subsection \<open>The row buffers\<close>

text \<open>\<open>_ensure_page_recall_buffers\<close> and \<open>_ensure_resident_scratch\<close>: allocated once.\<close>

definition ensure_page_recall_buffers :: "capturer \<Rightarrow> capturer" where
  "ensure_page_recall_buffers c =
     (case rows c of
        Some _ \<Rightarrow> c
      | None \<Rightarrow> c\<lparr>rows := Some \<lparr>resident_count_buf = (\<lambda>_. 0),
                               resident_pool_loc_buf = (\<lambda>_. replicate (resident_buf c) (- 1)),
                               resident_id_page_table = (\<lambda>_. replicate (resident_pages c) 0)\<rparr>,
                  resident_id_page_table_reserve := Some (\<lambda>_. replicate (resident_pages c) 0)\<rparr>)"

definition ensure_resident_scratch :: "capturer \<Rightarrow> capturer" where
  "ensure_resident_scratch c =
     (case resident_kv_scratch c of
        Some _ \<Rightarrow> c
      | None \<Rightarrow> c\<lparr>resident_kv_scratch := Some (\<lambda>_ _. 0),
                  rows := Some \<lparr>resident_count_buf = (\<lambda>_. 0),
                               resident_pool_loc_buf = (\<lambda>_. replicate (resident_buf c) (- 1)),
                               resident_id_page_table =
                                 (\<lambda>r. int_range (int (r * resident_pages c)) (resident_pages c))\<rparr>,
                  col_to_cell_buf := Some (\<lambda>_. replicate (resident_buf c) (- 1))\<rparr>)"

text \<open>A row of \<open>n\<close> columns: the given values, then padding.\<close>

definition pad_row :: "nat \<Rightarrow> int \<Rightarrow> int list \<Rightarrow> int list" where
  "pad_row n pad vals = vals @ replicate (n - length vals) pad"

text \<open>The page scores of \<open>_select_resident_pages\<close>: the chunks over the threshold in each page, and
  infinity for the recent and the sink pages.\<close>

definition page_scores :: "(real \<Rightarrow> real) \<Rightarrow> hook \<Rightarrow> int \<Rightarrow> scores \<Rightarrow> nat \<Rightarrow> enat list" where
  "page_scores sg h ps part n_blk =
     (let n_pages = nat ((int n_blk + ps - 1) div ps);
          tail_page0 = max 0 (int n_blk - last_keep h) div ps;
          sink_page1 = (min (first_keep h) (int n_blk) + ps - 1) div ps
      in map (\<lambda>pg. if tail_page0 \<le> int pg \<or> (0 < first_keep h \<and> int pg < sink_page1) then \<infinity>
                   else enat (length (filter (\<lambda>j. int j div ps = int pg \<and> thresh h < ensemble sg h part j) [0..<n_blk])))
           [0..<n_pages])"

text \<open>The row buffers are total functions of the row, so a row past \<open>max_bs\<close>, where the tensors of the
  code end, is written instead of raising.\<close>

definition select_resident_pages ::
  "enat topk \<Rightarrow> (real \<Rightarrow> real) \<Rightarrow> hook \<Rightarrow> nat \<Rightarrow> nat \<Rightarrow> scores \<Rightarrow> int list list \<Rightarrow> capturer
     \<Rightarrow> (bool list, capturer) outcome" where
  "select_resident_pages tkp sg h bi n_blk part page_table c =
     (let ps = c4_page_size c;
          page_score = page_scores sg h ps part n_blk;
          n_pages = length page_score;
          K = min (page_kmax c) (int n_pages)
      in if \<not> scores_ok h part n_blk \<or> K < 0 then (Inl RuntimeError, c)
         else
           let top_logical = sort (tkp page_score (nat K))
           in if \<not> bi < length page_table \<or> list_ex (\<lambda>p. length (page_table ! bi) \<le> p) top_logical
              then (Inl IndexError, c)
              else
                case rows c of
                  None \<Rightarrow> (Inl AttributeError, c)
                | Some b \<Rightarrow>
                    let max_phys = max 0 (c4_logical_size c div ps - 1);
                        phys = map (\<lambda>p. clamp 0 max_phys (page_table ! bi ! p)) top_logical;
                        cols = concat (map (\<lambda>(lp, pp). map (\<lambda>off. (int lp * ps + off, pp * ps + off)) (int_range 0 (nat ps)))
                                        (zip top_logical phys));
                        locs = map (\<lambda>(chunk, loc). if chunk < int n_blk then loc else - 1) cols;
                        sel = map fst (filter (\<lambda>(chunk, _). chunk < int n_blk) cols)
                    in if resident_pages c < length phys \<or> resident_buf c < length locs
                       then (Inl RuntimeError, c)
                       else
                         (Inr (map (\<lambda>j. int j \<in> set sel) [0..<n_blk]),
                          c\<lparr>rows := Some (b
                              \<lparr>resident_id_page_table := (resident_id_page_table b)(bi := pad_row (resident_pages c) 0 phys),
                               resident_pool_loc_buf := (resident_pool_loc_buf b)(bi := pad_row (resident_buf c) (- 1) locs)\<rparr>),
                            pending_count := od_set bi (K * ps) (pending_count c)\<rparr>))"

text \<open>\<open>_build_resident_scratch\<close>. \<open>index_k\<close> gives the index-K buffer of each layer and \<open>row_width\<close> its
  bytes per chunk (\<open>page_bytes // ps\<close>); the gather moves whole flat rows of that width.\<close>

definition build_resident_scratch ::
  "(nat \<Rightarrow> buf) \<Rightarrow> int \<Rightarrow> nat \<Rightarrow> nat \<Rightarrow> bool list \<Rightarrow> int list list \<Rightarrow> capturer \<Rightarrow> (unit, capturer) outcome" where
  "build_resident_scratch index_k row_width bi n_blk keep page_table c0 =
     (let c = ensure_resident_scratch c0;
          ps = c4_page_size c;
          res_logical = take (resident_buf c) (filter (\<lambda>j. keep ! j) [0..<length keep]);
          K = length res_logical;
          c1 = c\<lparr>pending_count := od_set bi (int K) (pending_count c)\<rparr>
      in if K = 0 then (Inr (), c1)
         else if \<not> table_covers c page_table bi (Suc (last res_logical)) then (Inl IndexError, c1)
         else
           case (rows c1, resident_kv_scratch c1) of
             (Some b, Some scratch) \<Rightarrow>
               let src_rows = map (\<lambda>j. page_table ! bi ! nat (int j div ps) * ps + int j mod ps) res_logical;
                   seg_base = int (bi * resident_pages c) * ps;
                   moves = zip src_rows (int_range seg_base K)
               in (Inr (),
                   c1\<lparr>rows := Some (b\<lparr>resident_pool_loc_buf :=
                        (resident_pool_loc_buf b)(bi := pad_row (resident_buf c) (- 1) src_rows)\<rparr>),
                      resident_kv_scratch := Some (\<lambda>l. fold (row_copy row_width (index_k l)) moves (scratch l))\<rparr>)
           | _ \<Rightarrow> (Inl AttributeError, c1))"

definition refresh_valid_mask :: "capturer \<Rightarrow> capturer" where
  "refresh_valid_mask c =
     (case rows c of
        None \<Rightarrow> c
      | Some b \<Rightarrow> c\<lparr>valid_mask_buf := Some (\<lambda>r. map (\<lambda>j. int j < resident_count_buf b r) [0..<resident_buf c])\<rparr>)"

definition publish_pending_counts :: "capturer \<Rightarrow> capturer" where
  "publish_pending_counts c =
     (case rows c of
        None \<Rightarrow> c\<lparr>pending_count := []\<rparr>
      | Some b \<Rightarrow>
          c\<lparr>rows := Some (b\<lparr>resident_count_buf :=
                fold (\<lambda>(bi, K) f. if bi < max_bs c then f(bi := K) else f) (pending_count c) (resident_count_buf b)\<rparr>),
            pending_count := []\<rparr>)"

definition col_cell :: "engine \<Rightarrow> int \<Rightarrow> int" where
  "col_cell e loc =
     (let idx = clamp 0 (lut_cols e - 1) (if 0 \<le> loc then loc else 0);
          cell = chunk_cell_lut e 0 idx
      in if 0 \<le> loc \<and> 0 \<le> cell then cell else - 1)"

definition refresh_col_to_cell :: "engine \<Rightarrow> capturer \<Rightarrow> (unit, capturer) outcome" where
  "refresh_col_to_cell e c =
     (case (col_to_cell_buf c, rows c) of
        (Some _, Some b) \<Rightarrow>
          (Inr (), c\<lparr>col_to_cell_buf := Some (\<lambda>r. map (col_cell e) (resident_pool_loc_buf b r))\<rparr>)
      | _ \<Rightarrow> (Inl AttributeError, c))"

definition reserve_block :: "engine \<Rightarrow> int \<Rightarrow> int \<Rightarrow> int" where
  "reserve_block e ps phys =
     (let cell = chunk_cell_lut e 0 (clamp 0 (lut_cols e - 1) (phys * ps))
      in if 0 \<le> cell then cell div ps else 0)"

definition remap_index_page_table :: "engine \<Rightarrow> nat list \<Rightarrow> capturer \<Rightarrow> capturer" where
  "remap_index_page_table e due c =
     (case (resident_id_page_table_reserve c, rows c) of
        (Some t, Some b) \<Rightarrow>
          c\<lparr>resident_id_page_table_reserve := Some (\<lambda>r. if r \<in> set due
              then map (reserve_block e (c4_page_size c)) (resident_id_page_table b r) else t r)\<rparr>
      | _ \<Rightarrow> c)"

definition prebuild_for_capture :: "bool \<Rightarrow> capturer \<Rightarrow> capturer" where
  "prebuild_for_capture env_prebuild c =
     (if \<not> score_resident c \<or> \<not> env_prebuild then c
      else refresh_valid_mask (if cap_page_recall c then ensure_page_recall_buffers c else ensure_resident_scratch c))"

end
