(* ===== verification/SideBand.thy ===== *)
theory SideBand
  imports ResidentMask
begin

section \<open>The side band of the resident-mask capturer\<close>

text \<open>
  The operations of \<open>ResidentMaskCapturer\<close> that run around a forward and call the swap engine:
  \<open>on_forward_begin\<close>, \<open>on_forward_end\<close>, \<open>_sideband_work\<close>, \<open>_reset_changed_rows\<close> and
  \<open>reset_req_residency\<close>. They act on the capturer together with the engine, which is absent when
  Path-P is off. The background thread of the asynchronous mode is a job: the snapshot
  \<open>on_forward_end\<close> takes, run to its end at the latest when the next call joins it; what it raises
  is swallowed. Python sets are iterated in the order of the list they are made from.
\<close>

record job =
  j_due :: "nat list"
  j_req_ids :: "int list"
  j_seql :: "nat \<Rightarrow> int"
  j_page_table :: "int list list"
  j_score :: scorer

record sys =
  cap :: capturer
  eng :: "engine option"
  recall_job :: "job option"

text \<open>The arguments that stand for the network's and the library's functions.\<close>

record fns =
  f_topk :: "real topk"
  f_page_topk :: "enat topk"
  f_sigmoid :: "real \<Rightarrow> real"
  f_index_k :: "nat \<Rightarrow> buf"
  f_row_width :: int

definition on_engine :: "(engine \<Rightarrow> engine) \<Rightarrow> sys \<Rightarrow> sys" where
  "on_engine f s = s\<lparr>eng := map_option f (eng s)\<rparr>"

definition on_cap :: "(capturer \<Rightarrow> capturer) \<Rightarrow> sys \<Rightarrow> sys" where
  "on_cap f s = s\<lparr>cap := f (cap s)\<rparr>"

definition obind :: "('a, 's) outcome \<Rightarrow> ('a \<Rightarrow> 's \<Rightarrow> ('b, 's) outcome) \<Rightarrow> ('b, 's) outcome" where
  "obind r f = (case r of (Inl x, s) \<Rightarrow> (Inl x, s) | (Inr v, s) \<Rightarrow> f v s)"

definition lift_cap :: "(capturer \<Rightarrow> ('a, capturer) outcome) \<Rightarrow> sys \<Rightarrow> ('a, sys) outcome" where
  "lift_cap f s = (case f (cap s) of (r, c) \<Rightarrow> (r, s\<lparr>cap := c\<rparr>))"

definition lift_eng :: "(engine \<Rightarrow> ('a, engine) outcome) \<Rightarrow> 'a \<Rightarrow> sys \<Rightarrow> ('a, sys) outcome" where
  "lift_eng f dflt s =
     (case eng s of
        None \<Rightarrow> (Inr dflt, s)
      | Some e \<Rightarrow> (case f e of (r, e') \<Rightarrow> (r, s\<lparr>eng := Some e'\<rparr>)))"


subsection \<open>One due request\<close>

definition prefill_chunks_of :: "engine option \<Rightarrow> int \<Rightarrow> int" where
  "prefill_chunks_of eo ri =
     (case eo of
        None \<Rightarrow> - 1
      | Some e \<Rightarrow> if own_reserve e \<and> decode_t_ready e \<and> 0 \<le> ri \<and> ri < max_req_pool e
                  then prefill_chunks_t e ri else - 1)"

definition req_scores :: "hook \<Rightarrow> scorer \<Rightarrow> nat \<Rightarrow> nat \<Rightarrow> scores" where
  "req_scores h score bi n_blk = (\<lambda>l. if l \<in> set (target_layers h) then score l bi n_blk else None)"

text \<open>Select or finalize, build the scratch on the chunk path, scatter the mask, record the pages.\<close>

definition sideband_req ::
  "fns \<Rightarrow> hook \<Rightarrow> job \<Rightarrow> nat \<Rightarrow> sys \<Rightarrow> (int list, sys) outcome" where
  "sideband_req fn h jb bi s =
     (let ri = j_req_ids jb ! bi;
          n_blk = nat (j_seql jb bi);
          part = req_scores h (j_score jb) bi n_blk
      in if j_seql jb bi \<le> 0 \<or> \<not> list_all (\<lambda>l. part l \<noteq> None) (target_layers h) then (Inr [], s)
         else
           obind (if cap_page_recall (cap s)
                  then lift_cap (\<lambda>c. select_resident_pages (f_page_topk fn) (f_sigmoid fn) h bi n_blk part (j_page_table jb)
                                   (ensure_page_recall_buffers c)) s
                  else (case finalize_resident (f_topk fn) (f_sigmoid fn) h part n_blk of
                          Inl x \<Rightarrow> (Inl x, s) | Inr keep \<Rightarrow> (Inr keep, s)))
             (\<lambda>keep s1. obind (if score_resident (cap s1) \<and> \<not> cap_page_recall (cap s1)
                               then lift_cap (build_resident_scratch (f_index_k fn) (f_row_width fn) bi n_blk keep (j_page_table jb)) s1
                               else (Inr (), s1))
             (\<lambda>_ s2. obind (lift_cap (scatter_logical_keep bi n_blk keep (j_page_table jb) (prefill_chunks_of (eng s2) ri)) s2)
             (\<lambda>kept_locs s3.
                (Inr kept_locs,
                 if kept_locs \<noteq> []
                 then on_engine (\<lambda>e. if owner_release e then record_owned_pages ri (Some kept_locs) e else e) s3
                 else s3)))))"

fun sideband_reqs :: "fns \<Rightarrow> hook \<Rightarrow> job \<Rightarrow> nat list \<Rightarrow> sys \<Rightarrow> (int list list, sys) outcome" where
  "sideband_reqs fn h jb [] s = (Inr [], s)"
| "sideband_reqs fn h jb (bi # bis) s =
     obind (sideband_req fn h jb bi s) (\<lambda>kept s1.
     obind (sideband_reqs fn h jb bis s1) (\<lambda>rest s2. (Inr (kept # rest), s2)))"


subsection \<open>The side-band body\<close>

definition publish :: "sys \<Rightarrow> (unit, sys) outcome" where
  "publish s =
     (if score_resident (cap s) \<and> rows (cap s) \<noteq> None \<and> 0 < max_bs (cap s) then
        obind (if fused_remap (cap s)
               then (case eng s of None \<Rightarrow> (Inr (), s) | Some e \<Rightarrow> lift_cap (refresh_col_to_cell e) s)
               else (Inr (), s))
          (\<lambda>_ s1. (Inr (), on_cap (\<lambda>c. refresh_valid_mask (publish_pending_counts c)) s1))
      else (Inr (), on_cap (\<lambda>c. c\<lparr>pending_count := []\<rparr>) s))"

definition sideband_work :: "fns \<Rightarrow> hook \<Rightarrow> job \<Rightarrow> sys \<Rightarrow> (unit, sys) outcome" where
  "sideband_work fn h jb s =
     obind (sideband_reqs fn h jb (j_due jb) (on_engine (\<lambda>e. snd (get_and_reset_remap_miss e)) s)) (\<lambda>kept s1.
     obind (if concat kept = [] then (Inr 0, s1) else lift_eng (recall_resident_global (concat kept)) 0 s1) (\<lambda>_ s2.
       let s3 = (if cap_index_k_offload (cap s2) \<and> cap_page_recall (cap s2)
                 then (case eng s2 of None \<Rightarrow> s2 | Some e \<Rightarrow> on_cap (remap_index_page_table e (j_due jb)) s2) else s2);
           s4 = (if reclaim_orphans (cap s3)
                 then on_engine (\<lambda>e. snd (reclaim_orphans_global (resident_chunk_mask (cap s3))
                                            (c4_logical_size (cap s3) + 1) e)) s3
                 else s3)
       in publish s4))"

text \<open>The body of the background thread, and its join.\<close>

definition join_recall :: "fns \<Rightarrow> sys \<Rightarrow> sys" where
  "join_recall fn s =
     (case (recall_job s, cap_hook (cap s)) of
        (Some jb, Some h) \<Rightarrow>
          on_cap (\<lambda>c. c\<lparr>cycle_count := cycle_count c + 1\<rparr>) (snd (sideband_work fn h jb (s\<lparr>recall_job := None\<rparr>)))
      | _ \<Rightarrow> s)"


subsection \<open>Row turnover\<close>

definition changed_rows :: "capturer \<Rightarrow> int list \<Rightarrow> nat \<Rightarrow> nat list" where
  "changed_rows c req_ids B =
     filter (\<lambda>bi. case prev_row_occupant c of None \<Rightarrow> True
               | Some prev \<Rightarrow> length prev \<le> bi \<or> prev ! bi \<noteq> req_ids ! bi) [0..<min B (max_bs c)]"

definition row_locs :: "rbufs \<Rightarrow> nat list \<Rightarrow> int list" where
  "row_locs b rs = filter (\<lambda>loc. 0 \<le> loc) (concat (map (resident_pool_loc_buf b) rs))"

definition releasable :: "capturer \<Rightarrow> rbufs \<Rightarrow> nat list \<Rightarrow> nat \<Rightarrow> int list" where
  "releasable c b rs B =
     (let locs = row_locs b rs
      in if safe_release c then filter (\<lambda>loc. loc \<notin> set (row_locs b [0..<min B (max_bs c)])) locs else locs)"

definition release_rows :: "capturer \<Rightarrow> int list \<Rightarrow> engine \<Rightarrow> engine" where
  "release_rows c locs e =
     (if owner_release e \<or> no_row_release c \<or> locs = [] then e else snd (release_req_pool_locs locs e))"

definition clear_rows :: "(nat \<Rightarrow> bool) \<Rightarrow> capturer \<Rightarrow> capturer" where
  "clear_rows P c =
     (case rows c of
        None \<Rightarrow> c
      | Some b \<Rightarrow>
          c\<lparr>rows := Some \<lparr>resident_count_buf = (\<lambda>r. if P r then 0 else resident_count_buf b r),
                         resident_pool_loc_buf = (\<lambda>r. if P r then replicate (resident_buf c) (- 1) else resident_pool_loc_buf b r),
                         resident_id_page_table = (\<lambda>r. if P r \<and> cap_page_recall c then replicate (resident_pages c) 0
                                                       else resident_id_page_table b r)\<rparr>,
            col_to_cell_buf := map_option (\<lambda>t r. if P r then replicate (resident_buf c) (- 1) else t r) (col_to_cell_buf c)\<rparr>)"

definition restart_req :: "int \<Rightarrow> capturer \<Rightarrow> capturer" where
  "restart_req ri c =
     (let c1 = c\<lparr>req_step := (req_step c)(ri := Some 0)\<rparr>
      in if stagger_cycle c
         then c1\<lparr>req_phase := (req_phase c)(ri := Some (next_phase c mod interval c)), next_phase := next_phase c + 1\<rparr>
         else c1)"

definition restart_row :: "int list \<Rightarrow> nat \<Rightarrow> capturer \<Rightarrow> capturer" where
  "restart_row req_ids bi c =
     restart_req (req_ids ! bi) (c\<lparr>pending_count := od_pop bi (pending_count c)\<rparr>)"

definition reset_changed_rows :: "int list \<Rightarrow> nat \<Rightarrow> sys \<Rightarrow> sys" where
  "reset_changed_rows req_ids B s =
     (case rows (cap s) of
        None \<Rightarrow> s
      | Some b \<Rightarrow>
          let changed = changed_rows (cap s) req_ids B;
              s1 = (if B < max_bs (cap s)
                    then on_cap (clear_rows (\<lambda>r. B \<le> r))
                           (on_engine (release_rows (cap s) (releasable (cap s) b [B..<max_bs (cap s)] B)) s)
                    else s);
              b1 = the (rows (cap s1));
              s2 = (if changed \<noteq> []
                    then on_cap (\<lambda>c. fold (restart_row req_ids) changed (clear_rows (\<lambda>r. r \<in> set changed) c))
                           (on_engine (release_rows (cap s1) (releasable (cap s1) b1 changed B)) s1)
                    else s1);
              s3 = (if changed \<noteq> [] \<or> B < max_bs (cap s) then on_cap refresh_valid_mask s2 else s2)
          in on_cap (\<lambda>c. c\<lparr>prev_row_occupant := Some (take B req_ids)\<rparr>) s3)"

definition on_forward_begin :: "fns \<Rightarrow> bool \<Rightarrow> int list \<Rightarrow> sys \<Rightarrow> sys" where
  "on_forward_begin fn is_decode req_ids s =
     (if \<not> score_resident (cap s) \<or> rows (cap s) = None \<or> \<not> is_decode \<or> req_ids = []
         \<or> prev_row_occupant (cap s) = Some req_ids then s
      else
        let s1 = on_cap (\<lambda>c. c\<lparr>cached_req_ids := Some req_ids\<rparr>) (join_recall fn s);
            vanished = (case prev_row_occupant (cap s) of None \<Rightarrow> []
                          | Some prev \<Rightarrow> filter (\<lambda>r. r \<notin> set req_ids) (remdups prev));
            s2 = on_engine (\<lambda>e. if owner_release e then fold (\<lambda>ri e. snd (release_owned_pages ri e)) vanished e else e) s1
        in reset_changed_rows req_ids (length req_ids) s2)"


subsection \<open>After a forward\<close>

definition is_due :: "capturer \<Rightarrow> int \<Rightarrow> bool" where
  "is_due c ri =
     (let step = (case req_step c ri of None \<Rightarrow> 0 | Some n \<Rightarrow> n);
          phase = (if stagger_cycle c then (case req_phase c ri of None \<Rightarrow> 0 | Some p \<Rightarrow> p) else 0)
      in step = 0 \<or> step mod interval c = phase mod interval c)"

definition advance_req :: "int \<Rightarrow> capturer \<Rightarrow> capturer" where
  "advance_req ri c = c\<lparr>req_step := (req_step c)(ri := Some ((case req_step c ri of None \<Rightarrow> 0 | Some n \<Rightarrow> n) + 1))\<rparr>"

fun due_loop :: "nat \<Rightarrow> int list \<Rightarrow> capturer \<Rightarrow> nat list \<times> capturer" where
  "due_loop bi [] c = ([], c)"
| "due_loop bi (ri # ris) c =
     (let (due, c1) = due_loop (Suc bi) ris (advance_req ri c)
      in (if is_due c ri then bi # due else due, c1))"

text \<open>The request ids are read from the device when the batch size changed or every \<open>interval\<close> steps,
  and otherwise cached; then the cadence of every row advances.\<close>

definition forward_due :: "int list \<Rightarrow> capturer \<Rightarrow> int list \<times> nat list \<times> capturer" where
  "forward_due pool_indices c =
     (let c0 = c\<lparr>ofe_global_step := ofe_global_step c + 1\<rparr>;
          (req_ids, c1) =
            (case cached_req_ids c0 of
               Some ids \<Rightarrow> if length ids \<noteq> length pool_indices \<or> ofe_global_step c0 mod interval c0 = 0
                           then (pool_indices, c0\<lparr>cached_req_ids := Some pool_indices\<rparr>) else (ids, c0)
             | None \<Rightarrow> (pool_indices, c0\<lparr>cached_req_ids := Some pool_indices\<rparr>));
          (due, c2) = due_loop 0 req_ids c1
      in (req_ids, due, c2))"

definition on_forward_end :: "fns \<Rightarrow> scorer \<Rightarrow> bool \<Rightarrow> int list \<Rightarrow> sys \<Rightarrow> (unit, sys) outcome" where
  "on_forward_end fn score is_decode pool_indices s =
     (case (cap_hook (cap s), page_table_buf (cap s)) of
        (Some h, Some pt) \<Rightarrow>
          if \<not> is_decode then (Inr (), s)
          else
            let (req_ids, due, c2) = forward_due pool_indices (cap s);
                s1 = s\<lparr>cap := c2\<rparr>;
                jb = \<lparr>j_due = due, j_req_ids = req_ids, j_seql = c4_seq_lens_buf c2, j_page_table = pt, j_score = score\<rparr>
            in if due = [] then (Inr (), s1)
               else if async_recall c2 then (Inr (), (join_recall fn s1)\<lparr>recall_job := Some jb\<rparr>)
               else obind (sideband_work fn h jb s1)
                      (\<lambda>_ s2. (Inr (), on_cap (\<lambda>c. c\<lparr>cycle_count := cycle_count c + 1\<rparr>) s2))
      | _ \<Rightarrow> (Inr (), s))"


subsection \<open>The request boundary\<close>

definition reset_req :: "int list list \<Rightarrow> nat \<times> int \<times> int \<Rightarrow> sys \<Rightarrow> (unit, sys) outcome" where
  "reset_req page_table r s =
     (case r of (bi, ri, seql) \<Rightarrow>
        let c = cap s; n_blk = nat seql
        in if seql \<le> 0 then (Inr (), s\<lparr>cap := c\<lparr>req_step := (req_step c)(ri := Some 0)\<rparr>\<rparr>)
           else if \<not> table_covers c page_table bi n_blk then (Inl IndexError, s)
           else
             let locs = map (side_loc c (page_table ! bi)) [0..<n_blk];
                 c1 = restart_req ri (c\<lparr>resident_chunk_mask := fill locs True (resident_chunk_mask c)\<rparr>);
                 c2 = (case rows c1 of
                         Some b \<Rightarrow> if score_resident c1 \<and> bi < max_bs c1
                           then c1\<lparr>rows := Some (b\<lparr>resident_count_buf := (resident_count_buf b)(bi := 0),
                                     resident_pool_loc_buf := (resident_pool_loc_buf b)(bi := replicate (resident_buf c1) (- 1))\<rparr>),
                                   col_to_cell_buf := map_option (\<lambda>t. t(bi := replicate (resident_buf c1) (- 1))) (col_to_cell_buf c1)\<rparr>
                           else c1
                       | None \<Rightarrow> c1)
             in (Inr (), on_engine (\<lambda>e.
                   register_decode_req ri (int n_blk) 4096
                     (snd (release_req_pool_locs locs
                       (snd (discard_copied_pages (unique (map (\<lambda>loc. loc div c4_page_size c) locs)) e))))) (s\<lparr>cap := c2\<rparr>)))"

fun reset_reqs :: "int list list \<Rightarrow> (nat \<times> int \<times> int) list \<Rightarrow> sys \<Rightarrow> (unit, sys) outcome" where
  "reset_reqs page_table [] s = (Inr (), s)"
| "reset_reqs page_table (r # rs) s = obind (reset_req page_table r s) (\<lambda>_ s1. reset_reqs page_table rs s1)"

definition reset_req_residency :: "int list \<Rightarrow> int list list \<Rightarrow> (nat \<Rightarrow> int) \<Rightarrow> sys \<Rightarrow> (unit, sys) outcome" where
  "reset_req_residency req_pool_indices page_table c4_seq_lens s =
     reset_reqs page_table (map (\<lambda>bi. (bi, req_pool_indices ! bi, c4_seq_lens bi)) [0..<length req_pool_indices])
       (on_cap (\<lambda>c. c\<lparr>cached_req_ids := None\<rparr>) s)"

end
