(* ===== verification/Indexer.thy ===== *)
theory Indexer
  imports ResidentMask
begin

section \<open>The selection of the c4 indexer\<close>

text \<open>
  What \<open>forward_c4_indexer\<close> of \<open>indexer.py\<close> does with the logits of one decode row: the reference
  \<open>topk_transform_512_pytorch_vectorized\<close>, the score-resident \<open>_rs_custom_topk\<close>, and the step of
  \<open>deepseek_v4_backend_radix.py\<close> that turns the selected pool locations into reserve cells. The
  CUDA kernel \<open>topk_transform_512\<close> is an argument (\<open>native\<close>: the raw columns it writes).
\<close>

definition TOPK :: nat where
  "TOPK = 512"

definition page_bits :: "int \<Rightarrow> nat" where
  "page_bits page_size = (if 1 < page_size then bit_length (page_size - 1) else 0)"

text \<open>The raw columns and which of them are valid, before the page lookup.\<close>

definition topk_raw :: "logit topk \<Rightarrow> logit list \<Rightarrow> int \<Rightarrow> (int \<times> bool) list" where
  "topk_raw tk scores seq_len =
     (let masked = map (\<lambda>j. if int j < seq_len then scores ! j else NegInf) [0..<length scores];
          actual_k = min TOPK (length scores);
          raw = map int (tk masked actual_k) @ replicate (TOPK - actual_k) 0
      in if seq_len \<le> int TOPK
         then map (\<lambda>k. if int k < seq_len then (int k, True) else (- 1, False)) [0..<TOPK]
         else map (\<lambda>k. (raw ! k, k < actual_k \<and> scores ! nat (raw ! k) \<noteq> NegInf)) [0..<TOPK])"

definition topk_transform_row ::
  "logit topk \<Rightarrow> logit list \<Rightarrow> int \<Rightarrow> int list \<Rightarrow> int \<Rightarrow> exn + (int list \<times> int list)" where
  "topk_transform_row tk scores seq_len page_row page_size =
     (let bits = page_bits page_size;
          raws = topk_raw tk scores seq_len;
          page_idx = (\<lambda>r. nat (max 0 (drop_bit bits r)))
      in if scores = [] \<or> list_ex (\<lambda>(r, _). length page_row \<le> page_idx r) raws then Inl IndexError
         else Inr (map (\<lambda>(r, valid). if valid
                          then or (push_bit bits (page_row ! page_idx r)) (and r (page_size - 1)) else - 1) raws,
                   map (\<lambda>(r, valid). if valid then r else - 1) raws))"


subsection \<open>The score-resident path\<close>

definition NEG_LOGIT :: real where
  "NEG_LOGIT = - (10 ^ 30)"

definition NEG_HALF :: real where
  "NEG_HALF = - (10 ^ 29)"

definition rs_custom_topk_row :: "real topk \<Rightarrow> real list \<Rightarrow> bool list \<Rightarrow> int list \<Rightarrow> int list" where
  "rs_custom_topk_row tk logits valid pool =
     (let masked = map (\<lambda>j. if valid ! j then logits ! j else NEG_LOGIT) [0..<length logits];
          k = min TOPK (length logits)
      in map (\<lambda>j. if NEG_HALF < masked ! j then pool ! j else - 1) (tk masked k) @ replicate (TOPK - k) (- 1))"

text \<open>The branch on \<open>SGLANG_PATHP_RS_NATIVE_TOPK\<close>: columns of the native kernel, gathered from the
  pool locations or, with \<open>SGLANG_PATHP_FUSED_REMAP\<close>, from the column-to-cell table.\<close>

definition rs_native_row :: "int list \<Rightarrow> int list \<Rightarrow> int list" where
  "rs_native_row table raw =
     map (\<lambda>r. if 0 \<le> r then table ! nat (clamp 0 (int (length table) - 1) r) else - 1) raw"

definition rs_select_row ::
  "real topk \<Rightarrow> bool \<Rightarrow> capturer \<Rightarrow> rbufs \<Rightarrow> nat \<Rightarrow> real list \<Rightarrow> int list \<Rightarrow> exn + int list" where
  "rs_select_row tk rs_native c b bi logits raw =
     (if rs_native then
        if fused_remap c then
          (case col_to_cell_buf c of None \<Rightarrow> Inl AttributeError | Some t \<Rightarrow> Inr (rs_native_row (t bi) raw))
        else Inr (rs_native_row (resident_pool_loc_buf b bi) raw)
      else
        let counted = map (\<lambda>j. int j < resident_count_buf b bi) [0..<length logits];
            valid = (case valid_mask_buf c of
                       Some v \<Rightarrow> if length (v bi) = length logits then v bi else counted
                     | None \<Rightarrow> counted)
        in Inr (rs_custom_topk_row tk logits valid (resident_pool_loc_buf b bi)))"

text \<open>The backend, decode with a capturer: the indices are remapped unless the fused gate says that
  they are cells already.\<close>

definition backend_cells :: "capturer \<Rightarrow> engine \<Rightarrow> nat \<Rightarrow> int list \<Rightarrow> int list" where
  "backend_cells c e l sel =
     (if fused_remap c \<and> score_resident c \<and> resident_kv_scratch c \<noteq> None \<and> col_to_cell_buf c \<noteq> None
      then sel else fst (remap_compressed_locs e l sel))"


subsection \<open>Bit operations of the page lookup\<close>

lemma page_bits_power: "page_bits (2 ^ k) = k"
proof (cases k)
  case 0
  then show ?thesis by (simp add: page_bits_def)
next
  case (Suc n)
  have "(1 :: int) < 2 ^ Suc n" by (rule one_less_power) simp_all
  then show ?thesis unfolding Suc page_bits_def using bit_length_mersenne [of "Suc n"] by simp
qed

lemma page_lookup_bits:
  fixes r phys :: int
  shows "drop_bit k r = r div 2 ^ k" "or (push_bit k phys) (and r (2 ^ k - 1)) = phys * 2 ^ k + r mod 2 ^ k"
proof -
  show "drop_bit k r = r div 2 ^ k" by (simp add: drop_bit_eq_div)
  have a: "and r (2 ^ k - 1) = take_bit k r" by (simp add: take_bit_eq_mask mask_eq_exp_minus_1)
  have "or (push_bit k phys) (take_bit k r) = push_bit k phys + take_bit k r"
    by (rule disjunctive_add_eq_or [symmetric], rule bit_eqI) (simp add: bit_simps)
  then show "or (push_bit k phys) (and r (2 ^ k - 1)) = phys * 2 ^ k + r mod 2 ^ k"
    unfolding a by (simp add: push_bit_eq_mult take_bit_eq_mod)
qed

end
