(* ===== verification/MaskProps.thy ===== *)
theory MaskProps
  imports SideBand Indexer SwapProps
begin

section \<open>What the resident mask guarantees\<close>

text \<open>
  The mask between the side band, which writes it by logical chunk, and the graph, which reads it by
  column; the request boundary; the selection of the indexer over masked logits. \<open>row_ok\<close> is what
  the scheduler's page tables provide: the pages of a request are distinct and inside the pool.
\<close>

definition row_pages :: "capturer \<Rightarrow> nat \<Rightarrow> nat" where
  "row_pages c n = nat ((int n + c4_page_size c - 1) div c4_page_size c)"

definition row_ok :: "capturer \<Rightarrow> int list \<Rightarrow> nat \<Rightarrow> bool" where
  "row_ok c pt n \<longleftrightarrow> 0 < c4_page_size c \<and> row_pages c n \<le> length pt \<and> distinct (take (row_pages c n) pt)
     \<and> list_all (\<lambda>p. 0 \<le> p \<and> (p + 1) * c4_page_size c \<le> c4_logical_size c) (take (row_pages c n) pt)"

lemma div_page_bound:
  assumes "0 < ps" "j < n"
  shows "nat (int j div ps) < nat ((int n + ps - 1) div ps)"
proof -
  have "int j div ps + 1 = (int j + ps) div ps" using assms(1) by simp
  also have "\<dots> \<le> (int n + ps - 1) div ps" using assms by (intro zdiv_mono1) simp_all
  finally have "int j div ps < (int n + ps - 1) div ps" by simp
  moreover have "0 \<le> int j div ps" using assms(1) by (simp add: pos_imp_zdiv_nonneg_iff)
  ultimately show ?thesis by simp
qed

lemma row_okD:
  assumes "row_ok c pt n" "j < n"
  shows "nat (int j div c4_page_size c) < row_pages c n" "nat (int j div c4_page_size c) < length pt"
    and "0 \<le> pt ! nat (int j div c4_page_size c)"
    and "(pt ! nat (int j div c4_page_size c) + 1) * c4_page_size c \<le> c4_logical_size c"
proof -
  have ps: "0 < c4_page_size c" using assms(1) by (simp add: row_ok_def)
  show p: "nat (int j div c4_page_size c) < row_pages c n"
    unfolding row_pages_def by (rule div_page_bound [OF ps assms(2)])
  with assms(1) show "nat (int j div c4_page_size c) < length pt" by (simp add: row_ok_def)
  with p have "pt ! nat (int j div c4_page_size c) \<in> set (take (row_pages c n) pt)"
    by (auto simp: in_set_conv_nth intro!: exI [of _ "nat (int j div c4_page_size c)"])
  with assms(1) show "0 \<le> pt ! nat (int j div c4_page_size c)"
    "(pt ! nat (int j div c4_page_size c) + 1) * c4_page_size c \<le> c4_logical_size c"
    by (auto simp: row_ok_def list_all_iff)
qed

text \<open>Inside a covered row neither clamp acts, and the location determines the chunk.\<close>

lemma page_addr_bounds:
  fixes p ps x :: int
  assumes "0 < ps" "0 \<le> p" "(p + 1) * ps \<le> m" "0 \<le> x" "x < ps"
  shows "0 \<le> p * ps + x" "p * ps + x < m"
  using assms by (simp_all add: distrib_right)

lemma side_loc_eq:
  assumes "row_ok c pt n" "j < n"
  shows "side_loc c pt j = pt ! nat (int j div c4_page_size c) * c4_page_size c + int j mod c4_page_size c"
    and "graph_loc c pt j = side_loc c pt j" "0 \<le> side_loc c pt j" "side_loc c pt j < c4_logical_size c"
proof -
  have ps: "0 < c4_page_size c" using assms(1) by (simp add: row_ok_def)
  note d = row_okD [OF assms]
  let ?x = "pt ! nat (int j div c4_page_size c) * c4_page_size c + int j mod c4_page_size c"
  have b: "0 \<le> ?x" "?x < c4_logical_size c"
    using page_addr_bounds [OF ps d(3,4), of "int j mod c4_page_size c"] ps by simp_all
  show s: "side_loc c pt j = ?x" using b by (simp add: side_loc_def)
  with b show "0 \<le> side_loc c pt j" "side_loc c pt j < c4_logical_size c" by simp_all
  have "0 \<le> int j div c4_page_size c" using ps by (simp add: pos_imp_zdiv_nonneg_iff)
  with d(2) have "clamp 0 (int (length pt) - 1) (int j div c4_page_size c) = int j div c4_page_size c"
    by (intro clamp_id) simp_all
  then show "graph_loc c pt j = side_loc c pt j" by (simp add: graph_loc_def side_loc_def)
qed

lemma addr_split:
  fixes p q ps x y :: int
  assumes "0 < ps" "p * ps + x = q * ps + y" "0 \<le> x" "x < ps" "0 \<le> y" "y < ps"
  shows "p = q" "x = y"
proof -
  have "(p * ps + x) div ps = p" using assms(1,3,4) by simp
  moreover have "(q * ps + y) div ps = q" using assms(1,5,6) by simp
  ultimately show "p = q" using assms(2) by metis
  with assms(2) show "x = y" by simp
qed

lemma side_loc_inj:
  assumes "row_ok c pt n" "i < n" "j < n" "side_loc c pt i = side_loc c pt j"
  shows "i = j"
proof -
  have ps: "0 < c4_page_size c" using assms(1) by (simp add: row_ok_def)
  note e = assms(4) [unfolded side_loc_eq(1) [OF assms(1,2)] side_loc_eq(1) [OF assms(1,3)]]
  from addr_split [OF ps e] ps have pg: "pt ! nat (int i div c4_page_size c) = pt ! nat (int j div c4_page_size c)"
    and off: "int i mod c4_page_size c = int j mod c4_page_size c" by simp_all
  have "distinct (take (row_pages c n) pt)" "row_pages c n \<le> length pt" using assms(1) by (simp_all add: row_ok_def)
  with pg row_okD(1) [OF assms(1,2)] row_okD(1) [OF assms(1,3)]
  have "nat (int i div c4_page_size c) = nat (int j div c4_page_size c)"
    by (simp add: distinct_conv_nth) (metis)
  moreover have "0 \<le> int i div c4_page_size c" "0 \<le> int j div c4_page_size c"
    using ps by (simp_all add: pos_imp_zdiv_nonneg_iff)
  ultimately have "int i div c4_page_size c = int j div c4_page_size c" by simp
  with off have "int i = int j" by (metis div_mult_mod_eq)
  then show ?thesis by simp
qed

lemma row_ok_covers:
  assumes "row_ok c (page_table ! bi) n" "bi < length page_table"
  shows "table_covers c page_table bi n"
proof (cases "0 < n")
  case True
  then have "nat (int (n - 1) div c4_page_size c) < length (page_table ! bi)" by (intro row_okD [OF assms(1)]) simp
  moreover have "0 < c4_page_size c" using assms(1) by (simp add: row_ok_def)
  ultimately show ?thesis using True assms(2) by (simp add: table_covers_def of_nat_diff nat_less_iff pos_imp_zdiv_nonneg_iff)
qed (simp add: table_covers_def assms(2))

text \<open>The effect of the scatter on the mask.\<close>

lemma scatter_keep_effect:
  assumes "row_ok c (page_table ! bi) n" "bi < length page_table" "length keep = n"
  obtains m where
    "scatter_logical_keep bi n keep page_table pc c
       = (Inr (map (side_loc c (page_table ! bi)) (filter (\<lambda>j. keep ! j \<and> (0 \<le> pc \<longrightarrow> int j < pc)) [0..<n])),
          c\<lparr>resident_chunk_mask := m\<rparr>)"
    "\<And>j. j < n \<Longrightarrow> m (side_loc c (page_table ! bi) j) = keep ! j"
    "\<And>x. x \<notin> side_loc c (page_table ! bi) ` {..<n} \<Longrightarrow> m x = resident_chunk_mask c x"
proof -
  let ?ws = "map (\<lambda>j. (side_loc c (page_table ! bi) j, keep ! j)) [0..<n]"
  let ?m = "scatter ?ws (resident_chunk_mask c)"
  have "inj_on (side_loc c (page_table ! bi)) {0..<n}" by (rule inj_onI) (auto intro: side_loc_inj [OF assms(1)])
  then have d: "distinct (map fst ?ws)" by (simp add: comp_def distinct_map)
  show thesis
  proof (rule that [of ?m])
    show "scatter_logical_keep bi n keep page_table pc c
       = (Inr (map (side_loc c (page_table ! bi)) (filter (\<lambda>j. keep ! j \<and> (0 \<le> pc \<longrightarrow> int j < pc)) [0..<n])),
          c\<lparr>resident_chunk_mask := ?m\<rparr>)"
      using row_ok_covers [OF assms(1,2)] assms(3) by (simp add: scatter_logical_keep_def Let_def)
    show "?m (side_loc c (page_table ! bi) j) = keep ! j" if "j < n" for j
      by (rule scatter_distinct [OF d]) (use that in auto)
    show "?m x = resident_chunk_mask c x" if "x \<notin> side_loc c (page_table ! bi) ` {..<n}" for x
      by (rule scatter_other) (use that in auto)
  qed
qed


text \<open>C6: The mask the graph applies is the selection the side band made: after \<open>_scatter_logical_keep\<close>
  writes a request's keep mask, \<open>apply_mask_in_graph\<close> on that request's row sets to minus infinity
  exactly the chunks outside it and leaves every other logit as it was, and a request with other
  pages is masked as before.\<close>

theorem mask_roundtrip:
  assumes "row_ok c (page_table ! bi) n" "bi < length page_table" "length keep = n"
    and "scatter_logical_keep bi n keep page_table pc c = (res, c')"
    and "0 < n" "n \<le> length row"
    and "row_ok c pt' n'" "n' \<le> length row'" "set (take (row_pages c n') pt') \<inter> set (take (row_pages c n) (page_table ! bi)) = {}"
  shows "apply_mask_row c' (page_table ! bi) (int n) row
      = Inr (map (\<lambda>j. if j < n \<and> \<not> keep ! j then NegInf else row ! j) [0..<length row])
    \<and> apply_mask_row c' pt' (int n') row' = apply_mask_row c pt' (int n') row'"
proof -
  let ?pt = "page_table ! bi"
  from scatter_keep_effect [OF assms(1-3), of pc] obtain m where
    m: "scatter_logical_keep bi n keep page_table pc c
       = (Inr (map (side_loc c ?pt) (filter (\<lambda>j. keep ! j \<and> (0 \<le> pc \<longrightarrow> int j < pc)) [0..<n])),
          c\<lparr>resident_chunk_mask := m\<rparr>)"
      "\<And>j. j < n \<Longrightarrow> m (side_loc c ?pt j) = keep ! j"
      "\<And>x. x \<notin> side_loc c ?pt ` {..<n} \<Longrightarrow> m x = resident_chunk_mask c x" by blast
  from m(1) assms(4) have c': "c' = c\<lparr>resident_chunk_mask := m\<rparr>" by simp
  have g: "graph_loc c' pt j = graph_loc c pt j" for pt j by (simp add: graph_loc_def c')
  have "?pt \<noteq> []" using row_okD(2) [OF assms(1,5)] by auto
  then have 1: "apply_mask_row c' ?pt (int n) row
      = Inr (map (\<lambda>j. if j < n \<and> \<not> keep ! j then NegInf else row ! j) [0..<length row])"
    using side_loc_eq(2) [OF assms(1)] m(2) unfolding apply_mask_row_def g by (auto simp: c')
  have "m (graph_loc c pt' j) = resident_chunk_mask c (graph_loc c pt' j)" if j: "j < n'" for j
  proof (rule m(3))
    show "graph_loc c pt' j \<notin> side_loc c ?pt ` {..<n}"
    proof
      assume "graph_loc c pt' j \<in> side_loc c ?pt ` {..<n}"
      then obtain i where i: "i < n" "side_loc c pt' j = side_loc c ?pt i" using side_loc_eq(2) [OF assms(7) j] by auto
      have ps: "0 < c4_page_size c" using assms(1) by (simp add: row_ok_def)
      from addr_split(1) [OF ps i(2) [unfolded side_loc_eq(1) [OF assms(7) j] side_loc_eq(1) [OF assms(1) i(1)]]] ps
      have "pt' ! nat (int j div c4_page_size c) = ?pt ! nat (int i div c4_page_size c)" by simp
      moreover have "pt' ! nat (int j div c4_page_size c) \<in> set (take (row_pages c n') pt')"
        using row_okD(1,2) [OF assms(7) j] by (auto simp: in_set_conv_nth intro!: exI [of _ "nat (int j div c4_page_size c)"])
      moreover have "?pt ! nat (int i div c4_page_size c) \<in> set (take (row_pages c n) ?pt)"
        using row_okD(1,2) [OF assms(1) i(1)] by (auto simp: in_set_conv_nth intro!: exI [of _ "nat (int i div c4_page_size c)"])
      ultimately show False using assms(9) by auto
    qed
  qed
  then have "apply_mask_row c' pt' (int n') row' = apply_mask_row c pt' (int n') row'"
    unfolding apply_mask_row_def g by (auto simp: c')
  with 1 show ?thesis by simp
qed

definition small_cap_env :: cap_env where
  "small_cap_env = \<lparr>env_hook = Some small_hook, env_stagger = False, env_safe_release = False, env_no_row_release = False,
     env_score_resident = True, env_cap_page_recall = True, env_kmax_ratio = 0, env_page_kmax = 2, env_target_context = 64,
     env_index_k_offload = False, env_reclaim_orphans = False, env_fused_remap = False, env_async_recall = False,
     env_resident_buf = 4\<rparr>"

text \<open>A capturer of sixteen chunks in pages of two, four rows.\<close>

definition small_cap :: capturer where
  "small_cap = init_capturer small_cap_env 16 2 False 64 4"

lemma small_cap_fields [simp]:
  "c4_page_size small_cap = 2" "c4_logical_size small_cap = 16" "resident_buf small_cap = 4" "resident_pages small_cap = 2"
  "max_bs small_cap = 4" "interval small_cap = 4" "resident_chunk_mask small_cap = (\<lambda>_. True)" "rows small_cap = None"
  "page_kmax small_cap = 2" "score_resident small_cap" "cap_page_recall small_cap" "resident_kv_scratch small_cap = None"
  "col_to_cell_buf small_cap = None" "\<not> stagger_cycle small_cap" "req_step small_cap = (\<lambda>_. None)"
  "pending_count small_cap = []" "prev_row_occupant small_cap = None" "\<not> safe_release small_cap" "\<not> no_row_release small_cap"
  "\<not> fused_remap small_cap" "valid_mask_buf small_cap = None"
  by (simp_all add: small_cap_def small_cap_env_def small_hook_def init_capturer_def resolve_page_kmax_def Let_def)

theorem mask_roundtrip_witness:
  "apply_mask_row (snd (scatter_logical_keep 0 3 [True, False, True] [[3, 1]] (- 1) small_cap)) [3, 1] 3 [Fin 0, Fin 1, Fin 2, Fin 3]
     = Inr [Fin 0, NegInf, Fin 2, Fin 3]"
proof -
  obtain res c' where r: "scatter_logical_keep 0 3 [True, False, True] [[3, 1]] (- 1) small_cap = (res, c')" by fastforce
  have ok: "row_ok small_cap ([[3, 1]] ! 0) 3" "row_ok small_cap [2] 1"
    "set (take (row_pages small_cap 1) [2 :: int]) \<inter> set (take (row_pages small_cap 3) ([[3, 1]] ! 0)) = {}"
    by (simp_all add: row_ok_def row_pages_def numeral_2_eq_2)
  from mask_roundtrip [OF ok(1) _ _ r _ _ ok(2) _ ok(3), of "[Fin 0, Fin 1, Fin 2, Fin 3]" "[Fin 0]"] r show ?thesis
    by (simp add: upt_conv_Cons)
qed


subsection \<open>The selection over masked logits\<close>

lemma topk_raw_long:
  assumes tk: "topk_ok tk" and n: "TOPK < n" "n \<le> length m"
    and many: "TOPK \<le> card {j. j < n \<and> m ! j \<noteq> NegInf}"
  obtains rs where "topk_raw tk m (int n) = map (\<lambda>r. (int r, True)) rs" "length rs = TOPK" "distinct rs"
    "\<And>r. r \<in> set rs \<Longrightarrow> r < n \<and> m ! r \<noteq> NegInf"
proof -
  let ?x = "map (\<lambda>j. if int j < int n then m ! j else NegInf) [0..<length m]"
  have len: "TOPK \<le> length ?x" "min TOPK (length m) = TOPK" using n by simp_all
  have F: "{j. j < length ?x \<and> ?x ! j \<noteq> NegInf} = {j. j < n \<and> m ! j \<noteq> NegInf}"
    using n(2) by (auto split: if_splits)
  let ?rs = "tk ?x TOPK"
  have good: "r < n \<and> m ! r \<noteq> NegInf" if "r \<in> set ?rs" for r
    using topk_unmasked [OF tk len(1) _ that] many topkD(3) [OF tk len(1) that] unfolding F by (auto split: if_splits)
  have "topk_raw tk m (int n) = map (\<lambda>r. (int r, True)) ?rs"
  proof (rule nth_equalityI)
    fix k assume "k < length (topk_raw tk m (int n))"
    then have k: "k < TOPK" using n by (simp add: topk_raw_def Let_def)
    then have "?rs ! k \<in> set ?rs" using topkD(1) [OF tk len(1)] by simp
    from good [OF this] k n topkD(1) [OF tk len(1)] show "topk_raw tk m (int n) ! k = map (\<lambda>r. (int r, True)) ?rs ! k"
      unfolding topk_raw_def Let_def len(2) by (simp add: nth_append)
  qed (use n topkD(1) [OF tk len(1)] in \<open>simp add: topk_raw_def Let_def\<close>)
  with that good topkD(1,2) [OF tk len(1)] show thesis by blast
qed

text \<open>The page lookup of a column inside the request is its pool location.\<close>

lemma page_lookup_loc:
  assumes "row_ok c pt n" "r < n" "c4_page_size c = 2 ^ b"
  shows "or (push_bit b (pt ! nat (max 0 (drop_bit b (int r))))) (and (int r) (2 ^ b - 1)) = side_loc c pt r"
    and "nat (max 0 (drop_bit b (int r))) < length pt"
proof -
  have d: "nat (max 0 (drop_bit b (int r))) = nat (int r div 2 ^ b)" unfolding page_lookup_bits(1) by simp
  show "nat (max 0 (drop_bit b (int r))) < length pt"
    and "or (push_bit b (pt ! nat (max 0 (drop_bit b (int r))))) (and (int r) (2 ^ b - 1)) = side_loc c pt r"
    unfolding d page_lookup_bits(2) using row_okD(2) [OF assms(1,2)] side_loc_eq(1) [OF assms(1,2)] assms(3) by simp_all
qed

text \<open>C17: The selection is confined to the resident set in the torch implementation of the top-512,
  \<open>topk_transform_512_pytorch_vectorized\<close>, which the indexer uses when \<open>SGLANG_TOPK_TRANSFORM_512_TORCH\<close>
  is set (by default it calls a CUDA kernel instead, which is not modelled): for a request of more than
  512 chunks with at least 512 of them resident, the 512 locations it selects from the masked logits
  are pool locations of the request's own chunks, and all of them are resident.\<close>

theorem topk_confined:
  assumes "topk_ok tk" "c4_page_size c = 2 ^ b" "row_ok c pt n" "512 < n" "n \<le> length row"
    and "apply_mask_row c pt (int n) row = Inr m" "512 \<le> card {j. j < n \<and> m ! j \<noteq> NegInf}"
  shows "\<exists>locs raw. topk_transform_row tk m (int n) pt (c4_page_size c) = Inr (locs, raw)
    \<and> length locs = 512 \<and> distinct raw
    \<and> (\<forall>k < 512. 0 \<le> raw ! k \<and> raw ! k < int n \<and> locs ! k = side_loc c pt (nat (raw ! k)) \<and> resident_chunk_mask c (locs ! k))"
proof -
  have ml: "length m = length row" using assms(6) by (auto simp: apply_mask_row_def split: if_splits)
  from topk_raw_long [OF assms(1), of n m] assms(4,5,7) ml obtain rs where
    rs: "topk_raw tk m (int n) = map (\<lambda>r. (int r, True)) rs" "length rs = 512" "distinct rs"
      "\<And>r. r \<in> set rs \<Longrightarrow> r < n \<and> m ! r \<noteq> NegInf" by (auto simp: TOPK_def)
  have bits: "page_bits (c4_page_size c) = b" using assms(2) page_bits_power by simp
  have lk: "or (push_bit b (pt ! nat (max 0 (drop_bit b (int r))))) (and (int r) (c4_page_size c - 1)) = side_loc c pt r"
    "nat (max 0 (drop_bit b (int r))) < length pt" if "r \<in> set rs" for r
    using page_lookup_loc [OF assms(3) _ assms(2)] rs(4) [OF that] assms(2) by simp_all
  have "m \<noteq> []" using assms(4,5) ml by auto
  then have t: "topk_transform_row tk m (int n) pt (c4_page_size c) = Inr (map (side_loc c pt) rs, map int rs)"
    unfolding topk_transform_row_def Let_def bits rs(1) using lk by (auto simp: list_ex_iff comp_def not_le)
  have res: "resident_chunk_mask c (side_loc c pt r)" if "r \<in> set rs" for r
  proof -
    have r: "r < n" "m ! r \<noteq> NegInf" "r < length row" using rs(4) [OF that] assms(5) by auto
    then have "resident_chunk_mask c (graph_loc c pt r)" using assms(6) by (auto simp: apply_mask_row_def split: if_splits)
    then show ?thesis using side_loc_eq(2) [OF assms(3) r(1)] by simp
  qed
  have "\<forall>k < 512. rs ! k \<in> set rs" using rs(2) by simp
  then show ?thesis using t rs res by (auto simp: distinct_map)
qed

text \<open>A capturer of nine pages of 64 chunks.\<close>

definition large_cap :: capturer where
  "large_cap = init_capturer small_cap_env 576 64 False 64 4"

lemma large_cap_fields [simp]:
  "c4_page_size large_cap = 64" "c4_logical_size large_cap = 576" "resident_chunk_mask large_cap = (\<lambda>_. True)"
  by (simp_all add: large_cap_def init_capturer_def Let_def)

lemma large_cap_row:
  assumes "n \<le> 576"
  shows "row_ok large_cap (int_range 0 9) n"
proof -
  have "(int n + 64 - 1) div 64 \<le> (576 + 64 - 1) div 64" using assms by (intro zdiv_mono1) simp_all
  then have "row_pages large_cap n \<le> 9"
    by (simp add: row_pages_def)
  moreover have "0 \<le> p \<and> (p + 1) * 64 \<le> 576" if "p \<in> set (take k (int_range 0 9))" for k p
    using in_set_takeD [OF that] by simp
  ultimately show ?thesis by (auto simp: row_ok_def list_all_iff)
qed

lemma large_cap_mask: "pt \<noteq> [] \<Longrightarrow> apply_mask_row large_cap pt n row = Inr row"
  by (simp add: apply_mask_row_def map_nth)

theorem topk_confined_witness:
  "\<exists>locs raw. topk_transform_row topk_sort (replicate 513 (Fin 0)) 513 (int_range 0 9) 64 = Inr (locs, raw) \<and> length locs = 512"
proof -
  have ps: "c4_page_size large_cap = 2 ^ 6" by simp
  have "{j. j < 513 \<and> replicate 513 (Fin 0) ! j \<noteq> NegInf} = {..<513}" by auto
  then have "512 \<le> card {j. j < 513 \<and> replicate 513 (Fin 0) ! j \<noteq> NegInf}" by simp
  moreover have "apply_mask_row large_cap (int_range 0 9) (int 513) (replicate 513 (Fin 0)) = Inr (replicate 513 (Fin 0))"
    by (rule large_cap_mask) (simp add: int_range_def)
  ultimately show ?thesis
    using topk_confined [OF topk_sort_ok ps large_cap_row, of 513 "replicate 513 (Fin 0)" "replicate 513 (Fin 0)"] ps by auto
qed

text \<open>For a request of at most 512 chunks the reference selection ignores the mask: it returns every
  chunk of the request in order, whatever their logits, so also the chunks that are not resident.\<close>

theorem topk_short_ignores_mask:
  assumes "c4_page_size c = 2 ^ b" "row_ok c pt n" "0 < n" "n \<le> 512" "m \<noteq> []"
  shows "\<exists>locs raw. topk_transform_row tk m (int n) pt (c4_page_size c) = Inr (locs, raw)
    \<and> (\<forall>j < n. raw ! j = int j \<and> locs ! j = side_loc c pt j)"
proof -
  let ?rs = "map (\<lambda>k. if int k < int n then (int k, True) else (- 1, False)) [0..<512]"
  have raw: "topk_raw tk m (int n) = ?rs" using assms(4) by (simp add: topk_raw_def TOPK_def Let_def)
  have bits: "page_bits (c4_page_size c) = b" using assms(1) page_bits_power by simp
  have lk: "or (push_bit b (pt ! nat (max 0 (drop_bit b (int r))))) (and (int r) (c4_page_size c - 1)) = side_loc c pt r"
    "nat (max 0 (drop_bit b (int r))) < length pt" if "r < n" for r
    using page_lookup_loc [OF assms(2) that assms(1)] assms(1) by simp_all
  have "pt \<noteq> []" using lk(2) [OF assms(3)] by auto
  moreover have "drop_bit b (- 1 :: int) = - 1" by simp
  moreover have "nat (drop_bit b (int r)) < length pt" if "r < n" for r using lk(2) [OF that] by simp
  ultimately have no: "\<not> list_ex (\<lambda>(r, _). length pt \<le> nat (max 0 (drop_bit b r))) ?rs"
    by (force simp: list_ex_iff split: if_splits)
  show ?thesis
    unfolding topk_transform_row_def Let_def bits raw using no assms(4,5) lk(1) by auto
qed

theorem topk_short_ignores_mask_witness:
  "\<exists>locs raw. topk_transform_row topk_sort [NegInf, Fin 0] 2 (int_range 0 9) 64 = Inr (locs, raw)
     \<and> (\<forall>j < 2. raw ! j = int j \<and> locs ! j = side_loc large_cap (int_range 0 9) j)"
proof -
  have ps: "c4_page_size large_cap = 2 ^ 6" by simp
  from topk_short_ignores_mask [OF ps large_cap_row, of 2 "[NegInf, Fin 0]" topk_sort] ps show ?thesis by simp
qed

text \<open>The reference selection can return columns past the end of the request: whether a selected column
  is valid is decided on the scores before the padding is masked, so when fewer than 512 chunks are
  resident and the library picks a padding column to fill the selection, the location of that column,
  which is no chunk of the request, is returned as selected.\<close>

theorem topk_padding_selected:
  assumes tk: "topk_ok tk" and "c4_page_size c = 2 ^ b" "row_ok c pt (length m)" "512 < n" "n \<le> j" "j < length m" "m ! j \<noteq> NegInf"
    and j: "j \<in> set (tk (map (\<lambda>i. if i < n then m ! i else NegInf) [0..<length m]) 512)"
  shows "\<exists>locs raw. topk_transform_row tk m (int n) pt (c4_page_size c) = Inr (locs, raw)
    \<and> int j \<in> set raw \<and> side_loc c pt j \<in> set locs"
proof -
  let ?x = "map (\<lambda>i. if i < n then m ! i else NegInf) [0..<length m]"
  let ?rs = "tk ?x 512"
  have len: "512 \<le> length ?x" using assms(4-6) by simp
  have rs: "length ?rs = 512" "\<And>r. r \<in> set ?rs \<Longrightarrow> r < length m" using topkD(1,3) [OF tk len] by simp_all
  have raw: "topk_raw tk m (int n) = map (\<lambda>r. (int r, m ! r \<noteq> NegInf)) ?rs"
    by (rule nth_equalityI) (use assms(4-6) rs(1) in \<open>simp_all add: topk_raw_def TOPK_def Let_def min_def nth_append\<close>)
  have bits: "page_bits (c4_page_size c) = b" using assms(2) page_bits_power by simp
  have lk: "or (push_bit b (pt ! nat (max 0 (drop_bit b (int r))))) (and (int r) (c4_page_size c - 1)) = side_loc c pt r"
    "nat (max 0 (drop_bit b (int r))) < length pt" if "r \<in> set ?rs" for r
    using page_lookup_loc [OF assms(3) rs(2) [OF that] assms(2)] assms(2) by simp_all
  have no: "\<not> list_ex (\<lambda>(r, _). length pt \<le> nat (max 0 (drop_bit b r))) (map (\<lambda>r. (int r, m ! r \<noteq> NegInf)) ?rs)"
    using lk(2) by (fastforce simp: list_ex_iff not_le)
  show ?thesis
    unfolding topk_transform_row_def Let_def bits raw using no assms(6,7) j lk(1) [OF j]
    by (auto simp: image_iff intro!: bexI [of _ j])
qed

theorem topk_padding_selected_witness:
  "\<exists>locs raw. topk_transform_row topk_sort (replicate 513 NegInf @ [Fin 0]) 513 (int_range 0 9) 64 = Inr (locs, raw)
     \<and> 513 \<in> set raw"
proof -
  let ?m = "replicate 513 NegInf @ [Fin 0]"
  let ?x = "map (\<lambda>i. if i < 513 then ?m ! i else NegInf) [0..<length ?m]"
  have ps: "c4_page_size large_cap = 2 ^ 6" by simp
  have x: "?x = replicate 514 NegInf" by (rule nth_equalityI) (simp_all add: nth_append)
  have "sorted (map (\<lambda>i. replicate 514 NegInf ! i) [0..<514])" by (simp add: sorted_iff_nth_mono)
  then have "sort_key (\<lambda>i. replicate 514 NegInf ! i) [0..<514] = [0..<514]" by (rule sort_key_id_if_sorted)
  then have "topk_sort ?x 512 = rev (drop 2 [0..<514])" unfolding x topk_sort_def by (simp add: take_rev)
  then have j: "513 \<in> set (topk_sort ?x 512)" by simp
  from topk_padding_selected [OF topk_sort_ok ps large_cap_row _ _ _ _ j] show ?thesis by (auto simp: nth_append)
qed


subsection \<open>Fused remap\<close>

lemma remap_fst: "fst (remap_compressed_locs e l sel) = map (remap_loc e l) sel"
  by (simp add: remap_compressed_locs_def Let_def)

text \<open>C30: The fused remap is the two remaps it replaces: on a table that maps every layer alike, the
  column-to-cell table that \<open>_refresh_col_to_cell\<close> builds turns the columns of the native selection
  into the cells that gathering the pool locations and remapping them gives.\<close>

theorem fused_remap_equals_remap:
  assumes "rows c = Some b" "col_to_cell_buf c \<noteq> None" "refresh_col_to_cell e c = (Inr (), c')"
    and "fused_remap c" "score_resident c" "resident_kv_scratch c \<noteq> None" "chunk_cell_lut e l = chunk_cell_lut e 0"
    and "resident_pool_loc_buf b bi \<noteq> []"
  shows "\<exists>cells. rs_select_row tk True c' b bi logits raw = Inr cells
    \<and> backend_cells c' e l cells = fst (remap_compressed_locs e l (rs_native_row (resident_pool_loc_buf b bi) raw))"
proof -
  let ?pool = "resident_pool_loc_buf b bi"
  have c': "c' = c\<lparr>col_to_cell_buf := Some (\<lambda>r. map (col_cell e) (resident_pool_loc_buf b r))\<rparr>"
    using assms(1-3) by (auto simp: refresh_col_to_cell_def)
  have cell: "remap_loc e l x = col_cell e x" for x
    using assms(7) by (simp add: remap_loc_def col_cell_def clamp_col_def Let_def)
  have ix: "nat (clamp 0 (int (length ?pool) - 1) r) < length ?pool" for r
    using clamp_bounds [of 0 "int (length ?pool) - 1" r] assms(8) by (cases ?pool) auto
  have "rs_native_row (map (col_cell e) ?pool) raw = map (remap_loc e l) (rs_native_row ?pool raw)"
    using ix by (auto simp: rs_native_row_def cell [symmetric]) (simp add: remap_loc_def)
  with assms show ?thesis by (simp add: rs_select_row_def backend_cells_def c' remap_fst)
qed

text \<open>A chunk-mode capturer whose first row holds the locations 4 and 5.\<close>

definition fused_cap :: capturer where
  "fused_cap = (ensure_resident_scratch (small_cap\<lparr>cap_page_recall := False, fused_remap := True\<rparr>))
     \<lparr>rows := Some \<lparr>resident_count_buf = (\<lambda>_. 2), resident_pool_loc_buf = (\<lambda>_. [4, 5, - 1, - 1]),
                   resident_id_page_table = (\<lambda>_. [0, 1])\<rparr>\<rparr>"

theorem fused_remap_equals_remap_witness:
  "\<exists>c' cells. refresh_col_to_cell (small_engine False) fused_cap = (Inr (), c')
     \<and> rs_select_row topk_sort True c' (the (rows fused_cap)) 0 [] [1, 0] = Inr cells
     \<and> backend_cells c' (small_engine False) 1 cells = fst (remap_compressed_locs (small_engine False) 1 [5, 4])"
proof -
  have f: "rows fused_cap = Some (the (rows fused_cap))" "col_to_cell_buf fused_cap \<noteq> None" "fused_remap fused_cap"
    "score_resident fused_cap" "resident_kv_scratch fused_cap \<noteq> None"
    by (simp_all add: fused_cap_def ensure_resident_scratch_def split: option.split)
  have p: "resident_pool_loc_buf (the (rows fused_cap)) 0 = [4, 5, - 1, - 1]" by (simp add: fused_cap_def)
  obtain c' where c': "refresh_col_to_cell (small_engine False) fused_cap = (Inr (), c')"
    by (simp add: refresh_col_to_cell_def fused_cap_def ensure_resident_scratch_def)
  have "rs_native_row [4, 5, - 1, - 1] [1, 0] = [5, 4]" by (simp add: rs_native_row_def)
  with fused_remap_equals_remap [OF f(1,2) c' f(3,4,5), of 1 0 topk_sort "[]" "[1, 0]"] p c' show ?thesis by auto
qed

text \<open>With \<open>SGLANG_PATHP_FUSED_REMAP\<close> on and the native selection off, the attention receives pool
  locations where it expects reserve cells: the selection writes locations of the row's pool buffer,
  and the backend takes them for cells and does not remap them.\<close>

theorem fused_custom_not_remapped:
  assumes "topk_ok tk" "fused_remap c" "score_resident c" "resident_kv_scratch c \<noteq> None" "col_to_cell_buf c \<noteq> None"
    and "length (resident_pool_loc_buf b bi) = length logits"
  shows "\<exists>sel. rs_select_row tk False c b bi logits raw = Inr sel \<and> backend_cells c e l sel = sel
    \<and> set sel \<subseteq> insert (- 1) (set (resident_pool_loc_buf b bi))"
proof -
  let ?counted = "map (\<lambda>j. int j < resident_count_buf b bi) [0..<length logits]"
  let ?valid = "case valid_mask_buf c of Some v \<Rightarrow> if length (v bi) = length logits then v bi else ?counted | None \<Rightarrow> ?counted"
  let ?sel = "rs_custom_topk_row tk logits ?valid (resident_pool_loc_buf b bi)"
  let ?x = "map (\<lambda>j. if ?valid ! j then logits ! j else NEG_LOGIT) [0..<length logits]"
  have "j < length logits" if "j \<in> set (tk ?x (min TOPK (length logits)))" for j
    using topkD(3) [OF assms(1) _ that] by simp
  then have "set ?sel \<subseteq> insert (- 1) (set (resident_pool_loc_buf b bi))"
    using assms(6) by (auto simp: rs_custom_topk_row_def Let_def split: if_splits)
  then show ?thesis using assms by (simp add: rs_select_row_def backend_cells_def Let_def)
qed

theorem fused_custom_not_remapped_witness:
  "\<exists>sel. rs_select_row topk_sort False fused_cap (the (rows fused_cap)) 0 [1, 2, 0, 0] [] = Inr sel
     \<and> backend_cells fused_cap (small_engine False) 1 sel = sel"
proof -
  have f: "fused_remap fused_cap" "score_resident fused_cap" "resident_kv_scratch fused_cap \<noteq> None" "col_to_cell_buf fused_cap \<noteq> None"
    "length (resident_pool_loc_buf (the (rows fused_cap)) 0) = length [1, 2, 0, 0 :: real]"
    by (simp_all add: fused_cap_def ensure_resident_scratch_def split: option.split)
  from fused_custom_not_remapped [OF topk_sort_ok f, of "[]" "small_engine False" 1] show ?thesis by blast
qed

end
