(* ===== verification/SystemRun.thy ===== *)
theory SystemRun
  imports MaskProps
begin

section \<open>The capturer and the swap engine together\<close>

text \<open>
  Every operation of the capturer acts on the swap engine through the engine's interface, so what a
  system of capturer and engine does to the engine is a run of the engine. \<open>sys_step\<close> is one event
  of the server in decode: a hook before or after a forward, the background thread reaching its end,
  a request boundary, or a call that the captured graph or the scheduler makes on the engine
  directly. The read guarantee of the engine then holds for the system.
\<close>

text \<open>The engines before and after an operation are related by a run.\<close>

definition eng_run :: "sys \<Rightarrow> sys \<Rightarrow> bool" where
  "eng_run s s' \<longleftrightarrow> (case eng s of None \<Rightarrow> eng s' = None | Some e \<Rightarrow> (\<exists>e'. eng s' = Some e' \<and> engine_run e e'))"

lemma engine_run_trans: "engine_run a b \<Longrightarrow> engine_run b d \<Longrightarrow> engine_run a d"
  by (rotate_tac, induction rule: engine_run.induct) (auto intro: run_step)

lemma engine_run_one: "engine_step a b \<Longrightarrow> engine_run a b"
  by (rule run_step [OF run_refl])

lemma eng_run_refl [simp, intro]: "eng_run s s"
  by (simp add: eng_run_def run_refl split: option.split)

lemma eng_run_trans: "eng_run s t \<Longrightarrow> eng_run t u \<Longrightarrow> eng_run s u"
  by (auto simp: eng_run_def intro: engine_run_trans split: option.splits)

lemma eng_run_same: "eng s' = eng s \<Longrightarrow> eng_run s s'"
  by (simp add: eng_run_def run_refl split: option.split)

lemma eng_run_cap [simp, intro]: "eng_run s (on_cap f s)" "eng_run s (s\<lparr>cap := c\<rparr>)" "eng_run s (s\<lparr>recall_job := j\<rparr>)"
  by (simp_all add: eng_run_same on_cap_def)

lemma eng_run_engine: "(\<And>e. engine_run e (f e)) \<Longrightarrow> eng_run s (on_engine f s)"
  by (simp add: eng_run_def on_engine_def split: option.split)

lemma eng_run_lift_cap: "eng_run s (snd (lift_cap f s))"
  by (simp add: lift_cap_def eng_run_same split: prod.split)

lemma eng_run_lift_eng: "(\<And>e. engine_run e (snd (f e))) \<Longrightarrow> eng_run s (snd (lift_eng f d s))"
  by (auto simp: lift_eng_def eng_run_def split: option.splits prod.splits) (metis snd_conv)

lemma eng_run_obind:
  assumes "eng_run s (snd r)" "\<And>v t. r = (Inr v, t) \<Longrightarrow> eng_run t (snd (f v t))"
  shows "eng_run s (snd (obind r f))"
proof (cases r)
  case (Pair x t)
  show ?thesis
  proof (cases x)
    case (Inr v)
    with Pair assms eng_run_trans [of s t] show ?thesis by (simp add: obind_def)
  qed (use Pair assms(1) in \<open>simp add: obind_def\<close>)
qed

subsection \<open>The operations as runs of the engine\<close>

lemma sideband_req_run: "eng_run s (snd (sideband_req fn h jb bi s))"
proof -
  have "engine_run e (if owner_release e then record_owned_pages ri sel e else e)" for ri sel e
    by (simp add: run_refl engine_run_one step_record)
  then have rec: "eng_run t (on_engine (\<lambda>e. if owner_release e then record_owned_pages ri sel e else e) t)" for ri sel t
    by (rule eng_run_engine)
  show ?thesis
    unfolding sideband_req_def Let_def
    by (auto intro!: eng_run_obind eng_run_lift_cap rec split: sum.split)
qed

lemma sideband_reqs_run: "eng_run s (snd (sideband_reqs fn h jb bis s))"
  by (induction bis arbitrary: s) (auto intro!: eng_run_obind sideband_req_run)

lemma publish_run: "eng_run s (snd (publish s))"
  unfolding publish_def by (auto intro!: eng_run_obind eng_run_lift_cap split: option.split)

lemma sideband_work_run: "eng_run s (snd (sideband_work fn h jb s))"
proof -
  have stats: "eng_run s (on_engine (\<lambda>e. snd (get_and_reset_remap_miss e)) s)"
    by (rule eng_run_engine) (rule engine_run_one [OF step_stats])
  have recall: "eng_run t (snd (lift_eng (recall_resident_global ls) 0 t))" for t ls
    by (rule eng_run_lift_eng) (rule engine_run_one [OF step_recall])
  have reclaim: "eng_run t (on_engine (\<lambda>e. snd (reclaim_orphans_global m n e)) t)" for t m n
    by (rule eng_run_engine) (rule engine_run_one [OF step_reclaim])
  have rest: "eng_run t (snd (let s3 = (if cap_index_k_offload (cap t) \<and> cap_page_recall (cap t)
                 then (case eng t of None \<Rightarrow> t | Some e \<Rightarrow> on_cap (remap_index_page_table e (j_due jb)) t) else t);
           s4 = (if reclaim_orphans (cap s3)
                 then on_engine (\<lambda>e. snd (reclaim_orphans_global (resident_chunk_mask (cap s3)) (c4_logical_size (cap s3) + 1) e)) s3
                 else s3)
       in publish s4))" for t
  proof -
    let ?s3 = "if cap_index_k_offload (cap t) \<and> cap_page_recall (cap t)
                 then (case eng t of None \<Rightarrow> t | Some e \<Rightarrow> on_cap (remap_index_page_table e (j_due jb)) t) else t"
    have 3: "eng_run t ?s3" by (auto split: option.split)
    let ?s4 = "if reclaim_orphans (cap ?s3)
                 then on_engine (\<lambda>e. snd (reclaim_orphans_global (resident_chunk_mask (cap ?s3)) (c4_logical_size (cap ?s3) + 1) e)) ?s3
                 else ?s3"
    have 4: "eng_run ?s3 ?s4" by (cases "reclaim_orphans (cap ?s3)") (simp_all only: if_True if_False reclaim eng_run_refl)
    from eng_run_trans [OF 3 eng_run_trans [OF 4 publish_run]] show ?thesis unfolding Let_def .
  qed
  show ?thesis
    unfolding sideband_work_def
  proof (intro eng_run_obind rest)
    show "eng_run s (snd (sideband_reqs fn h jb (j_due jb) (on_engine (\<lambda>e. snd (get_and_reset_remap_miss e)) s)))"
      by (rule eng_run_trans [OF stats sideband_reqs_run])
    show "eng_run t (snd (if concat v = [] then (Inr 0, t) else lift_eng (recall_resident_global (concat v)) 0 t))" for v t
      by (simp add: recall del: concat_eq_Nil_conv)
  qed
qed

lemma join_recall_run: "eng_run s (join_recall fn s)"
proof (cases "recall_job s"; cases "cap_hook (cap s)")
  fix jb h assume "recall_job s = Some jb" "cap_hook (cap s) = Some h"
  moreover have "eng_run s (snd (sideband_work fn h jb (s\<lparr>recall_job := None\<rparr>)))"
    by (rule eng_run_trans [OF _ sideband_work_run]) simp
  ultimately show ?thesis using eng_run_trans [OF _ eng_run_cap(1)] by (simp add: join_recall_def)
qed (simp_all add: join_recall_def)

lemma release_rows_run: "engine_run e (release_rows c locs e)"
  by (simp add: release_rows_def run_refl engine_run_one step_release)

lemma reset_changed_rows_run: "eng_run s (reset_changed_rows req_ids B s)"
proof (cases "rows (cap s)")
  case (Some b)
  have rel: "eng_run t (on_cap f (on_engine (release_rows c locs) t))" for t f c locs
    by (rule eng_run_trans [OF eng_run_engine [OF release_rows_run] eng_run_cap(1)])
  show ?thesis
    unfolding reset_changed_rows_def Some option.case Let_def
    by (intro eng_run_trans [OF _ eng_run_cap(1)]) (simp add: rel eng_run_trans [OF rel rel] eng_run_trans [OF _ eng_run_cap(1)])
qed (simp add: reset_changed_rows_def)


lemma on_forward_begin_run: "eng_run s (on_forward_begin fn is_decode req_ids s)"
proof -
  have "engine_run e (fold (\<lambda>ri e. snd (release_owned_pages ri e)) rs e)" for rs e
    by (induction rs arbitrary: e) (auto intro: run_refl engine_run_trans [OF engine_run_one [OF step_release_owned]])
  then have "engine_run e (if owner_release e then fold (\<lambda>ri e. snd (release_owned_pages ri e)) rs e else e)" for rs e
    by (simp add: run_refl)
  then have own: "eng_run t (on_engine (\<lambda>e. if owner_release e then fold (\<lambda>ri e. snd (release_owned_pages ri e)) rs e else e) t)" for rs t
    by (rule eng_run_engine)
  have "eng_run s (reset_changed_rows req_ids n
      (on_engine (\<lambda>e. if owner_release e then fold (\<lambda>ri e. snd (release_owned_pages ri e)) rs e else e) (on_cap f (join_recall fn s))))"
    for n rs f
    by (rule eng_run_trans [OF eng_run_trans [OF eng_run_trans [OF join_recall_run eng_run_cap(1)] own] reset_changed_rows_run])
  then show ?thesis unfolding on_forward_begin_def Let_def by simp
qed

lemma on_forward_end_run: "eng_run s (snd (on_forward_end fn score is_decode ids s))"
proof (cases "cap_hook (cap s)"; cases "page_table_buf (cap s)")
  fix h pt assume hp: "cap_hook (cap s) = Some h" "page_table_buf (cap s) = Some pt"
  have async: "eng_run s ((join_recall fn (s\<lparr>cap := c\<rparr>))\<lparr>recall_job := j\<rparr>)" for c j
    by (rule eng_run_trans [OF eng_run_trans [OF eng_run_cap(2) join_recall_run] eng_run_cap(3)])
  have sync: "eng_run s (snd (obind (sideband_work fn h jb (s\<lparr>cap := c\<rparr>)) (\<lambda>_ s2. (Inr (), on_cap f s2))))" for jb c f
    by (rule eng_run_obind [OF eng_run_trans [OF eng_run_cap(2) sideband_work_run]]) simp
  show ?thesis
    unfolding on_forward_end_def hp option.case prod.case Let_def using async sync by (auto split: prod.split)
qed (simp_all add: on_forward_end_def)

lemma reset_req_run: "eng_run s (snd (reset_req page_table r s))"
proof -
  have "engine_run e (register_decode_req ri n k (snd (release_req_pool_locs locs (snd (discard_copied_pages ps e)))))" for e ri n k locs ps
    by (rule engine_run_trans [OF engine_run_one [OF step_discard] engine_run_trans [OF engine_run_one [OF step_release] engine_run_one [OF step_register]]])
  from eng_run_engine [OF this]
  have "eng_run s (on_engine (\<lambda>e. register_decode_req ri n k (snd (release_req_pool_locs locs (snd (discard_copied_pages ps e))))) (s\<lparr>cap := c\<rparr>))"
    for ri n k locs ps c by (rule eng_run_trans [OF eng_run_cap(2)])
  then show ?thesis unfolding reset_req_def Let_def by (simp split: prod.split)
qed

lemma reset_reqs_run: "eng_run s (snd (reset_reqs page_table rs s))"
  by (induction rs arbitrary: s) (auto intro!: eng_run_obind reset_req_run)

lemma reset_req_residency_run: "eng_run s (snd (reset_req_residency ids page_table seql s))"
  unfolding reset_req_residency_def by (rule eng_run_trans [OF eng_run_cap(1) reset_reqs_run])

subsection \<open>Runs of the system\<close>

inductive sys_step :: "fns \<Rightarrow> sys \<Rightarrow> sys \<Rightarrow> bool" for fn where
  sys_begin: "sys_step fn s (on_forward_begin fn is_decode req_ids s)"
| sys_graph: "eng s = Some e \<Longrightarrow> engine_step e e' \<Longrightarrow> sys_step fn s (s\<lparr>eng := Some e'\<rparr>)"
| sys_capture: "sys_step fn s (on_cap (capture_side_band_inputs clid batch page_table seql) s)"
| sys_end: "sys_step fn s (snd (on_forward_end fn score is_decode req_ids s))"
| sys_thread: "sys_step fn s (join_recall fn s)"
| sys_boundary: "sys_step fn s (snd (reset_req_residency req_ids page_table seql s))"
| sys_scatter: "sys_step fn s (on_cap (scatter_resident locs keep) s)"
| sys_all: "sys_step fn s (on_cap reset_all_resident s)"
| sys_prebuild: "sys_step fn s (on_cap (prebuild_for_capture b) s)"

inductive sys_run :: "fns \<Rightarrow> sys \<Rightarrow> sys \<Rightarrow> bool" for fn where
  sys_refl: "sys_run fn s s"
| sys_next: "sys_run fn s t \<Longrightarrow> sys_step fn t u \<Longrightarrow> sys_run fn s u"

lemma sys_step_run: "sys_step fn s t \<Longrightarrow> eng_run s t"
proof (induction rule: sys_step.induct)
  case (sys_graph s e e')
  then show ?case by (simp add: eng_run_def engine_run_one)
qed (simp_all add: on_forward_begin_run on_forward_end_run join_recall_run reset_req_residency_run)

lemma sys_run_run: "sys_run fn s t \<Longrightarrow> eng_run s t"
  by (induction rule: sys_run.induct) (auto intro: eng_run_trans sys_step_run)

text \<open>C1: The read guarantee of the swap engine is a guarantee of the whole server in both global
  modes: from the constructors' engine and any capturer, after any interleaving of the hooks around
  forwards, background side-band runs, request boundaries and direct calls of the graph and the
  scheduler on the engine, whatever the network scores, a history chunk that is remapped to a recall
  cell is read with exactly the mirror's bytes, in every layer. In the chunk mode the direct calls
  include \<open>recall_chunks\<close>, the recall of an extend forward's attention. In the page mode they do
  not, so there the forwards are decode forwards: the guarantee does not survive the recall of an
  extend forward (\<open>prefill_recall_collides\<close>). Direct prefill stores name chunks of the logical pool,
  and the debugging switch \<open>SGLANG_SWAP_P_POISON\<close> is off unless the engine has its own reserve.\<close>

theorem system_reads:
  assumes "env_page_recall env \<or> env_cudagraph env" "cfg_ok (init_engine env pool pool_rows n layers nope rope res)"
    and "sys_run fn \<lparr>cap = c, eng = Some (init_engine env pool pool_rows n layers nope rope res), recall_job = None\<rparr> s"
    and "0 \<le> x" "x < n * 64"
  shows "\<exists>e. eng s = Some e \<and> (0 \<le> remap_loc e l x \<and> remap_loc e l x < decode_base e \<longrightarrow>
    chunk_bytes (row_bytes e) (reserve_buf e l) (remap_loc e l x) = chunk_bytes (row_bytes e) (host_mirror e l) x)"
proof -
  from sys_run_run [OF assms(3)] obtain e where
    e: "eng s = Some e" "engine_run (init_engine env pool pool_rows n layers nope rope res) e" by (auto simp: eng_run_def)
  with run_reads(2) [OF refl assms(1,2) e(2) assms(4,5)] show ?thesis by blast
qed

definition small_fns :: fns where
  "small_fns = \<lparr>f_topk = topk_sort, f_page_topk = topk_sort, f_sigmoid = (\<lambda>x. x), f_index_k = (\<lambda>_ _. 0), f_row_width = 132\<rparr>"

definition small_sys :: sys where
  "small_sys = \<lparr>cap = small_cap, eng = Some (small_engine True), recall_job = None\<rparr>"

theorem system_reads_witness:
  "\<exists>e. eng (on_forward_begin small_fns True [1] (small_sys\<lparr>eng := Some (small_recalled True)\<rparr>)) = Some e
     \<and> (0 \<le> remap_loc e 0 5 \<and> remap_loc e 0 5 < decode_base e \<longrightarrow>
          chunk_bytes (row_bytes e) (reserve_buf e 0) (remap_loc e 0 5) = chunk_bytes (row_bytes e) (host_mirror e 0) 5)"
proof -
  have step: "engine_step (small_engine True) (small_recalled True)"
    unfolding small_recalled_def by (rule step_recall)
  have "sys_run small_fns small_sys (on_forward_begin small_fns True [1] (small_sys\<lparr>eng := Some (small_recalled True)\<rparr>))"
    by (rule sys_next [OF sys_next [OF sys_refl sys_graph [OF _ step]] sys_begin]) (simp add: small_sys_def)
  then have run: "sys_run small_fns \<lparr>cap = small_cap, eng = Some (small_engine True), recall_job = None\<rparr>
     (on_forward_begin small_fns True [1] (small_sys\<lparr>eng := Some (small_recalled True)\<rparr>))" by (simp add: small_sys_def)
  have "env_page_recall (small_env True) \<or> env_cudagraph (small_env True)" by (simp add: small_env_def)
  from system_reads [OF this _ run [unfolded small_engine_def], of 5 0] small_engine_fields(1) [of True]
  show ?thesis by (simp add: small_engine_def)
qed

end
