(* ===== verification/TurnoverProps.thy ===== *)
theory TurnoverProps
  imports SystemRun
begin

section \<open>Row turnover, cadence and the request boundary\<close>

text \<open>
  What the hooks before and after a forward guarantee about the rows of the decode batch: a row
  whose request changed selects nothing until its own side band has run, that run is due at once,
  and every request comes due again within one interval.
\<close>

lemma restart_fields [simp]:
  "rows (restart_row ids bi c) = rows c" "resident_buf (restart_row ids bi c) = resident_buf c"
  "max_bs (restart_row ids bi c) = max_bs c" "interval (restart_row ids bi c) = interval c"
  "valid_mask_buf (restart_row ids bi c) = valid_mask_buf c" "fused_remap (restart_row ids bi c) = fused_remap c"
  "col_to_cell_buf (restart_row ids bi c) = col_to_cell_buf c"
  by (simp_all add: restart_row_def restart_req_def Let_def)

lemma fold_restart_fields [simp]:
  "rows (fold (restart_row ids) bis c) = rows c" "resident_buf (fold (restart_row ids) bis c) = resident_buf c"
  "max_bs (fold (restart_row ids) bis c) = max_bs c" "fused_remap (fold (restart_row ids) bis c) = fused_remap c"
  "col_to_cell_buf (fold (restart_row ids) bis c) = col_to_cell_buf c"
  by (induction bis arbitrary: c) simp_all

lemma fold_restart_step:
  "req_step (fold (restart_row ids) bis c) ri = (if ri \<in> (\<lambda>bi. ids ! bi) ` set bis then Some 0 else req_step c ri)"
  by (induction bis arbitrary: c) (auto simp: restart_row_def restart_req_def Let_def)

lemma on_fields [simp]:
  "cap (on_engine f s) = cap s" "cap (on_cap g s) = g (cap s)" "eng (on_cap g s) = eng s"
  "eng (on_engine f s) = map_option f (eng s)"
  by (simp_all add: on_engine_def on_cap_def)

lemma clear_fields [simp]:
  "safe_release (clear_rows P c) = safe_release c" "req_step (clear_rows P c) = req_step c"
  "fused_remap (clear_rows P c) = fused_remap c" "max_bs (clear_rows P c) = max_bs c" "resident_buf (clear_rows P c) = resident_buf c"
  by (simp_all add: clear_rows_def split: option.split)

lemma clear_count:
  "rows c = Some b \<Longrightarrow> rows (clear_rows P c) = Some b' \<Longrightarrow>
     resident_count_buf b' r = (if P r then 0 else resident_count_buf b r)
     \<and> resident_pool_loc_buf b' r = (if P r then replicate (resident_buf c) (- 1) else resident_pool_loc_buf b r)"
  by (auto simp: clear_rows_def)

lemma valid_fields [simp]:
  "rows (refresh_valid_mask c) = rows c" "req_step (refresh_valid_mask c) = req_step c" "fused_remap (refresh_valid_mask c) = fused_remap c"
  "resident_buf (refresh_valid_mask c) = resident_buf c" "col_to_cell_buf (refresh_valid_mask c) = col_to_cell_buf c"
  by (simp_all add: refresh_valid_mask_def split: option.split)

text \<open>The capturer after a turnover with at least one changed row.\<close>

lemma turnover_cap:
  assumes "rows (cap s) = Some b" "changed_rows (cap s) ids B \<noteq> []"
  obtains b' where "rows (cap (reset_changed_rows ids B s)) = Some b'"
    "\<And>r. resident_count_buf b' r = (if B < max_bs (cap s) \<and> B \<le> r \<or> r \<in> set (changed_rows (cap s) ids B) then 0 else resident_count_buf b r)"
    "\<And>r. r \<notin> set (changed_rows (cap s) ids B) \<Longrightarrow> r < B \<Longrightarrow> resident_pool_loc_buf b' r = resident_pool_loc_buf b r"
    "\<And>r. r \<in> set (changed_rows (cap s) ids B) \<Longrightarrow> resident_pool_loc_buf b' r = replicate (resident_buf (cap s)) (- 1)"
    "valid_mask_buf (cap (reset_changed_rows ids B s))
       = Some (\<lambda>r. map (\<lambda>j. int j < resident_count_buf b' r) [0..<resident_buf (cap s)])"
    "\<And>bi. bi \<in> set (changed_rows (cap s) ids B) \<Longrightarrow> req_step (cap (reset_changed_rows ids B s)) (ids ! bi) = Some 0"
    "fused_remap (cap (reset_changed_rows ids B s)) = fused_remap (cap s)"
    "\<And>t r. col_to_cell_buf (cap s) = Some t \<Longrightarrow> r \<in> set (changed_rows (cap s) ids B) \<Longrightarrow>
       \<exists>t'. col_to_cell_buf (cap (reset_changed_rows ids B s)) = Some t' \<and> t' r = replicate (resident_buf (cap s)) (- 1)"
proof -
  let ?ch = "changed_rows (cap s) ids B"
  let ?c1 = "if B < max_bs (cap s) then clear_rows (\<lambda>r. B \<le> r) (cap s) else cap s"
  let ?c2 = "fold (restart_row ids) ?ch (clear_rows (\<lambda>r. r \<in> set ?ch) ?c1)"
  have c: "cap (reset_changed_rows ids B s) = (refresh_valid_mask ?c2)\<lparr>prev_row_occupant := Some (take B ids)\<rparr>"
    using assms by (simp add: reset_changed_rows_def Let_def)
  obtain b1 where b1: "rows ?c1 = Some b1" using assms(1) by (cases "B < max_bs (cap s)") (simp_all add: clear_rows_def)
  have 1: "resident_count_buf b1 r = (if B < max_bs (cap s) \<and> B \<le> r then 0 else resident_count_buf b r)"
    "r < B \<Longrightarrow> resident_pool_loc_buf b1 r = resident_pool_loc_buf b r" for r
    using b1 clear_count [OF assms(1)] assms(1) by (auto split: if_splits)
  obtain b2 where b2: "rows (clear_rows (\<lambda>r. r \<in> set ?ch) ?c1) = Some b2" using b1 by (simp add: clear_rows_def)
  note 2 = clear_count [OF b1 b2]
  show thesis
  proof (rule that [of b2])
    have r: "rows ?c2 = Some b2" using b2 by simp
    then show "rows (cap (reset_changed_rows ids B s)) = Some b2" unfolding c by simp
    have "resident_buf ?c2 = resident_buf (cap s)" by simp
    then show "valid_mask_buf (cap (reset_changed_rows ids B s))
       = Some (\<lambda>r. map (\<lambda>j. int j < resident_count_buf b2 r) [0..<resident_buf (cap s)])"
      unfolding c refresh_valid_mask_def r by simp
    show "req_step (cap (reset_changed_rows ids B s)) (ids ! bi) = Some 0" if "bi \<in> set ?ch" for bi
      unfolding c using that by (simp add: fold_restart_step)
    show "\<exists>t'. col_to_cell_buf (cap (reset_changed_rows ids B s)) = Some t' \<and> t' r = replicate (resident_buf (cap s)) (- 1)"
      if t: "col_to_cell_buf (cap s) = Some t" and r: "r \<in> set ?ch" for t r
    proof -
      obtain t1 where "col_to_cell_buf ?c1 = Some t1" using t assms(1) by (cases "B < max_bs (cap s)") (simp_all add: clear_rows_def)
      then show ?thesis unfolding c using r b1 assms(1) by (simp add: clear_rows_def)
    qed
  qed (use 1 2 in \<open>auto simp: c\<close>)
qed

text \<open>A row with no valid column selects nothing.\<close>

lemma rs_select_empty:
  assumes "topk_ok tk" "valid_mask_buf c = Some v" "v bi = map (\<lambda>j. False) [0..<length logits]"
  shows "rs_select_row tk False c b bi logits raw = Inr (replicate 512 (- 1))"
proof -
  let ?x = "map (\<lambda>j. if v bi ! j then logits ! j else NEG_LOGIT) [0..<length logits]"
  let ?k = "min TOPK (length logits)"
  have l: "length (tk ?x ?k) = ?k" using topkD(1) [OF assms(1), of ?k ?x] by simp
  have "?x ! j = NEG_LOGIT" if "j \<in> set (tk ?x ?k)" for j
    using topkD(3) [OF assms(1) _ that] assms(3) by simp
  moreover have "\<not> NEG_HALF < NEG_LOGIT" by (simp add: NEG_HALF_def NEG_LOGIT_def)
  ultimately have "map (\<lambda>j. if NEG_HALF < ?x ! j then resident_pool_loc_buf b bi ! j else - 1) (tk ?x ?k) = replicate ?k (- 1)"
    using l by (intro nth_equalityI) auto
  moreover have "replicate ?k (- 1 :: int) @ replicate (TOPK - ?k) (- 1) = replicate 512 (- 1)"
    by (simp add: replicate_add [symmetric] TOPK_def)
  ultimately show ?thesis
    using assms(2,3) by (simp add: rs_select_row_def rs_custom_topk_row_def Let_def)
qed

lemma rs_native_empty:
  assumes "0 < n"
  shows "rs_native_row (replicate n (- 1)) raw = replicate (length raw) (- 1)"
proof -
  have "nat (clamp 0 (int n - 1) r) < n" for r using assms by (simp add: clamp_def nat_less_iff)
  then show ?thesis unfolding rs_native_row_def by (intro nth_equalityI) auto
qed


text \<open>C20: A request that enters a decode row never attends to its predecessor's chunks:
  \<open>_reset_changed_rows\<close> leaves every row whose occupant changed with an empty selection. All indices
  are minus one, so neither the predecessor's chunks nor the full history is attended: on the custom
  top-k, and on the branch that gathers the columns of a top-k kernel (\<open>SGLANG_PATHP_RS_NATIVE_TOPK\<close>),
  whatever columns the kernel returns and whether it gathers pool locations or, with the fused remap
  and its table in place, reserve cells. It makes the new occupant due at the next side band, and keeps
  the count and the locations of the rows whose occupant stayed.\<close>

theorem turnover_selects_nothing:
  assumes "topk_ok tk" "rows (cap s) = Some b" "bi \<in> set (changed_rows (cap s) ids B)"
    and "length logits = resident_buf (cap s)" "0 < resident_buf (cap s)" "fused_remap (cap s) \<longrightarrow> col_to_cell_buf (cap s) \<noteq> None"
  shows "\<exists>b'. rows (cap (reset_changed_rows ids B s)) = Some b'
    \<and> rs_select_row tk False (cap (reset_changed_rows ids B s)) b' bi logits raw = Inr (replicate 512 (- 1))
    \<and> rs_select_row tk True (cap (reset_changed_rows ids B s)) b' bi logits raw = Inr (replicate (length raw) (- 1))
    \<and> is_due (cap (reset_changed_rows ids B s)) (ids ! bi)
    \<and> (\<forall>r<B. r \<notin> set (changed_rows (cap s) ids B) \<longrightarrow>
         resident_count_buf b' r = resident_count_buf b r \<and> resident_pool_loc_buf b' r = resident_pool_loc_buf b r)"
proof -
  let ?c = "cap (reset_changed_rows ids B s)"
  have "changed_rows (cap s) ids B \<noteq> []" using assms(3) by auto
  then show ?thesis
  proof (rule turnover_cap [OF assms(2)], goal_cases)
    case (1 b')
    note b' = 1
    have "rs_select_row tk False ?c b' bi logits raw = Inr (replicate 512 (- 1))"
      by (rule rs_select_empty [OF assms(1) b'(5)]) (simp add: b'(2) assms(3,4))
    moreover have "rs_select_row tk True ?c b' bi logits raw = Inr (replicate (length raw) (- 1))"
      using b'(7) assms(6) b'(8) [OF _ assms(3)]
      by (cases "col_to_cell_buf (cap s)") (auto simp: rs_select_row_def b'(4) [OF assms(3)] rs_native_empty [OF assms(5)])
    moreover have "is_due ?c (ids ! bi)" by (simp add: is_due_def b'(6) [OF assms(3)])
    ultimately show ?thesis using b'(1,2,3) by auto
  qed
qed

text \<open>A decode batch whose only row passes from request 1 to request 2.\<close>

definition small_turnover :: sys where
  "small_turnover = small_sys\<lparr>cap := (ensure_page_recall_buffers small_cap)\<lparr>prev_row_occupant := Some [1], fused_remap := True,
     col_to_cell_buf := Some (\<lambda>r. [5, 6, 7, 8])\<rparr>\<rparr>"

theorem turnover_selects_nothing_witness:
  "\<exists>b'. rows (cap (reset_changed_rows [2] 1 small_turnover)) = Some b'
    \<and> rs_select_row topk_sort False (cap (reset_changed_rows [2] 1 small_turnover)) b' 0 [0, 0, 0, 0] []
        = Inr (replicate 512 (- 1))
    \<and> rs_select_row topk_sort True (cap (reset_changed_rows [2] 1 small_turnover)) b' 0 [0, 0, 0, 0] [3, 0]
        = Inr [- 1, - 1]
    \<and> is_due (cap (reset_changed_rows [2] 1 small_turnover)) 2"
proof -
  obtain b where b: "rows (cap small_turnover) = Some b" by (simp add: small_turnover_def ensure_page_recall_buffers_def)
  have f: "resident_buf (cap small_turnover) = 4" "fused_remap (cap small_turnover)" "col_to_cell_buf (cap small_turnover) \<noteq> None"
    by (simp_all add: small_turnover_def ensure_page_recall_buffers_def)
  have ch: "0 \<in> set (changed_rows (cap small_turnover) [2] 1)"
    by (simp add: small_turnover_def ensure_page_recall_buffers_def changed_rows_def)
  from turnover_selects_nothing [OF topk_sort_ok b ch, of "[0, 0, 0, 0]" "[]"]
    turnover_selects_nothing [OF topk_sort_ok b ch, of "[0, 0, 0, 0]" "[3, 0]"] f
  show ?thesis by (auto simp: numeral_2_eq_2)
qed


text \<open>With the safe release policy (\<open>SGLANG_PATHP_SAFE_RELEASE\<close>) the locations of a row whose
  occupant changed are never released: the set of live locations they are checked against is read
  before those rows are cleared, so it contains every one of them. A turnover in a full batch leaves
  the engine as it was, whatever the departed requests held.\<close>

theorem safe_release_keeps_rows:
  assumes "rows (cap s) = Some b" "safe_release (cap s)" "max_bs (cap s) \<le> B"
  shows "eng (reset_changed_rows ids B s) = eng s"
proof -
  let ?ch = "changed_rows (cap s) ids B"
  have "set (row_locs b ?ch) \<subseteq> set (row_locs b [0..<min B (max_bs (cap s))])"
    by (auto simp: row_locs_def changed_rows_def)
  then have "releasable (cap s) b ?ch B = []"
    using assms(2) by (auto simp: releasable_def Let_def filter_empty_conv)
  then have "release_rows (cap s) (releasable (cap s) b ?ch B) = (\<lambda>e. e)" by (simp add: release_rows_def fun_eq_iff)
  then have "map_option (release_rows (cap s) (releasable (cap s) b ?ch B)) (eng s) = eng s"
    by (simp add: option.map_ident)
  then show ?thesis using assms by (simp add: reset_changed_rows_def Let_def)
qed

theorem safe_release_keeps_rows_witness:
  "eng (reset_changed_rows [2, 3, 4, 5] 4 (on_cap (\<lambda>c. c\<lparr>safe_release := True\<rparr>) small_turnover)) = Some (small_engine True)"
proof -
  let ?s = "on_cap (\<lambda>c. c\<lparr>safe_release := True\<rparr>) small_turnover"
  obtain b where "rows (cap ?s) = Some b" by (simp add: small_turnover_def ensure_page_recall_buffers_def)
  from safe_release_keeps_rows [OF this] show ?thesis
    by (simp add: small_turnover_def ensure_page_recall_buffers_def small_sys_def)
qed


subsection \<open>Cadence\<close>

definition step_of :: "capturer \<Rightarrow> int \<Rightarrow> int" where
  "step_of c ri = (case req_step c ri of None \<Rightarrow> 0 | Some n \<Rightarrow> n)"

definition phase_of :: "capturer \<Rightarrow> int \<Rightarrow> int" where
  "phase_of c ri = (if stagger_cycle c then (case req_phase c ri of None \<Rightarrow> 0 | Some p \<Rightarrow> p) else 0)"

lemma is_due_eq: "is_due c ri \<longleftrightarrow> step_of c ri = 0 \<or> step_of c ri mod interval c = phase_of c ri mod interval c"
  by (simp add: is_due_def step_of_def phase_of_def Let_def)

lemma advance_fields [simp]:
  "step_of (advance_req ri c) r = step_of c r + (if r = ri then 1 else 0)" "phase_of (advance_req ri c) r = phase_of c r"
  "interval (advance_req ri c) = interval c"
  by (simp_all add: advance_req_def step_of_def phase_of_def)

lemma due_loop_fields:
  "distinct ris \<Longrightarrow> step_of (snd (due_loop bi ris c)) r = step_of c r + (if r \<in> set ris then 1 else 0)"
  "phase_of (snd (due_loop bi ris c)) r = phase_of c r" "interval (snd (due_loop bi ris c)) = interval c"
  by (induction ris arbitrary: bi c) (auto simp: split_beta)

lemma due_loop_lower: "x \<in> set (fst (due_loop k ris c)) \<Longrightarrow> k \<le> x"
proof (induction ris arbitrary: k c)
  case (Cons a ris)
  then consider "x = k" | "x \<in> set (fst (due_loop (Suc k) ris (advance_req a c)))"
    by (auto simp: split_beta split: if_splits)
  then show ?case using Cons.IH [of "Suc k" "advance_req a c"] by cases simp_all
qed simp

lemma due_loop_due:
  "distinct ris \<Longrightarrow> i < length ris \<Longrightarrow> bi + i \<in> set (fst (due_loop bi ris c)) \<longleftrightarrow> is_due c (ris ! i)"
proof (induction ris arbitrary: bi c i)
  case (Cons a ris)
  show ?case
  proof (cases i)
    case 0
    then show ?thesis using due_loop_lower [of bi "Suc bi" ris "advance_req a c"] by (auto simp: split_beta)
  next
    case (Suc k)
    then have "ris ! k \<noteq> a" "k < length ris" using Cons.prems by auto
    moreover from this have "is_due (advance_req a c) (ris ! k) = is_due c (ris ! k)" by (simp add: is_due_eq)
    ultimately show ?thesis using Cons.IH [of k "Suc bi" "advance_req a c"] Cons.prems Suc by (simp add: split_beta)
  qed
qed simp

subsection \<open>The request boundary\<close>

definition unmapped :: "engine \<Rightarrow> int \<Rightarrow> bool" where
  "unmapped e x \<longleftrightarrow> (\<forall>l. chunk_cell_lut e l x = - 1)"

lemma unmapped_clear: "unmapped (lut_clear_all cols e) x \<longleftrightarrow> x \<in> set cols \<or> unmapped e x"
  by (auto simp: unmapped_def lut_clear_all_def fill_def)

lemma unmapped_same: "chunk_cell_lut e' = chunk_cell_lut e \<Longrightarrow> unmapped e' x = unmapped e x"
  by (simp add: unmapped_def)

lemma unmapped_release: "unmapped e x \<Longrightarrow> unmapped (snd (release_req_pool_locs locs e)) x"
  by (simp add: release_req_pool_locs_def Let_def split_beta unmapped_clear) (simp add: unmapped_def)

lemma unmapped_register: "unmapped (register_decode_req ri n k e) x = unmapped e x"
  by (rule unmapped_same) (simp add: register_decode_req_def ensure_decode_tensors_def Let_def)

lemma unmapped_discard:
  assumes "x div 64 \<in> set pages \<or> unmapped e x" "0 \<le> x" "x < n_logical_pages e * 64"
  shows "unmapped (snd (discard_copied_pages pages e)) x"
proof (cases "x div 64 \<in> set pages")
  case True
  have "0 \<le> x div 64" "x div 64 < n_logical_pages e" using assms(2,3) by auto
  then have "x div 64 \<in> set (pages_in_range e pages)" using True by (simp add: pages_in_range_def)
  moreover have "x \<in> set (page_chunks (x div 64))" by (simp add: page_chunks_def C4_PAGE_SIZE_def) presburger
  ultimately show ?thesis using assms(3)
    by (auto simp: discard_copied_pages_def Let_def unmapped_clear lut_cols_def C4_PAGE_SIZE_def)
qed (use assms(1) in \<open>simp add: discard_copied_pages_def Let_def unmapped_clear\<close>)

text \<open>What the boundary owes a request \<open>r\<close> of the batch: its cadence restarted, its chunks unmasked and
  unmapped.\<close>

definition fresh_req :: "int list list \<Rightarrow> sys \<Rightarrow> nat \<times> int \<times> int \<Rightarrow> bool" where
  "fresh_req page_table s r = (case r of (bi, ri, n) \<Rightarrow>
     req_step (cap s) ri = Some 0
     \<and> (\<forall>j < nat n. resident_chunk_mask (cap s) (side_loc (cap s) (page_table ! bi) j)
          \<and> (\<forall>e. eng s = Some e \<longrightarrow> unmapped e (side_loc (cap s) (page_table ! bi) j))))"

definition boundary_frame :: "sys \<Rightarrow> sys \<Rightarrow> bool" where
  "boundary_frame s s' \<longleftrightarrow> c4_page_size (cap s') = c4_page_size (cap s) \<and> c4_logical_size (cap s') = c4_logical_size (cap s)
     \<and> map_option n_logical_pages (eng s') = map_option n_logical_pages (eng s)"

text \<open>The sizes the capturer and the engine are built with: 64-chunk pages, the capturer's pool
  inside the engine's table.\<close>

definition boundary_sizes :: "sys \<Rightarrow> bool" where
  "boundary_sizes s \<longleftrightarrow> c4_page_size (cap s) = 64
     \<and> (\<forall>e. eng s = Some e \<longrightarrow> c4_logical_size (cap s) \<le> n_logical_pages e * 64)"

lemma side_loc_frame: "boundary_frame s s' \<Longrightarrow> side_loc (cap s') pt j = side_loc (cap s) pt j"
  by (simp add: boundary_frame_def side_loc_def)

lemma row_ok_frame: "boundary_frame s s' \<Longrightarrow> row_ok (cap s') pt n = row_ok (cap s) pt n"
  by (simp add: boundary_frame_def row_ok_def row_pages_def)

lemma boundary_sizes_frame: "boundary_frame s s' \<Longrightarrow> boundary_sizes s \<Longrightarrow> boundary_sizes s'"
  by (cases "eng s'"; cases "eng s") (auto simp: boundary_frame_def boundary_sizes_def)

lemma restart_req_fields [simp]:
  "c4_page_size (restart_req ri c) = c4_page_size c" "c4_logical_size (restart_req ri c) = c4_logical_size c"
  "resident_chunk_mask (restart_req ri c) = resident_chunk_mask c" "req_step (restart_req ri c) = (req_step c)(ri := Some 0)"
  "rows (restart_req ri c) = rows c"
  by (simp_all add: restart_req_def Let_def)

definition boundary_engine :: "int \<Rightarrow> int \<Rightarrow> int \<Rightarrow> int list \<Rightarrow> engine \<Rightarrow> engine" where
  "boundary_engine ri n ps locs e = register_decode_req ri n 4096
     (snd (release_req_pool_locs locs (snd (discard_copied_pages (unique (map (\<lambda>loc. loc div ps) locs)) e))))"

text \<open>One request of the boundary.\<close>

lemma reset_req_effect:
  assumes "row_ok (cap s) (page_table ! bi) (nat n)" "bi < length page_table" "0 < n"
  obtains c where "reset_req page_table (bi, ri, n) s
      = (Inr (), on_engine (boundary_engine ri (int (nat n)) (c4_page_size (cap s)) (map (side_loc (cap s) (page_table ! bi)) [0..<nat n]))
                   (s\<lparr>cap := c\<rparr>))"
    "c4_page_size c = c4_page_size (cap s)" "c4_logical_size c = c4_logical_size (cap s)"
    "req_step c = (req_step (cap s))(ri := Some 0)"
    "resident_chunk_mask c = fill (map (side_loc (cap s) (page_table ! bi)) [0..<nat n]) True (resident_chunk_mask (cap s))"
proof -
  have "table_covers (cap s) page_table bi (nat n)" by (rule row_ok_covers [OF assms(1,2)])
  with assms(3) show thesis
    by (intro that [of "cap (snd (reset_req page_table (bi, ri, n) s))"]) (auto simp: reset_req_def boundary_engine_def [abs_def] Let_def split: option.split)
qed

lemma boundary_engine_unmaps:
  assumes "x \<in> set locs \<or> unmapped e x" "0 \<le> x" "x < n_logical_pages e * 64"
  shows "unmapped (boundary_engine ri n 64 locs e) x"
  unfolding boundary_engine_def unmapped_register
  by (rule unmapped_release, rule unmapped_discard [OF _ assms(2,3)]) (use assms(1) in auto)

lemma boundary_engine_sizes: "n_logical_pages (boundary_engine ri n ps locs e) = n_logical_pages e"
proof -
  have "sizes (boundary_engine ri n ps locs e) = sizes e"
    by (simp add: boundary_engine_def register_sizes release_sizes discard_sizes)
  then show ?thesis by (rule same_sizes)
qed

text \<open>The boundary's change of the state, \<open>locs\<close> being the locations it exempts.\<close>

lemma boundary_step_fresh:
  assumes "boundary_sizes s" "s' = on_engine (boundary_engine ri k 64 locs) (s\<lparr>cap := c\<rparr>)"
    and "c4_page_size c = c4_page_size (cap s)" "c4_logical_size c = c4_logical_size (cap s)"
    and "req_step c = (req_step (cap s))(ri := Some 0)" "resident_chunk_mask c = fill locs True (resident_chunk_mask (cap s))"
  shows "boundary_frame s s'"
    and "row_ok (cap s) (page_table ! bi') (nat n') \<Longrightarrow> ri' = ri \<and> (\<forall>j < nat n'. side_loc (cap s) (page_table ! bi') j \<in> set locs)
           \<or> fresh_req page_table s (bi', ri', n') \<Longrightarrow> fresh_req page_table s' (bi', ri', n')"
proof -
  show fr: "boundary_frame s s'"
    using assms(3,4) by (simp add: boundary_frame_def assms(2) option.map_comp comp_def boundary_engine_sizes)
  assume ok: "row_ok (cap s) (page_table ! bi') (nat n')"
    and or: "ri' = ri \<and> (\<forall>j < nat n'. side_loc (cap s) (page_table ! bi') j \<in> set locs) \<or> fresh_req page_table s (bi', ri', n')"
  have "resident_chunk_mask c (side_loc (cap s) (page_table ! bi') j) \<and> (\<forall>e'. eng s' = Some e' \<longrightarrow> unmapped e' (side_loc (cap s) (page_table ! bi') j))"
    if j: "j < nat n'" for j
  proof -
    let ?x = "side_loc (cap s) (page_table ! bi') j"
    have x: "?x \<in> set locs \<or> resident_chunk_mask (cap s) ?x \<and> (\<forall>e. eng s = Some e \<longrightarrow> unmapped e ?x)"
      using or j by (auto simp: fresh_req_def)
    have "unmapped (boundary_engine ri k 64 locs e) ?x" if "eng s = Some e" for e
      by (rule boundary_engine_unmaps) (use x that side_loc_eq(3,4) [OF ok j] assms(1) in \<open>auto simp: boundary_sizes_def\<close>)
    with x show ?thesis by (auto simp: assms(2,6) fill_def)
  qed
  moreover have "req_step c ri' = Some 0" using or by (auto simp: assms(5) fresh_req_def)
  ultimately show "fresh_req page_table s' (bi', ri', n')"
    using side_loc_frame [OF fr] by (simp add: fresh_req_def assms(2))
qed

lemma reset_req_fresh:
  assumes "0 < n \<Longrightarrow> bi < length page_table \<and> row_ok (cap s) (page_table ! bi) (nat n)" "boundary_sizes s"
  obtains s' where "reset_req page_table (bi, ri, n) s = (Inr (), s')" "boundary_frame s s'" "fresh_req page_table s' (bi, ri, n)"
    "\<And>bi' ri' n'. row_ok (cap s) (page_table ! bi') (nat n') \<Longrightarrow> fresh_req page_table s (bi', ri', n') \<Longrightarrow> fresh_req page_table s' (bi', ri', n')"
proof (cases "0 < n")
  case True
  with assms(1) have r: "row_ok (cap s) (page_table ! bi) (nat n)" "bi < length page_table" by simp_all
  from assms(2) have ps: "c4_page_size (cap s) = 64" by (simp add: boundary_sizes_def)
  show thesis
  proof (rule reset_req_effect [OF r True, of ri], goal_cases)
    case (1 c)
    note b = boundary_step_fresh [OF assms(2) refl 1(2-5)]
    show thesis by (rule that [OF 1(1) [unfolded ps]]) (use b r(1) in auto)
  qed
next
  case False
  then show thesis
    by (intro that [of "s\<lparr>cap := (cap s)\<lparr>req_step := (req_step (cap s))(ri := Some 0)\<rparr>\<rparr>"])
      (auto simp: reset_req_def Let_def boundary_frame_def fresh_req_def side_loc_def)
qed

lemma reset_reqs_fresh:
  assumes "list_all (\<lambda>(bi, ri, n). bi < length page_table \<and> row_ok (cap s) (page_table ! bi) (nat n)) rs" "boundary_sizes s"
  shows "\<exists>s'. reset_reqs page_table rs s = (Inr (), s') \<and> boundary_frame s s' \<and> list_all (fresh_req page_table s') rs
    \<and> (\<forall>bi ri n. row_ok (cap s) (page_table ! bi) (nat n) \<longrightarrow> fresh_req page_table s (bi, ri, n) \<longrightarrow> fresh_req page_table s' (bi, ri, n))"
  using assms
proof (induction rs arbitrary: s)
  case Nil
  then show ?case by (simp add: boundary_frame_def)
next
  case (Cons r rs)
  obtain bi ri n where r: "r = (bi, ri, n)" by (cases r)
  from Cons.prems(1) have ok: "bi < length page_table" "row_ok (cap s) (page_table ! bi) (nat n)" by (simp_all add: r)
  from reset_req_fresh [of n bi page_table s ri] ok Cons.prems(2) obtain s1 where
    s1: "reset_req page_table (bi, ri, n) s = (Inr (), s1)" "boundary_frame s s1" "fresh_req page_table s1 (bi, ri, n)"
      "\<And>bi' ri' n'. row_ok (cap s) (page_table ! bi') (nat n') \<Longrightarrow> fresh_req page_table s (bi', ri', n') \<Longrightarrow> fresh_req page_table s1 (bi', ri', n')"
    by auto
  have "list_all (\<lambda>(bi, ri, n). bi < length page_table \<and> row_ok (cap s1) (page_table ! bi) (nat n)) rs"
    using Cons.prems(1) by (simp add: row_ok_frame [OF s1(2)])
  from Cons.IH [OF this boundary_sizes_frame [OF s1(2) Cons.prems(2)]] obtain s' where
    s': "reset_reqs page_table rs s1 = (Inr (), s')" "boundary_frame s1 s'" "list_all (fresh_req page_table s') rs"
      "\<And>bi ri n. row_ok (cap s1) (page_table ! bi) (nat n) \<Longrightarrow> fresh_req page_table s1 (bi, ri, n) \<Longrightarrow> fresh_req page_table s' (bi, ri, n)"
    by (auto simp: row_ok_frame [OF s1(2)])
  have "reset_reqs page_table (r # rs) s = (Inr (), s')" by (simp add: r s1(1) s'(1) obind_def)
  moreover have "boundary_frame s s'" using s1(2) s'(2) by (simp add: boundary_frame_def)
  moreover have "fresh_req page_table s' (bi, ri, n)" by (rule s'(4) [OF _ s1(3)]) (simp add: row_ok_frame [OF s1(2)] ok)
  ultimately show ?case using s'(3,4) s1(4) by (auto simp: r row_ok_frame [OF s1(2)])
qed

text \<open>C21: A request starts with full attention and nothing stale: the request-boundary reset of the
  prefill succeeds on a batch with valid page tables, and afterwards every request of the batch is due
  at its first decode step, the graph's mask leaves its logits unchanged, and no chunk of it is mapped
  to a reserve cell of the pages' previous occupant, in any layer.\<close>

theorem boundary_full_residency:
  assumes "\<And>bi. bi < length ids \<Longrightarrow> bi < length page_table \<and> row_ok (cap s) (page_table ! bi) (nat (seqs bi)) \<and> 0 < seqs bi"
    and "c4_page_size (cap s) = 64" "\<And>e. eng s = Some e \<Longrightarrow> c4_logical_size (cap s) \<le> n_logical_pages e * 64"
  shows "\<exists>s'. reset_req_residency ids page_table seqs s = (Inr (), s')
    \<and> (\<forall>bi < length ids. is_due (cap s') (ids ! bi)
         \<and> (\<forall>row. apply_mask_row (cap s') (page_table ! bi) (seqs bi) row = Inr row)
         \<and> (\<forall>e l j. eng s' = Some e \<longrightarrow> j < nat (seqs bi) \<longrightarrow> remap_loc e l (side_loc (cap s) (page_table ! bi) j) = - 1))"
proof -
  let ?rs = "map (\<lambda>bi. (bi, ids ! bi, seqs bi)) [0..<length ids]"
  let ?s = "on_cap (\<lambda>c. c\<lparr>cached_req_ids := None\<rparr>) s"
  have f: "boundary_frame s ?s" by (simp add: boundary_frame_def)
  have "boundary_sizes ?s" using assms(2,3) by (simp add: boundary_sizes_def)
  moreover have "list_all (\<lambda>(bi, ri, n). bi < length page_table \<and> row_ok (cap ?s) (page_table ! bi) (nat n)) ?rs"
    using assms(1) row_ok_frame [OF f] by (simp add: list_all_iff)
  ultimately obtain s' where s': "reset_reqs page_table ?rs ?s = (Inr (), s')" "boundary_frame ?s s'"
    "list_all (fresh_req page_table s') ?rs" using reset_reqs_fresh [of page_table ?s ?rs] by auto
  have f': "boundary_frame s s'" using f s'(2) by (simp add: boundary_frame_def)
  have "is_due (cap s') (ids ! bi) \<and> (\<forall>row. apply_mask_row (cap s') (page_table ! bi) (seqs bi) row = Inr row)
    \<and> (\<forall>e l j. eng s' = Some e \<longrightarrow> j < nat (seqs bi) \<longrightarrow> remap_loc e l (side_loc (cap s) (page_table ! bi) j) = - 1)"
    if bi: "bi < length ids" for bi
  proof -
    have ok: "row_ok (cap s') (page_table ! bi) (nat (seqs bi))" "0 < seqs bi"
      using assms(1) [OF bi] by (simp_all add: row_ok_frame [OF f'])
    have fresh: "fresh_req page_table s' (bi, ids ! bi, seqs bi)" using s'(3) bi by (simp add: list_all_iff)
    have "page_table ! bi \<noteq> []" using row_okD(2) [OF ok(1), of 0] ok(2) by auto
    moreover have "resident_chunk_mask (cap s') (graph_loc (cap s') (page_table ! bi) j)" if "int j < seqs bi" for j
      using fresh side_loc_eq(2) [OF ok(1), of j] that by (simp add: fresh_req_def)
    ultimately have "apply_mask_row (cap s') (page_table ! bi) (seqs bi) row = Inr row" for row
      by (auto simp: apply_mask_row_def intro!: nth_equalityI)
    moreover have "remap_loc e l (side_loc (cap s) (page_table ! bi) j) = - 1" if "eng s' = Some e" "j < nat (seqs bi)" for e l j
    proof -
      let ?x = "side_loc (cap s') (page_table ! bi) j"
      have "boundary_sizes s'" by (rule boundary_sizes_frame [OF f']) (use assms(2,3) in \<open>simp add: boundary_sizes_def\<close>)
      then have "0 \<le> ?x" "?x < n_logical_pages e * 64" "unmapped e ?x"
        using side_loc_eq(3,4) [OF ok(1) that(2)] that fresh by (auto simp: boundary_sizes_def fresh_req_def)
      then show ?thesis
        by (simp add: side_loc_frame [OF f'] remap_loc_def clamp_col_def lut_cols_def C4_PAGE_SIZE_def unmapped_def Let_def)
    qed
    ultimately show ?thesis using fresh by (simp add: is_due_def fresh_req_def)
  qed
  with s'(1) show ?thesis unfolding reset_req_residency_def by blast
qed

text \<open>A system whose engine has chunk 5 recalled, at the start of a request on the chunk's page.\<close>

definition small_boundary :: sys where
  "small_boundary = \<lparr>cap = init_capturer small_cap_env 256 64 False 64 4, eng = Some (small_recalled True), recall_job = None\<rparr>"

theorem boundary_full_residency_witness:
  "0 \<le> remap_loc (small_recalled True) 0 5
   \<and> (\<exists>s'. reset_req_residency [3] [[0]] (\<lambda>_. 6) small_boundary = (Inr (), s')
        \<and> apply_mask_row (cap s') [0] 6 [Fin 0, Fin 1] = Inr [Fin 0, Fin 1]
        \<and> (\<forall>e. eng s' = Some e \<longrightarrow> remap_loc e 0 5 = - 1))"
proof -
  have "sizes (small_recalled True) = sizes (small_engine True)"
    using page_path.run_inv [OF small_recall(1) _ small_engine_inv(1)] by simp
  then have n: "n_logical_pages (small_recalled True) = 4" by (simp add: same_sizes(2))
  have c: "c4_page_size (cap small_boundary) = 64" "c4_logical_size (cap small_boundary) = 256"
    by (simp_all add: small_boundary_def init_capturer_def Let_def)
  have ok: "row_ok (cap small_boundary) [0] 6" by (simp add: row_ok_def row_pages_def c)
  have loc: "side_loc (cap small_boundary) [0] 5 = 5" using side_loc_eq(1) [OF ok, of 5] by (simp add: c)
  from boundary_full_residency [of "[3]" "[[0]]" small_boundary "\<lambda>_. 6"] obtain s' where
    s': "reset_req_residency [3] [[0]] (\<lambda>_. 6) small_boundary = (Inr (), s')"
      "\<forall>row. apply_mask_row (cap s') [0] 6 row = Inr row"
      "\<forall>e l j. eng s' = Some e \<longrightarrow> j < 6 \<longrightarrow> remap_loc e l (side_loc (cap small_boundary) [0] j) = - 1"
    using ok c n by (auto simp: small_boundary_def)
  have "remap_loc e 0 5 = - 1" if "eng s' = Some e" for e
    using s'(3) [rule_format, OF that, of 5 0] by (simp add: loc)
  with s'(1,2) small_recall(2) show ?thesis by blast
qed

end
