(* ===== verification/PageSelect.thy ===== *)
theory PageSelect
  imports TurnoverProps
begin

section \<open>Page selection\<close>

text \<open>
  \<open>_select_resident_pages\<close>: the page-granular selection of the side band, and the row of pool
  locations it writes for the score-resident path. Also the two tables that go with it, the column
  scratch of the chunk path and the column-to-cell table.
\<close>

definition page_of :: "int \<Rightarrow> nat \<Rightarrow> nat" where
  "page_of ps j = nat (int j div ps)"

definition forced_page :: "hook \<Rightarrow> int \<Rightarrow> nat \<Rightarrow> nat \<Rightarrow> bool" where
  "forced_page h ps n pg \<longleftrightarrow> max 0 (int n - last_keep h) div ps \<le> int pg
     \<or> (0 < first_keep h \<and> int pg < (min (first_keep h) (int n) + ps - 1) div ps)"

lemma page_scores_length: "length (page_scores sg h (c4_page_size c) part n) = row_pages c n"
  by (simp add: page_scores_def row_pages_def Let_def)

lemma page_scores_forced:
  assumes "pg < row_pages c n"
  shows "page_scores sg h (c4_page_size c) part n ! pg = \<infinity> \<longleftrightarrow> forced_page h (c4_page_size c) n pg"
  using assms by (simp add: page_scores_def row_pages_def Let_def forced_page_def)

lemma forced_chunk_page:
  assumes "0 < ps" "j < n" "int n - last_keep h \<le> int j \<or> int j < first_keep h"
  shows "forced_page h ps n (page_of ps j)"
proof -
  have nn: "0 \<le> int j div ps" using assms(1) by (simp add: pos_imp_zdiv_nonneg_iff)
  show ?thesis
  proof (cases "int n - last_keep h \<le> int j")
    case True
    then have "max 0 (int n - last_keep h) div ps \<le> int j div ps" using assms(1) by (intro zdiv_mono1) simp_all
    then show ?thesis using nn by (simp add: forced_page_def page_of_def)
  next
    case False
    then have "int j < first_keep h" using assms(3) by simp
    have "int j div ps + 1 = (int j + ps) div ps" using assms(1) by simp
    also have "\<dots> \<le> (min (first_keep h) (int n) + ps - 1) div ps"
      using assms(1,2) \<open>int j < first_keep h\<close> by (intro zdiv_mono1) simp_all
    finally show ?thesis using nn \<open>int j < first_keep h\<close> by (simp add: forced_page_def page_of_def)
  qed
qed

text \<open>The columns of the selected pages.\<close>

definition page_cols :: "int \<Rightarrow> int list \<Rightarrow> nat list \<Rightarrow> (int \<times> int) list" where
  "page_cols ps pt tops = concat (map (\<lambda>p. map (\<lambda>off. (int p * ps + off, pt ! p * ps + off)) (int_range 0 (nat ps))) tops)"

lemma page_cols_length: "length (page_cols ps pt tops) = length tops * nat ps"
  by (induction tops) (simp_all add: page_cols_def)

lemma page_cols_set:
  assumes "0 < ps"
  shows "(int j, loc) \<in> set (page_cols ps pt tops) \<longleftrightarrow> page_of ps j \<in> set tops \<and> loc = pt ! page_of ps j * ps + int j mod ps"
proof -
  have s: "set (page_cols ps pt tops) = {(int p * ps + off, pt ! p * ps + off) | p off. p \<in> set tops \<and> 0 \<le> off \<and> off < ps}"
    using assms by (auto simp: page_cols_def intro!: exI conjI refl)
  have pg: "int (page_of ps j) = int j div ps" using assms by (simp add: page_of_def pos_imp_zdiv_nonneg_iff)
  show ?thesis
  proof
    assume "(int j, loc) \<in> set (page_cols ps pt tops)"
    then obtain p off where p: "p \<in> set tops" "0 \<le> off" "off < ps" "int j = int p * ps + off" "loc = pt ! p * ps + off"
      unfolding s by blast
    then have "int j div ps = int p" "int j mod ps = off" by simp_all
    then show "page_of ps j \<in> set tops \<and> loc = pt ! page_of ps j * ps + int j mod ps" using p by (simp add: page_of_def)
  next
    assume r: "page_of ps j \<in> set tops \<and> loc = pt ! page_of ps j * ps + int j mod ps"
    have "int j = int (page_of ps j) * ps + int j mod ps" unfolding pg by simp
    with r show "(int j, loc) \<in> set (page_cols ps pt tops)"
      unfolding s using assms by (auto intro!: exI [of _ "page_of ps j"] exI [of _ "int j mod ps"])
  qed
qed

lemma page_cols_nonneg: "0 < ps \<Longrightarrow> (ch, loc) \<in> set (page_cols ps pt tops) \<Longrightarrow> 0 \<le> ch"
  by (auto simp: page_cols_def)

text \<open>The result of the selection, for a request with a valid page table and buffers of the size
  \<open>__init__\<close> gives them.\<close>

lemma select_pages_effect:
  assumes tk: "topk_ok tkp" and b: "rows c = Some b" and row: "row_ok c (page_table ! bi) n" "bi < length page_table"
    and ok: "scores_ok h part n" "0 \<le> page_kmax c" "page_kmax c \<le> int (resident_pages c)"
      "int (resident_buf c) = int (resident_pages c) * c4_page_size c"
  defines "ps \<equiv> c4_page_size c"
  obtains tops locs b' where
    "set tops = set (tkp (page_scores sg h ps part n) (nat (min (page_kmax c) (int (row_pages c n)))))"
    "length tops = nat (min (page_kmax c) (int (row_pages c n)))" "length locs \<le> resident_buf c"
    "locs = map (\<lambda>(ch, loc). if ch < int n then loc else - 1) (page_cols ps (page_table ! bi) tops)"
    "select_resident_pages tkp sg h bi n part page_table c
       = (Inr (map (\<lambda>j. page_of ps j \<in> set tops) [0..<n]),
          c\<lparr>rows := Some b', pending_count := od_set bi (min (page_kmax c) (int (row_pages c n)) * ps) (pending_count c)\<rparr>)"
    "resident_pool_loc_buf b' bi = pad_row (resident_buf c) (- 1) locs"
proof -
  let ?sc = "page_scores sg h ps part n" and ?K = "min (page_kmax c) (int (row_pages c n))"
  let ?pt = "page_table ! bi"
  have ps: "0 < ps" using row(1) by (simp add: row_ok_def ps_def)
  have len: "length ?sc = row_pages c n" by (simp add: ps_def page_scores_length)
  have K: "nat ?K \<le> length ?sc" "\<not> ?K < 0" using ok(2) by (auto simp: len)
  define tops where "tops = sort (tkp ?sc (nat ?K))"
  have t: "set tops = set (tkp ?sc (nat ?K))" "length tops = nat ?K" using topkD(1) [OF tk K(1)] by (simp_all add: tops_def)
  have lt: "p < row_pages c n" if "p \<in> set tops" for p using that topkD(3) [OF tk K(1)] len by (simp add: t)
  have "row_pages c n \<le> length ?pt" using row(1) by (simp add: row_ok_def)
  then have in_pt: "p < length ?pt" "?pt ! p \<in> set (take (row_pages c n) ?pt)" if "p \<in> set tops" for p
    using lt [OF that] by (auto simp: in_set_conv_nth intro!: exI [of _ p])
  have no_clamp: "clamp 0 (max 0 (c4_logical_size c div ps - 1)) (?pt ! p) = ?pt ! p" if "p \<in> set tops" for p
  proof -
    have r: "0 \<le> ?pt ! p" "(?pt ! p + 1) * ps \<le> c4_logical_size c"
      using row(1) in_pt(2) [OF that] by (auto simp: row_ok_def list_all_iff ps_def)
    from zdiv_mono1 [OF r(2) ps] ps have "?pt ! p + 1 \<le> c4_logical_size c div ps" by simp
    with r(1) show ?thesis by (intro clamp_id) simp_all
  qed
  define cols where "cols = page_cols ps ?pt tops"
  define locs where "locs = map (\<lambda>(ch, loc). if ch < int n then loc else - 1) cols"
  have ph: "map (\<lambda>p. clamp 0 (max 0 (c4_logical_size c div ps - 1)) (?pt ! p)) tops = map (\<lambda>p. ?pt ! p) tops"
    by (rule map_cong [OF refl no_clamp])
  have cc: "concat (map (\<lambda>(lp, pp). map (\<lambda>off. (int lp * ps + off, pp * ps + off)) (int_range 0 (nat ps))) (zip tops (map (\<lambda>p. ?pt ! p) tops))) = cols"
    by (simp add: cols_def page_cols_def zip_map2 zip_same_conv_map comp_def)
  have l: "length locs = length tops * nat ps" by (simp add: locs_def cols_def page_cols_length)
  have np: "length tops \<le> resident_pages c" using ok(3) t(2) by (auto simp: min_def split: if_splits)
  have "int (length tops) * ps \<le> int (resident_pages c) * ps" using np ps by (intro mult_right_mono) simp_all
  moreover have "int (length locs) = int (length tops) * ps" using ps by (simp add: l)
  ultimately have lb: "length locs \<le> resident_buf c" using ok(4) unfolding ps_def by linarith
  have keep: "int j \<in> set (map fst (filter (\<lambda>(ch, _). ch < int n) cols)) \<longleftrightarrow> page_of ps j \<in> set tops" if "j < n" for j
    using that page_cols_set [OF ps, of j _ ?pt tops] by (force simp: cols_def image_iff)
  then have kp: "map (\<lambda>j. int j \<in> set (map fst (filter (\<lambda>(ch, _). ch < int n) cols))) [0..<n] = map (\<lambda>j. page_of ps j \<in> set tops) [0..<n]"
    by simp
  have c1: "\<not> (\<not> scores_ok h part n \<or> ?K < 0)" using ok(1) K(2) by simp
  have c2: "\<not> (\<not> bi < length page_table \<or> list_ex (\<lambda>p. length ?pt \<le> p) tops)"
    using in_pt(1) row(2) by (auto simp: list_ex_iff not_le)
  have c3: "\<not> (resident_pages c < length (map (\<lambda>p. ?pt ! p) tops) \<or> resident_buf c < length locs)" using np lb by simp
  define b' where "b' = b\<lparr>resident_id_page_table := (resident_id_page_table b)(bi := pad_row (resident_pages c) 0 (map (\<lambda>p. ?pt ! p) tops)),
    resident_pool_loc_buf := (resident_pool_loc_buf b)(bi := pad_row (resident_buf c) (- 1) locs)\<rparr>"
  have "select_resident_pages tkp sg h bi n part page_table c
       = (Inr (map (\<lambda>j. page_of ps j \<in> set tops) [0..<n]),
          c\<lparr>rows := Some b', pending_count := od_set bi (?K * ps) (pending_count c)\<rparr>)"
    unfolding select_resident_pages_def Let_def ps_def [symmetric] len if_not_P [OF c1] tops_def [symmetric] if_not_P [OF c2]
      b option.case ph cc locs_def [symmetric] kp if_not_P [OF c3] b'_def ..
  then show thesis by (rule that [OF t lb locs_def [unfolded cols_def]]) (simp add: b'_def)
qed

text \<open>The non-negative entries of the row are the locations of the selected chunks.\<close>

lemma selected_locs:
  assumes "row_ok c pt n"
  shows "{x \<in> set (pad_row m (- 1) (map (\<lambda>(ch, loc). if ch < int n then loc else - 1) (page_cols (c4_page_size c) pt tops))). 0 \<le> x}
    = side_loc c pt ` {j. j < n \<and> page_of (c4_page_size c) j \<in> set tops}" (is "?L = ?R")
proof -
  have ps: "0 < c4_page_size c" using assms by (simp add: row_ok_def)
  let ?cols = "set (page_cols (c4_page_size c) pt tops)"
  have "?L = {loc. \<exists>j < n. (int j, loc) \<in> ?cols \<and> 0 \<le> loc}"
  proof (intro set_eqI iffI)
    fix x assume x: "x \<in> ?L"
    then obtain ch where ch: "(ch, x) \<in> ?cols" "ch < int n" by (auto simp: pad_row_def split: if_splits)
    moreover from this(1) have "0 \<le> ch" by (rule page_cols_nonneg [OF ps])
    ultimately show "x \<in> {loc. \<exists>j < n. (int j, loc) \<in> ?cols \<and> 0 \<le> loc}" using x
      by (auto intro!: exI [of _ "nat ch"])
  qed (force simp: pad_row_def)
  also have "\<dots> = ?R"
    unfolding page_cols_set [OF ps] using side_loc_eq(1,3) [OF assms] by (auto simp: page_of_def image_iff)
  finally show ?thesis .
qed

text \<open>C18: The page-granular selection is sound and complete in its budget: \<open>_select_resident_pages\<close>
  succeeds on a request with a valid page table, selects whole pages, at most \<open>page_kmax\<close> of them and
  none with a lower score than one it leaves out, keeps every recent and every sink chunk when their
  pages fit the budget, and writes into the request's row the pool locations of the selected chunks
  and no others.\<close>

theorem page_selection_sound:
  assumes tk: "topk_ok tkp" and b: "rows c = Some b" and row: "row_ok c (page_table ! bi) n" "bi < length page_table"
    and ok: "scores_ok h part n" "0 \<le> page_kmax c" "page_kmax c \<le> int (resident_pages c)"
      "int (resident_buf c) = int (resident_pages c) * c4_page_size c"
  shows "\<exists>keep c' b'. select_resident_pages tkp sg h bi n part page_table c = (Inr keep, c') \<and> length keep = n \<and> rows c' = Some b'
    \<and> (\<forall>i < n. \<forall>j < n. page_of (c4_page_size c) i = page_of (c4_page_size c) j \<longrightarrow> keep ! i = keep ! j)
    \<and> int (card (page_of (c4_page_size c) ` {j. j < n \<and> keep ! j})) \<le> page_kmax c
    \<and> (\<forall>i < n. \<forall>j < n. keep ! i \<longrightarrow> \<not> keep ! j \<longrightarrow>
         page_scores sg h (c4_page_size c) part n ! page_of (c4_page_size c) j \<le> page_scores sg h (c4_page_size c) part n ! page_of (c4_page_size c) i)
    \<and> (int (card {pg. pg < row_pages c n \<and> forced_page h (c4_page_size c) n pg}) \<le> page_kmax c \<longrightarrow>
         (\<forall>j < n. int n - last_keep h \<le> int j \<or> int j < first_keep h \<longrightarrow> keep ! j))
    \<and> {x \<in> set (resident_pool_loc_buf b' bi). 0 \<le> x} = side_loc c (page_table ! bi) ` {j. j < n \<and> keep ! j}"
proof -
  let ?ps = "c4_page_size c" and ?sc = "page_scores sg h (c4_page_size c) part n"
  let ?k = "nat (min (page_kmax c) (int (row_pages c n)))"
  have ps: "0 < ?ps" using row(1) by (simp add: row_ok_def)
  have len: "length ?sc = row_pages c n" by (rule page_scores_length)
  have k: "?k \<le> length ?sc" by (simp add: len)
  have pg: "page_of ?ps j < row_pages c n" if "j < n" for j
    unfolding page_of_def by (rule row_okD(1) [OF row(1) that])
  show ?thesis
  proof (rule select_pages_effect [OF assms, of sg], goal_cases)
    case (1 tops locs b')
    let ?keep = "map (\<lambda>j. page_of ?ps j \<in> set tops) [0..<n]"
    have kj: "?keep ! j \<longleftrightarrow> page_of ?ps j \<in> set tops" if "j < n" for j using that by simp
    have "card (page_of ?ps ` {j. j < n \<and> ?keep ! j}) \<le> card (set tops)" by (rule card_mono) auto
    also have "\<dots> \<le> length tops" by (rule card_length)
    finally have a: "int (card (page_of ?ps ` {j. j < n \<and> ?keep ! j})) \<le> page_kmax c" using 1(2) ok(2) by simp
    have d: "?sc ! page_of ?ps j \<le> ?sc ! page_of ?ps i" if "i < n" "j < n" "?keep ! i" "\<not> ?keep ! j" for i j
      using topkD(4) [OF tk k, of "page_of ?ps i" "page_of ?ps j"] that pg [OF that(2)] by (simp add: 1(1) len)
    have f: "?keep ! j" if few: "int (card {pg. pg < row_pages c n \<and> forced_page h ?ps n pg}) \<le> page_kmax c"
        and j: "j < n" "int n - last_keep h \<le> int j \<or> int j < first_keep h" for j
    proof -
      have inf: "?sc ! page_of ?ps j = \<infinity>" using page_scores_forced [OF pg [OF j(1)]] forced_chunk_page [OF ps j] by simp
      have set: "{i. i < length ?sc \<and> ?sc ! page_of ?ps j \<le> ?sc ! i} = {pg. pg < row_pages c n \<and> forced_page h ?ps n pg}"
        unfolding inf len by (auto simp: page_scores_forced)
      have "card {pg. pg < row_pages c n \<and> forced_page h ?ps n pg} \<le> card {..<row_pages c n}" by (rule card_mono) auto
      then have "card {i. i < length ?sc \<and> ?sc ! page_of ?ps j \<le> ?sc ! i} \<le> ?k" using few unfolding set by simp
      from topk_selects [OF tk k _ this] pg [OF j(1)] j(1) show ?thesis by (simp add: 1(1) len)
    qed
    have "{j. j < n \<and> ?keep ! j} = {j. j < n \<and> page_of ?ps j \<in> set tops}" using kj by auto
    with selected_locs [OF row(1)] 1(4)
    have locs: "{x \<in> set (pad_row (resident_buf c) (- 1) locs). 0 \<le> x} = side_loc c (page_table ! bi) ` {j. j < n \<and> ?keep ! j}"
      by simp
    show ?thesis
      by (intro exI conjI) (use 1(5,6) a d f locs in auto)
  qed
qed

theorem page_selection_sound_witness:
  "\<exists>keep c'. select_resident_pages topk_sort (\<lambda>x. x) small_hook 0 3 small_scores [[3, 1]] (ensure_page_recall_buffers small_cap) = (Inr keep, c')
     \<and> keep ! 2"
proof -
  let ?c = "ensure_page_recall_buffers small_cap"
  obtain b where b: "rows ?c = Some b" by (simp add: ensure_page_recall_buffers_def)
  have f: "c4_page_size ?c = 2" "c4_logical_size ?c = 16" "page_kmax ?c = 2" "resident_pages ?c = 2" "resident_buf ?c = 4"
    by (simp_all add: ensure_page_recall_buffers_def)
  have row: "row_ok ?c ([[3, 1]] ! 0) 3" by (simp add: row_ok_def row_pages_def f numeral_2_eq_2)
  have ok: "scores_ok small_hook small_scores 3" by (simp add: scores_ok_def small_hook_def small_scores_def)
  have "{pg. pg < row_pages ?c 3 \<and> forced_page small_hook 2 3 pg} \<subseteq> {..<2}" by (auto simp: row_pages_def f)
  from card_mono [OF _ this] have few: "int (card {pg. pg < row_pages ?c 3 \<and> forced_page small_hook (c4_page_size ?c) 3 pg}) \<le> page_kmax ?c"
    by (simp add: f)
  have last: "int 3 - last_keep small_hook \<le> int 2 \<or> int 2 < first_keep small_hook" by (simp add: small_hook_def)
  have bi: "0 < length [[3, 1 :: int]]" by simp
  have rest: "0 \<le> page_kmax ?c" "page_kmax ?c \<le> int (resident_pages ?c)" "int (resident_buf ?c) = int (resident_pages ?c) * c4_page_size ?c"
    by (simp_all add: f)
  from page_selection_sound [OF topk_sort_ok b row bi ok rest, of "\<lambda>x. x"] show ?thesis
  proof (elim exE conjE, goal_cases)
    case (1 keep c' b')
    from 1(7) few last have "keep ! 2" by (auto dest!: spec [of _ 2])
    with 1(1) show ?case by blast
  qed
qed


subsection \<open>Sizes\<close>

text \<open>C32: With the ratio switch the page budget is a proportion of the target context, rounded up to
  within a ten-thousandth of a page and at least one, the target pages hold the target context, and
  \<open>__init__\<close> gives every row room for exactly that many pages.\<close>

theorem page_budget:
  assumes "0 < env_kmax_ratio env" "env_cap_page_recall env" "0 < ps" "0 \<le> env_target_context env"
    and "c = init_capturer env logical_size ps on_cpu default_interval bs"
    and "pages = target_context_pages (env_target_context env) ps"
  shows "1 \<le> page_kmax c \<and> page_kmax c = int (resident_pages c) \<and> int (resident_buf c) = page_kmax c * ps
    \<and> real_of_int pages * env_kmax_ratio env - 1 / 10000 < page_kmax c
    \<and> page_kmax c < max 2 (real_of_int pages * env_kmax_ratio env + 1)
    \<and> env_target_context env \<le> 4 * ps * pages \<and> (env_kmax_ratio env \<le> 1 \<longrightarrow> page_kmax c \<le> max 1 pages)"
proof -
  let ?x = "real_of_int pages * env_kmax_ratio env"
  have "0 \<le> (env_target_context env + 3) div 4" using assms(4) by simp
  then have p0: "0 \<le> pages" using assms(3) by (simp add: assms(6) target_context_pages_def Let_def pos_imp_zdiv_nonneg_iff)
  have "0 \<le> ?x" using p0 assms(1) by simp
  then have k: "page_kmax c = max 1 \<lfloor>?x + 9999 / 10000\<rfloor>"
    using assms(1) by (simp add: assms(5,6) init_capturer_def resolve_page_kmax_def truncate_real_def Let_def)
  have fl: "?x - 1 / 10000 < real_of_int \<lfloor>?x + 9999 / 10000\<rfloor>" "real_of_int \<lfloor>?x + 9999 / 10000\<rfloor> < ?x + 1" by linarith+
  have sz: "resident_pages c = nat (page_kmax c)" "resident_buf c = nat (page_kmax c * ps)"
    using assms(2) ceil_div(2) [OF assms(3)] by (simp_all add: assms(5) init_capturer_def Let_def)
  have "1 \<le> page_kmax c" by (simp add: k)
  moreover from this have "page_kmax c = int (resident_pages c)" "int (resident_buf c) = page_kmax c * ps" using assms(3) by (simp_all add: sz)
  moreover have "?x - 1 / 10000 < page_kmax c" using fl(1) by (simp add: k)
  moreover have "page_kmax c < max 2 (?x + 1)" using fl(2) by (simp add: k)
  moreover have "env_target_context env \<le> 4 * ps * pages"
    using ceil_div(1) [of 4 "env_target_context env"] ceil_div(1) [OF assms(3), of "(env_target_context env + 3) div 4"]
    by (simp add: assms(6) target_context_pages_def Let_def)
  moreover have "page_kmax c \<le> max 1 pages" if "env_kmax_ratio env \<le> 1"
  proof -
    have "?x \<le> real_of_int pages" using mult_left_mono [OF that, of "real_of_int pages"] p0 by simp
    then have "\<lfloor>?x + 9999 / 10000\<rfloor> \<le> pages" by linarith
    then show ?thesis by (simp add: k)
  qed
  ultimately show ?thesis by blast
qed

theorem page_budget_witness:
  "1 \<le> page_kmax (init_capturer (small_cap_env\<lparr>env_kmax_ratio := 1 / 2\<rparr>) 256 64 False 64 4)"
  using page_budget [OF _ _ _ _ refl refl, of "small_cap_env\<lparr>env_kmax_ratio := 1 / 2\<rparr>" 64 256 False 64 4]
  by (simp add: small_cap_env_def)


subsection \<open>The scratch of the chunk path\<close>

text \<open>Where the indexer's store kernel puts the key of a row.\<close>

definition key_addr :: "int \<Rightarrow> int" where
  "key_addr r = r div 64 * (64 * 132) + r mod 64 * 128"

lemma key_addr_kernel:
  assumes "length k = 128" "a < r div 64 * (64 * 132) + 8192" "0 \<le> r"
  shows "index_set_k_and_s_kernel (64 * 132) 64 (r, k, k_scale) b a = write_run (key_addr r) k b a"
proof -
  let ?s = "r div 64 * (64 * 132) div 4 + 64 * 128 div 4 + r mod 64"
  have kern: "index_set_k_and_s_kernel (64 * 132) 64 (r, k, k_scale) b
      = scatter (zip (int_range (4 * ?s) 4) k_scale) (scatter (zip (int_range (key_addr r) (length k)) k) b)"
    by (simp add: index_set_k_and_s_kernel_def key_addr_def Let_def assms(1))
  have "r div 64 * (64 * 132) div 4 = r div 64 * 2112" by simp
  then have "4 * ?s = r div 64 * (64 * 132) + 8192 + 4 * (r mod 64)" by simp
  moreover have "0 \<le> r mod 64" by simp
  ultimately have "a < 4 * ?s" using assms(2) by linarith
  then have "a \<notin> fst ` set (zip (int_range (4 * ?s) 4) k_scale)"
    by (auto dest!: set_zip_leftD simp del: distrib_left_numeral)
  then show ?thesis unfolding kern scatter_run by (rule scatter_other)
qed

lemma fold_row_copy_other:
  "a div rb \<notin> snd ` set ps \<Longrightarrow> fold (row_copy rb src) ps b a = b a"
  by (induction ps arbitrary: b) (auto simp: row_copy_def)

lemma fold_row_copy_in:
  "distinct (map snd ps) \<Longrightarrow> (x, y) \<in> set ps \<Longrightarrow> a div rb = y \<Longrightarrow> fold (row_copy rb src) ps b a = src (x * rb + a mod rb)"
proof (induction ps arbitrary: b)
  case (Cons p ps)
  show ?case
  proof (cases "p = (x, y)")
    case True
    then have "a div rb \<notin> snd ` set ps" using Cons.prems by auto
    then have "fold (row_copy rb src) (p # ps) b a = row_copy rb src p b a" by (simp add: fold_row_copy_other)
    also have "\<dots> = src (x * rb + a mod rb)" using True Cons.prems(3) by (simp add: row_copy_def)
    finally show ?thesis .
  next
    case False
    then show ?thesis using Cons by simp
  qed
qed simp

lemma filter_first:
  assumes "j < n" "P j" "\<And>i. i < j \<Longrightarrow> \<not> P i"
  shows "filter P [0..<n] = j # filter P [Suc j..<n]"
proof -
  have "[0..<n] = [0..<j] @ j # [Suc j..<n]" using assms(1) by (metis upt_conv_Cons upt_add_eq_append le_add1 add_0 less_imp_le le_iff_add)
  moreover have "filter P [0..<j] = []" using assms(3) by (simp add: filter_empty_conv)
  ultimately show ?thesis using assms(2) by simp
qed

lemma ensure_scratch_fields [simp]:
  "c4_page_size (ensure_resident_scratch c) = c4_page_size c" "resident_buf (ensure_resident_scratch c) = resident_buf c"
  "resident_pages (ensure_resident_scratch c) = resident_pages c"
  by (simp_all add: ensure_resident_scratch_def split: option.split)

lemma scratch_moves:
  assumes "build_resident_scratch index_k w bi n keep page_table c = (Inr (), c')"
    and "js = take (resident_buf c) (filter (\<lambda>j. keep ! j) [0..<length keep])" "js \<noteq> []"
  obtains s0 where "resident_kv_scratch c' = Some (\<lambda>l. fold (row_copy w (index_k l))
      (zip (map (\<lambda>j. page_table ! bi ! nat (int j div c4_page_size c) * c4_page_size c + int j mod c4_page_size c) js)
         (int_range (int (bi * resident_pages c) * c4_page_size c) (length js))) (s0 l))"
  using assms by (auto simp: build_resident_scratch_def Let_def split: if_splits option.splits)

text \<open>The scratch does not hold the keys of the resident chunks: \<open>_build_resident_scratch\<close> moves flat rows of
  132 bytes, while a page holds its 64 keys of 128 bytes and then its 64 scales. The key the kernel
  reads for the first column of a request's segment starts four bytes late for every row that
  precedes the first resident chunk in its page.\<close>

theorem scratch_first_key_shifted:
  assumes "c4_page_size c = 64" "j < length keep" "keep ! j" "\<And>i. i < j \<Longrightarrow> \<not> keep ! i" "0 < resident_buf c"
    and "build_resident_scratch index_k 132 bi n keep page_table c = (Inr (), c')" "0 \<le> i" "i < 128"
  shows "\<exists>scratch. resident_kv_scratch c' = Some scratch
    \<and> scratch l (key_addr (int (bi * resident_pages c) * 64) + i)
        = index_k l (key_addr (page_table ! bi ! nat (int j div 64) * 64 + int j mod 64) + 4 * (int j mod 64) + i)"
proof -
  let ?js = "take (resident_buf c) (filter (\<lambda>j. keep ! j) [0..<length keep])"
  let ?src = "\<lambda>j. page_table ! bi ! nat (int j div c4_page_size c) * c4_page_size c + int j mod c4_page_size c"
  let ?seg = "int (bi * resident_pages c) * c4_page_size c"
  obtain m where "resident_buf c = Suc m" using assms(5) by (cases "resident_buf c") simp_all
  then obtain rest where js: "?js = j # rest" using filter_first [of j "length keep" "\<lambda>j. keep ! j"] assms(2-4) by simp
  then have "?js \<noteq> []" by simp
  from scratch_moves [OF assms(6) refl this] obtain s0 where
    sc: "resident_kv_scratch c' = Some (\<lambda>l. fold (row_copy 132 (index_k l)) (zip (map ?src ?js) (int_range ?seg (length ?js))) (s0 l))" .
  let ?a = "key_addr (int (bi * resident_pages c) * 64) + i"
  have e: "?a = i + ?seg * 132" using assms(1) by (simp add: key_addr_def)
  have a: "?a div 132 = ?seg" "?a mod 132 = i" unfolding e using assms(7,8) by simp_all
  have "fold (row_copy 132 (index_k l)) (zip (map ?src ?js) (int_range ?seg (length ?js))) (s0 l) ?a = index_k l (?src j * 132 + ?a mod 132)"
    by (rule fold_row_copy_in) (use a(1) in \<open>simp_all add: js int_range_Suc\<close>)
  moreover have "?src j * 132 + ?a mod 132 = key_addr (page_table ! bi ! nat (int j div 64) * 64 + int j mod 64) + 4 * (int j mod 64) + i"
    unfolding a(2) using assms(1) by (simp add: key_addr_def)
  ultimately show ?thesis using sc by simp
qed

text \<open>A pool whose page 0 holds, for chunk 1, a key of ones and, for chunk 2, a key of twos.\<close>

definition small_index_k :: "nat \<Rightarrow> buf" where
  "small_index_k l = index_set_k_and_s_kernel (64 * 132) 64 (2, replicate 128 2, replicate 4 0)
     (index_set_k_and_s_kernel (64 * 132) 64 (1, replicate 128 1, replicate 4 0) (\<lambda>_. 0))"

definition chunk_cap :: capturer where
  "chunk_cap = init_capturer (small_cap_env\<lparr>env_cap_page_recall := False\<rparr>) 256 64 False 64 4"

theorem scratch_first_key_shifted_witness:
  "\<exists>c' scratch. build_resident_scratch small_index_k 132 0 2 [False, True] [[0]] chunk_cap = (Inr (), c')
     \<and> resident_kv_scratch c' = Some scratch
     \<and> small_index_k 0 (key_addr 1 + 127) = 1 \<and> scratch 0 (key_addr 0 + 127) = 2"
proof -
  have c: "c4_page_size chunk_cap = 64" "resident_buf chunk_cap = 64" "resident_kv_scratch chunk_cap = None" "resident_pages chunk_cap = 1"
    by (simp_all add: chunk_cap_def init_capturer_def small_cap_env_def resolve_page_kmax_def Let_def)
  obtain c' where b: "build_resident_scratch small_index_k 132 0 2 [False, True] [[0]] chunk_cap = (Inr (), c')"
    by (simp add: build_resident_scratch_def ensure_resident_scratch_def Let_def c upt_conv_Cons table_covers_def)
  have k: "key_addr 1 = 128" "key_addr 2 = 256" "key_addr 0 = 0" by (simp_all add: key_addr_def)
  have "small_index_k 0 a = write_run 256 (replicate 128 2) (index_set_k_and_s_kernel (64 * 132) 64 (1, replicate 128 1, replicate 4 0) (\<lambda>_. 0)) a"
    "index_set_k_and_s_kernel (64 * 132) 64 (1, replicate 128 1, replicate 4 0) (\<lambda>_. 0) a = write_run 128 (replicate 128 1) (\<lambda>_. 0) a"
    if "a < 8192" for a
    using key_addr_kernel [of "replicate 128 2" a 2 "replicate 4 0"] key_addr_kernel [of "replicate 128 1" a 1 "replicate 4 0" "\<lambda>_. 0"] that
    by (simp_all add: small_index_k_def k)
  then have one: "small_index_k 0 255 = 1" and two: "small_index_k 0 259 = 2" by (simp_all add: write_run_def)
  from scratch_first_key_shifted [OF c(1) _ _ _ _ b, of 1 127 0] obtain scratch where
    "resident_kv_scratch c' = Some scratch" "scratch 0 (key_addr 0 + 127) = small_index_k 0 (key_addr 1 + 4 + 127)"
    by (auto simp: c)
  with b one two show ?thesis by (simp add: k)
qed


subsection \<open>Fused remap on the page path\<close>

text \<open>What every step of the side band keeps on the page path: the switches, the missing
  column-to-cell table and the published counts.\<close>

definition unpublished :: "rbufs \<Rightarrow> sys \<Rightarrow> bool" where
  "unpublished b s \<longleftrightarrow> cap_page_recall (cap s) \<and> score_resident (cap s) \<and> fused_remap (cap s) \<and> 0 < max_bs (cap s)
     \<and> col_to_cell_buf (cap s) = None \<and> eng s \<noteq> None
     \<and> (\<exists>b'. rows (cap s) = Some b' \<and> resident_count_buf b' = resident_count_buf b)"

lemma unpublished_engine: "unpublished b s \<Longrightarrow> unpublished b (on_engine f s)"
  by (simp add: unpublished_def on_engine_def)

lemma unpublished_cap:
  assumes "unpublished b s" "cap_page_recall c = cap_page_recall (cap s)" "score_resident c = score_resident (cap s)"
    "fused_remap c = fused_remap (cap s)" "max_bs c = max_bs (cap s)" "col_to_cell_buf c = col_to_cell_buf (cap s)"
    "rows c = rows (cap s) \<or> (\<exists>b0 b'. rows (cap s) = Some b0 \<and> rows c = Some b' \<and> resident_count_buf b' = resident_count_buf b0)"
  shows "unpublished b (s\<lparr>cap := c\<rparr>)"
  using assms by (auto simp: unpublished_def)

lemma snd_if: "P (snd x) \<Longrightarrow> P (snd y) \<Longrightarrow> P (snd (if a then x else y))"
  by simp

lemma snd_option: "P (snd x) \<Longrightarrow> (\<And>v. z = Some v \<Longrightarrow> P (snd (f v))) \<Longrightarrow> P (snd (case z of None \<Rightarrow> x | Some v \<Rightarrow> f v))"
  by (cases z) simp_all

text \<open>The selection changes the rows and the staged counts, never the published counts.\<close>

definition keeps_counts :: "capturer \<Rightarrow> capturer \<Rightarrow> bool" where
  "keeps_counts c c' \<longleftrightarrow> c' = c \<or> (\<exists>b b' pc. rows c = Some b \<and> c' = c\<lparr>rows := Some b', pending_count := pc\<rparr>
     \<and> resident_count_buf b' = resident_count_buf b)"

lemma select_keeps_counts: "keeps_counts c (snd (select_resident_pages tkp sg h bi n part pt c))"
  unfolding select_resident_pages_def Let_def
proof (intro snd_if [where P = "keeps_counts c"] snd_option [where P = "keeps_counts c"], goal_cases)
  case (5 b)
  show ?case unfolding keeps_counts_def snd_conv by (intro disjI2 exI conjI, rule 5, rule refl) simp
qed (simp_all add: keeps_counts_def)

lemma unpublished_select:
  assumes "unpublished b s"
  shows "unpublished b (snd (lift_cap (\<lambda>c. select_resident_pages tkp sg h bi n part pt (ensure_page_recall_buffers c)) s))"
proof -
  obtain b0 where b0: "rows (cap s) = Some b0" using assms by (auto simp: unpublished_def)
  obtain r c where r: "select_resident_pages tkp sg h bi n part pt (cap s) = (r, c)" by fastforce
  have "keeps_counts (cap s) c" using select_keeps_counts [of "cap s" tkp sg h bi n part pt] r by simp
  then have "unpublished b (s\<lparr>cap := c\<rparr>)"
    by (intro unpublished_cap [OF assms]) (auto simp: keeps_counts_def)
  then show ?thesis using r b0 by (simp add: lift_cap_def ensure_page_recall_buffers_def)
qed

lemma unpublished_scatter:
  assumes "unpublished b s"
  shows "unpublished b (snd (lift_cap (scatter_logical_keep bi n keep pt pc) s))"
proof -
  obtain r c where r: "scatter_logical_keep bi n keep pt pc (cap s) = (r, c)" by fastforce
  have "unpublished b (s\<lparr>cap := c\<rparr>)"
    by (rule unpublished_cap [OF assms]) (use r in \<open>auto simp: scatter_logical_keep_def Let_def split: if_splits\<close>)
  then show ?thesis using r by (simp add: lift_cap_def)
qed

lemma unpublished_obind:
  assumes "unpublished b (snd r)" "\<And>v s. unpublished b s \<Longrightarrow> unpublished b (snd (f v s))"
  shows "unpublished b (snd (obind r f))"
  using assms by (auto simp: obind_def split: prod.split sum.split)

lemma unpublished_page: "unpublished b s \<Longrightarrow> cap_page_recall (cap s)"
  by (simp add: unpublished_def)

lemma unpublished_req:
  assumes "unpublished b s"
  shows "unpublished b (snd (sideband_req fn h jb bi s))"
proof (cases "j_seql jb bi \<le> 0 \<or> \<not> list_all (\<lambda>l. req_scores h (j_score jb) bi (nat (j_seql jb bi)) l \<noteq> None) (target_layers h)")
  case False
  show ?thesis
    unfolding sideband_req_def Let_def if_not_P [OF False] if_P [OF unpublished_page [OF assms]]
    by (intro unpublished_obind unpublished_select [OF assms])
      (auto dest: unpublished_page intro!: unpublished_scatter unpublished_engine)
qed (use assms in \<open>simp add: sideband_req_def Let_def\<close>)

lemma unpublished_reqs: "unpublished b s \<Longrightarrow> unpublished b (snd (sideband_reqs fn h jb bis s))"
proof (induction bis arbitrary: s)
  case (Cons bi bis)
  show ?case
    unfolding sideband_reqs.simps
    by (rule unpublished_obind [OF unpublished_req [OF Cons.prems]], rule unpublished_obind [OF Cons.IH]) simp_all
qed simp

lemma unpublished_recall:
  assumes "unpublished b s"
  shows "unpublished b (snd (lift_eng f d s))"
proof (cases "eng s")
  case (Some e)
  obtain r e' where "f e = (r, e')" by (cases "f e")
  with Some assms show ?thesis by (simp add: lift_eng_def unpublished_def)
qed (use assms in \<open>simp add: lift_eng_def\<close>)

lemma publish_fails: "unpublished b s \<Longrightarrow> publish s = (Inl AttributeError, s)"
  by (auto simp: unpublished_def publish_def obind_def lift_cap_def refresh_col_to_cell_def split: option.split)

lemma unpublished_remap: "unpublished b s \<Longrightarrow> unpublished b (on_cap (remap_index_page_table e due) s)"
  unfolding on_cap_def by (erule unpublished_cap) (auto simp: remap_index_page_table_def split: option.splits)

lemma publish_after:
  assumes "unpublished b s"
  shows "unpublished b (snd (publish (if Q then on_engine f s else s))) \<and> (\<exists>x. fst (publish (if Q then on_engine f s else s)) = Inl x)"
proof -
  have "unpublished b (if Q then on_engine f s else s)" using assms unpublished_engine by simp
  from publish_fails [OF this] this show ?thesis by simp
qed

lemma unpublished_work:
  assumes "unpublished b s"
  shows "unpublished b (snd (sideband_work fn h jb s)) \<and> (\<exists>x. fst (sideband_work fn h jb s) = Inl x)"
proof -
  let ?s = "on_engine (\<lambda>e. snd (get_and_reset_remap_miss e)) s"
  obtain r1 t1 where r1: "sideband_reqs fn h jb (j_due jb) ?s = (r1, t1)" by fastforce
  have t1: "unpublished b t1" using unpublished_reqs [OF unpublished_engine [OF assms]] r1 by (metis snd_conv)
  show ?thesis
  proof (cases r1)
    case (Inl x)
    then show ?thesis using t1 by (simp add: sideband_work_def r1 obind_def)
  next
    case (Inr kept)
    obtain r2 t2 where r2: "(if concat kept = [] then (Inr 0, t1) else lift_eng (recall_resident_global (concat kept)) 0 t1) = (r2, t2)"
      by fastforce
    have t2: "unpublished b t2" using r2 t1 unpublished_recall [OF t1] by (metis snd_conv)
    show ?thesis
    proof (cases r2)
      case (Inl x)
      show ?thesis unfolding sideband_work_def r1 Inr obind_def prod.case sum.case r2 Inl using t2 by simp
    next
      case r2r: (Inr n)
      have "unpublished b (if P then (case eng t2 of None \<Rightarrow> t2 | Some e \<Rightarrow> on_cap (remap_index_page_table e (j_due jb)) t2) else t2)" for P
        using t2 by (auto intro: unpublished_remap split: option.split)
      then show ?thesis
        unfolding sideband_work_def r1 Inr obind_def prod.case sum.case r2 r2r Let_def by (rule publish_after)
    qed
  qed
qed

subsection \<open>Runs with both switches\<close>

text \<open>With counts of zero the invariant survives the turnover of rows and the request boundary too,
  which only ever write zeros, and so every step of the system.\<close>

lemma unpublished_same:
  assumes "unpublished b s" "rows (f (cap s)) = rows (cap s)" "cap_page_recall (f (cap s)) = cap_page_recall (cap s)"
    "score_resident (f (cap s)) = score_resident (cap s)" "fused_remap (f (cap s)) = fused_remap (cap s)"
    "max_bs (f (cap s)) = max_bs (cap s)" "col_to_cell_buf (f (cap s)) = col_to_cell_buf (cap s)"
  shows "unpublished b (on_cap f s)"
  unfolding on_cap_def by (rule unpublished_cap) (use assms in simp_all)

lemma unpublished_clear:
  assumes "unpublished b s" "\<forall>r. resident_count_buf b r = 0"
  shows "unpublished b (on_cap (clear_rows P) s)"
proof -
  obtain b0 where b0: "rows (cap s) = Some b0" "resident_count_buf b0 = resident_count_buf b" using assms(1) by (auto simp: unpublished_def)
  have z: "(\<lambda>r. if P r then 0 else resident_count_buf b0 r) = resident_count_buf b0" using assms(2) b0(2) by (simp add: fun_eq_iff)
  show ?thesis unfolding on_cap_def
    by (rule unpublished_cap [OF assms(1)]) (use assms(1) b0(1) z in \<open>simp_all add: clear_rows_def unpublished_def\<close>)
qed

lemma restart_page_fields [simp]:
  "cap_page_recall (fold (restart_row ids) bis c) = cap_page_recall c" "score_resident (fold (restart_row ids) bis c) = score_resident c"
  "col_to_cell_buf (fold (restart_row ids) bis c) = col_to_cell_buf c"
  by (induction bis arbitrary: c) (simp_all add: restart_row_def restart_req_def Let_def)

lemma unpublished_join: "unpublished b s \<Longrightarrow> unpublished b (join_recall fn s)"
proof (cases "recall_job s"; cases "cap_hook (cap s)")
  fix jb h assume u: "unpublished b s" and j: "recall_job s = Some jb" "cap_hook (cap s) = Some h"
  have "unpublished b (s\<lparr>recall_job := None\<rparr>)" using u by (simp add: unpublished_def)
  then have "unpublished b (snd (sideband_work fn h jb (s\<lparr>recall_job := None\<rparr>)))" using unpublished_work by blast
  from unpublished_same [OF this] show ?thesis using j by (simp add: join_recall_def)
qed (simp_all add: join_recall_def)

lemma unpublished_turnover:
  assumes "unpublished b s" "\<forall>r. resident_count_buf b r = 0"
  shows "unpublished b (reset_changed_rows ids B s)"
proof -
  obtain b0 where b0: "rows (cap s) = Some b0" using assms(1) by (auto simp: unpublished_def)
  have clear: "unpublished b (on_cap (clear_rows P) (on_engine f t))" if "unpublished b t" for P f t
    by (rule unpublished_clear [OF unpublished_engine [OF that] assms(2)])
  have restart: "unpublished b (on_cap (\<lambda>c. fold (restart_row ids) ch (clear_rows P c)) (on_engine f t))" if "unpublished b t" for ch P f t
    using unpublished_same [OF clear [OF that, of P f], of "fold (restart_row ids) ch"] by (simp add: on_cap_def)
  have valid: "unpublished b (on_cap refresh_valid_mask t)" if "unpublished b t" for t
    by (rule unpublished_same [OF that]) (simp_all add: refresh_valid_mask_def split: option.split)
  have prev: "unpublished b (on_cap (\<lambda>c. c\<lparr>prev_row_occupant := x\<rparr>) t)" if "unpublished b t" for t x
    by (rule unpublished_same [OF that]) simp_all
  show ?thesis
    unfolding reset_changed_rows_def b0 option.case Let_def
    by (intro prev) (simp add: assms(1) clear restart valid)
qed

lemma unpublished_begin:
  assumes "unpublished b s" "\<forall>r. resident_count_buf b r = 0"
  shows "unpublished b (on_forward_begin fn is_decode ids s)"
proof -
  have "unpublished b (on_cap (\<lambda>c. c\<lparr>cached_req_ids := Some ids\<rparr>) (join_recall fn s))"
    by (rule unpublished_same [OF unpublished_join [OF assms(1)]]) simp_all
  note u = unpublished_turnover [OF unpublished_engine [OF this] assms(2)]
  show ?thesis unfolding on_forward_begin_def Let_def using assms(1) u by simp
qed

lemma due_page_fields [simp]:
  "rows (snd (due_loop k ris c)) = rows c" "cap_page_recall (snd (due_loop k ris c)) = cap_page_recall c"
  "score_resident (snd (due_loop k ris c)) = score_resident c" "fused_remap (snd (due_loop k ris c)) = fused_remap c"
  "max_bs (snd (due_loop k ris c)) = max_bs c" "col_to_cell_buf (snd (due_loop k ris c)) = col_to_cell_buf c"
  by (induction ris arbitrary: k c) (simp_all add: advance_req_def split_beta)

lemma unpublished_due:
  assumes "unpublished b s" "forward_due ids (cap s) = (req_ids, due, c)"
  shows "unpublished b (s\<lparr>cap := c\<rparr>)"
  using assms(2)
  by (intro unpublished_cap [OF assms(1)])
    (auto simp: forward_due_def Let_def split: option.splits if_splits prod.splits dest!: arg_cong [where f = snd])

lemma unpublished_end:
  assumes "unpublished b s"
  shows "unpublished b (snd (on_forward_end fn score is_decode ids s))"
proof (cases "cap_hook (cap s)"; cases "page_table_buf (cap s)")
  fix h pt assume hp: "cap_hook (cap s) = Some h" "page_table_buf (cap s) = Some pt"
  obtain req_ids due c where fd: "forward_due ids (cap s) = (req_ids, due, c)" by (metis prod_cases3)
  note u = unpublished_due [OF assms fd]
  have j: "unpublished b ((join_recall fn (s\<lparr>cap := c\<rparr>))\<lparr>recall_job := x\<rparr>)" for x
    using unpublished_join [OF u, of fn] by (simp add: unpublished_def)
  have w: "unpublished b (snd (obind (sideband_work fn h jb (s\<lparr>cap := c\<rparr>)) (\<lambda>_ s2. (Inr (), on_cap (\<lambda>c. c\<lparr>cycle_count := cycle_count c + 1\<rparr>) s2))))" for jb
    by (rule unpublished_obind) (use unpublished_work [OF u] in \<open>simp_all add: unpublished_same\<close>)
  show ?thesis unfolding on_forward_end_def hp option.case prod.case fd Let_def using assms u w j by simp
qed (use assms in \<open>simp_all add: on_forward_end_def\<close>)

lemma unpublished_boundary:
  assumes "unpublished b s" "\<forall>r. resident_count_buf b r = 0"
  shows "unpublished b (snd (reset_req_residency ids pt seql s))"
proof -
  have one: "unpublished b (snd (reset_req pt r t))" if t: "unpublished b t" for r t
  proof -
    obtain bi ri n where r: "r = (bi, ri, n)" by (metis prod_cases3)
    obtain b0 where b0: "rows (cap t) = Some b0" "resident_count_buf b0 = resident_count_buf b" using t by (auto simp: unpublished_def)
    have z: "(resident_count_buf b)(bi := 0) = resident_count_buf b" using assms(2) by (simp add: fun_eq_iff)
    show ?thesis
      unfolding reset_req_def r prod.case Let_def using t b0(1)
      by (auto simp: restart_req_def Let_def unpublished_def z)
  qed
  have "unpublished b t \<Longrightarrow> unpublished b (snd (reset_reqs pt rs t))" for rs t
    by (induction rs arbitrary: t) (auto intro!: unpublished_obind one)
  moreover have "unpublished b (on_cap (\<lambda>c. c\<lparr>cached_req_ids := None\<rparr>) s)" by (rule unpublished_same [OF assms(1)]) simp_all
  ultimately show ?thesis by (simp add: reset_req_residency_def)
qed

lemma unpublished_step:
  assumes "sys_step fn s t" "unpublished b s" "\<forall>r. resident_count_buf b r = 0"
  shows "unpublished b t"
  using assms
proof (induction rule: sys_step.induct)
  case (sys_graph s e e')
  then show ?case by (simp add: unpublished_def)
next
  case (sys_capture s clid batch pt seql)
  then show ?case by (intro unpublished_same) (simp_all add: capture_side_band_inputs_def capture_meta_def Let_def split: option.split)
next
  case (sys_scatter s locs keep)
  then show ?case by (intro unpublished_same) (simp_all add: scatter_resident_def)
next
  case (sys_all s)
  then show ?case by (intro unpublished_same) (simp_all add: reset_all_resident_def)
next
  case (sys_prebuild s p)
  then show ?case
    by (intro unpublished_same)
      (auto simp: prebuild_for_capture_def unpublished_def ensure_page_recall_buffers_def refresh_valid_mask_def)
qed (simp_all add: unpublished_begin unpublished_end unpublished_join unpublished_boundary)

text \<open>C33: Page recall and fused remap exclude each other: the buffers of the page path have no
  column-to-cell table. With both switches on, once \<open>prebuild_for_capture\<close> has built the buffers, after
  any run of the system (hooks around forwards, background side bands, request boundaries, captures and
  calls on the engine) the count of every row is still zero, so the indexer never sees a selection, and
  every further side band, whatever it finds due and scored, raises before it publishes.\<close>

theorem fused_page_never_publishes:
  assumes "cap_page_recall (cap s)" "score_resident (cap s)" "fused_remap (cap s)" "0 < max_bs (cap s)"
    and "rows (cap s) = None" "col_to_cell_buf (cap s) = None" "eng s = Some e"
    and "sys_run fn (on_cap (prebuild_for_capture True) s) t"
  shows "(\<exists>b. rows (cap t) = Some b \<and> (\<forall>bi. resident_count_buf b bi = 0)) \<and> (\<forall>h jb. \<exists>x. fst (sideband_work fn h jb t) = Inl x)"
proof -
  let ?s = "on_cap (prebuild_for_capture True) s"
  obtain b where b: "rows (cap ?s) = Some b" "\<forall>bi. resident_count_buf b bi = 0"
    using assms(1,2,5) by (simp add: prebuild_for_capture_def ensure_page_recall_buffers_def refresh_valid_mask_def)
  have u: "unpublished b ?s" using assms(1-7) b
    by (simp add: unpublished_def prebuild_for_capture_def ensure_page_recall_buffers_def refresh_valid_mask_def)
  from assms(8) u have "unpublished b t"
    by (induction rule: sys_run.induct) (use unpublished_step b(2) in blast)+
  then show ?thesis using unpublished_work b(2) by (auto simp: unpublished_def)
qed

text \<open>A capturer with both switches, the engine of the page mode and one decode forward.\<close>

theorem fused_page_never_publishes_witness:
  "let t = snd (on_forward_end small_fns (\<lambda>l bi n. small_scores l) True [1]
        (on_forward_begin small_fns True [1] (on_cap (prebuild_for_capture True) (small_sys\<lparr>cap := small_cap\<lparr>fused_remap := True, page_table_buf := Some [[3, 1]]\<rparr>\<rparr>))))
   in \<exists>b. rows (cap t) = Some b \<and> resident_count_buf b 0 = 0"
proof -
  let ?s = "small_sys\<lparr>cap := small_cap\<lparr>fused_remap := True, page_table_buf := Some [[3, 1]]\<rparr>\<rparr>"
  have "eng ?s = Some (small_engine True)" by (simp add: small_sys_def)
  from fused_page_never_publishes [OF _ _ _ _ _ _ this sys_next [OF sys_next [OF sys_refl sys_begin] sys_end]]
  show ?thesis by (simp add: Let_def) blast
qed

end
