(* ===== verification/Wiring.thy ===== *)
theory Wiring
  imports PageSelect
begin

section \<open>How the server drives the engine\<close>

text \<open>
  The call sites of the swap engine and the capturer: the sizing of the reserve where the pools are
  built (\<open>model_runner_kv_cache_mixin.py\<close>), the c4 store of the compressor and the index-K store
  (\<open>compressor.py\<close>), the recall and remap before attention (\<open>deepseek_v4_backend_radix.py\<close>), the
  admission of a transferred request (\<open>disaggregation/decode.py\<close>) and the hooks around a forward
  (\<open>model_runner.py\<close>). A forward of one batch is the composition of these in the order of the code.
\<close>

subsection \<open>Sizing\<close>

record size_env =
  env_pd_reserve_tokens :: int
  env_target_concurrency :: int
  env_dec_chunks :: int
  env_dec_conc :: int

definition target_conc :: "size_env \<Rightarrow> int" where
  "target_conc sz = (if env_target_concurrency sz \<noteq> 0 then env_target_concurrency sz else env_dec_conc sz)"

text \<open>\<open>_auto_chunks\<close> and the reserve in the unit of \<open>SGLANG_PD_RESERVE_TOKENS\<close>.\<close>

definition auto_chunks :: "size_env \<Rightarrow> cap_env \<Rightarrow> int \<Rightarrow> int" where
  "auto_chunks sz env c4_page_sz =
     (let kmax = resolve_page_kmax (env_kmax_ratio env) (env_page_kmax env) (env_target_context env) c4_page_sz;
          recall_chunks = kmax * c4_page_sz * target_conc sz;
          decode_chunks = env_dec_chunks sz * env_dec_conc sz
      in recall_chunks + decode_chunks + 2 * c4_page_sz)"

definition reserve_tok :: "size_env \<Rightarrow> cap_env \<Rightarrow> int \<Rightarrow> int" where
  "reserve_tok sz env c4_page_sz =
     (let tok = env_pd_reserve_tokens sz;
          auto_tok = auto_chunks sz env c4_page_sz * 4
      in if 0 < env_kmax_ratio env \<and> tok < auto_tok then auto_tok else tok)"

definition reserve_pages_of :: "int \<Rightarrow> int \<Rightarrow> int" where
  "reserve_pages_of c4_page_sz tok = (if 0 < tok then (tok + c4_page_sz - 1) div c4_page_sz else 0)"

text \<open>\<open>self.page_size\<close> is 256 for this model; the c4 page is a quarter of it.\<close>

definition attach_engine ::
  "size_env \<Rightarrow> cap_env \<Rightarrow> envs \<Rightarrow> (nat \<Rightarrow> buf) \<Rightarrow> int \<Rightarrow> int \<Rightarrow> int \<Rightarrow> int list \<Rightarrow> int \<Rightarrow> int \<Rightarrow> engine" where
  "attach_engine sz env e_env pool pool_rows logical_size page_size compression_ratios nope rope =
     (let c4_page_sz = page_size div 4;
          layers = length (filter (\<lambda>r. r = 4) compression_ratios);
          n_pages = (logical_size + c4_page_sz - 1) div c4_page_sz
      in init_engine e_env pool pool_rows n_pages layers nope rope
           (reserve_pages_of c4_page_sz (reserve_tok sz env c4_page_sz)))"


subsection \<open>Stores\<close>

datatype forward_mode = EXTEND | DECODE | MIXED | IDLE | TARGET_VERIFY | DRAFT_EXTEND | DRAFT_EXTEND_V2 | PREBUILT
  | SPLIT_PREFILL | DLLM_EXTEND

text \<open>\<open>forward_core_compressor\<close> with an engine, for a c4 layer; the rows carry the request, the
  location and the sequence length, and \<open>p\<close> is the quantised pack.\<close>

definition store_c4 ::
  "capturer option \<Rightarrow> forward_mode \<Rightarrow> nat \<Rightarrow> (int \<times> int \<times> int option) list \<Rightarrow> pack \<Rightarrow> engine \<Rightarrow> (unit, engine) outcome" where
  "store_c4 rmc mode l rws p e =
     (if mode = IDLE then (Inr (), e)
      else if mode = DECODE then
        if rmc \<noteq> None then store_decode_to_reserve l rws p e
        else store_decode l (map (\<lambda>(ri, loc, sl). loc) rws) p e
      else store_prefill_to_mirror l (map (\<lambda>(ri, loc, sl). loc) rws) p e)"

text \<open>\<open>forward_indexer_compressor\<close>: whether the native store of the index key is skipped, and the
  store into the reserve.\<close>

definition index_offloaded :: "nat \<Rightarrow> engine \<Rightarrow> bool" where
  "index_offloaded l e \<longleftrightarrow> index_k_offload e \<and> l < c4_layer_num e \<and> index_reserve_buf e l \<noteq> None"

definition store_index ::
  "forward_mode \<Rightarrow> nat \<Rightarrow> int list \<Rightarrow> (byte list \<times> byte list) list \<Rightarrow> engine \<Rightarrow> bool \<times> (unit, engine) outcome" where
  "store_index mode l c4_out_loc ks e =
     (if index_offloaded l e \<and> mode = DECODE then (False, store_index_decode_to_reserve l c4_out_loc ks e)
      else (True, (Inr (), e)))"


subsection \<open>Recall and remap before attention\<close>

definition fused_active :: "capturer \<Rightarrow> bool" where
  "fused_active c \<longleftrightarrow> fused_remap c \<and> score_resident c \<and> resident_kv_scratch c \<noteq> None \<and> col_to_cell_buf c \<noteq> None"

text \<open>The indices attention gets, for one c4 layer.\<close>

definition attend_c4 :: "capturer option \<Rightarrow> forward_mode \<Rightarrow> nat \<Rightarrow> int list \<Rightarrow> engine \<Rightarrow> (int list, engine) outcome" where
  "attend_c4 rmc mode l sel e =
     (case rmc of
        Some c \<Rightarrow>
          if mode = DECODE then
            if fused_active c then (Inr sel, e)
            else (case remap_compressed_locs e l sel of (cells, e1) \<Rightarrow> (Inr cells, e1))
          else
            (case recall_chunks l sel e of
               (Inl x, e1) \<Rightarrow> (Inl x, e1)
             | (Inr _, e1) \<Rightarrow> (case remap_compressed_locs e1 l sel of (cells, e2) \<Rightarrow> (Inr cells, e2)))
      | None \<Rightarrow>
          (case recall_chunks l sel e of
             (Inl x, e1) \<Rightarrow> (Inl x, e1)
           | (Inr _, e1) \<Rightarrow> (case remap_compressed_locs e1 l sel of (cells, e2) \<Rightarrow> (Inr cells, e2))))"


subsection \<open>Admission\<close>

text \<open>\<open>full_locs\<close> are the locations of the prompt in \<open>req_to_token\<close>; what a call raises is swallowed.
  With an own reserve the transfer has written the pages into the mirror.\<close>

definition prompt_pages :: "int list \<Rightarrow> int list" where
  "prompt_pages full_locs = unique (map (\<lambda>loc. loc div 4 div C4_PAGE_SIZE) full_locs)"

definition admit :: "bool \<Rightarrow> int \<Rightarrow> int list \<Rightarrow> engine \<Rightarrow> engine" where
  "admit reset_recall req_pool_idx full_locs e =
     (let pages = prompt_pages full_locs
      in if own_reserve e then
           let e1 = snd (discard_copied_pages pages e);
               e2 = (if reset_recall then reset_recall_state e1 else e1)
           in register_decode_req req_pool_idx (int (length full_locs) div 4) 4096 e2
         else snd (ingest_transferred_history pages e))"

end
