(* ===== verification/WiringProps.thy ===== *)
theory WiringProps
  imports Wiring
begin

section \<open>What the wiring guarantees\<close>

text \<open>
  The sizing leaves room for the selections of the target concurrency; a transferred request is
  recalled in full after its admission when the lookup table is the authority, and can stay
  unreadable when it is not; a synchronous side band delivers what it selects.
\<close>

subsection \<open>Sizing\<close>

text \<open>C35: The automatic sizing of the reserve is enough: with the ratio switch the engine that
  \<open>init_memory_pool\<close> attaches is well formed and its recall region has a block for every page of the
  budget of every request of the target concurrency. It takes the sum of its regions in tokens, four
  per chunk, but divides by chunks per page, so the region is in fact about four times that size.\<close>

theorem auto_reserve_fits:
  assumes "0 < env_kmax_ratio env" "0 < target_conc sz" "0 \<le> env_dec_chunks sz" "0 \<le> env_dec_conc sz"
    and "env_decode_resident_chunks e_env = env_dec_chunks sz" "env_decode_max_conc e_env = env_dec_conc sz"
    and "0 \<le> logical_size"
    and "e = attach_engine sz env e_env pool pool_rows logical_size 256 ratios 448 64"
    and "kmax = resolve_page_kmax (env_kmax_ratio env) (env_page_kmax env) (env_target_context env) 64"
  shows "cfg_ok e \<and> own_reserve e \<and> kmax * target_conc sz \<le> recall_cell_capacity e div 64
    \<and> 4 * auto_chunks sz env 64 \<le> cell_capacity e"
proof -
  let ?K = "kmax * target_conc sz"
  have k1: "1 \<le> kmax" using assms(1) by (simp add: assms(9) resolve_page_kmax_def)
  have ac: "auto_chunks sz env 64 = 64 * ?K + env_dec_chunks sz * env_dec_conc sz + 128"
    by (simp add: auto_chunks_def assms(9) Let_def)
  have dec: "0 \<le> env_dec_chunks sz * env_dec_conc sz" using assms(3,4) by simp
  have K: "0 < ?K" using k1 assms(2) by simp
  let ?tok = "reserve_tok sz env 64"
  have tok: "4 * auto_chunks sz env 64 \<le> ?tok" using assms(1) by (simp add: reserve_tok_def Let_def)
  then have tok0: "0 < ?tok" using ac dec K by linarith
  have rp: "?tok \<le> 64 * reserve_pages_of 64 ?tok" using tok0 ceil_div(1) [of 64 ?tok] by (simp add: reserve_pages_of_def)
  have rp0: "0 < reserve_pages_of 64 ?tok" using rp tok0 by linarith
  have e: "e = init_engine e_env pool pool_rows ((63 + logical_size) div 64) (length (filter (\<lambda>r. r = 4) ratios)) 448 64 (reserve_pages_of 64 ?tok)"
    by (simp add: assms(8) attach_engine_def Let_def)
  have f: "reserve_pages e = reserve_pages_of 64 ?tok" "own_reserve e" "n_logical_pages e = (63 + logical_size) div 64"
    "row_bytes e = row_bytes_of 448 64" "decode_region e = env_dec_chunks sz * env_dec_conc sz"
    using rp0 by (simp_all add: e init_engine_def ensure_decode_tensors_def Let_def decode_region_def assms(5,6))
  have cap: "cell_capacity e = reserve_pages_of 64 ?tok * 64" by (simp add: cell_capacity_def f)
  have big: "4 * auto_chunks sz env 64 \<le> cell_capacity e" using tok rp cap by linarith
  have lt: "decode_region e < cell_capacity e" using big ac dec K f(5) by linarith
  have "64 * ?K \<le> recall_cell_capacity e"
    using big ac dec K f(5) by (simp add: recall_cell_capacity_def decode_base_def)
  then have "?K \<le> recall_cell_capacity e div 64" using zdiv_mono1 [of "64 * ?K" "recall_cell_capacity e" 64] by simp
  moreover have "cfg_ok e" using lt dec assms(7) by (simp add: cfg_ok_def f(3-5) row_bytes_of_def pos_imp_zdiv_nonneg_iff)
  ultimately show ?thesis using big f(2) by simp
qed

text \<open>An engine sized for one page per request and two requests.\<close>

definition small_size_env :: size_env where
  "small_size_env = \<lparr>env_pd_reserve_tokens = 0, env_target_concurrency = 2, env_dec_chunks = 1, env_dec_conc = 1\<rparr>"

theorem auto_reserve_fits_witness:
  "cfg_ok (attach_engine small_size_env (small_cap_env\<lparr>env_kmax_ratio := 1 / 2\<rparr>) (small_env True) (\<lambda>_ _. 0) 4 256 256 [4, 128, 4] 448 64)"
  using auto_reserve_fits [OF _ _ _ _ _ _ _ refl refl, of "small_cap_env\<lparr>env_kmax_ratio := 1 / 2\<rparr>" small_size_env "small_env True" 256]
  by (simp add: small_size_env_def small_env_def target_conc_def)


subsection \<open>Admission\<close>

lemma admit_own:
  assumes "own_reserve e"
  shows "admit rst ri full_locs e = register_decode_req ri (int (length full_locs) div 4) 4096
    (if rst then reset_recall_state (snd (discard_copied_pages (prompt_pages full_locs) e)) else snd (discard_copied_pages (prompt_pages full_locs) e))"
  using assms by (simp add: admit_def Let_def)

lemma admit_sizes: "own_reserve e \<Longrightarrow> sizes (admit rst ri full_locs e) = sizes e"
  by (simp add: admit_own register_sizes discard_sizes reset_sizes)

lemma admit_unmaps:
  assumes "own_reserve e" "x div 64 \<in> set (prompt_pages full_locs)" "0 \<le> x" "x < n_logical_pages e * 64"
  shows "unmapped (admit rst ri full_locs e) x"
proof -
  have "unmapped (snd (discard_copied_pages (prompt_pages full_locs) e)) x" by (rule unmapped_discard) (use assms in simp_all)
  moreover have "unmapped (reset_recall_state y) x" for y by (simp add: unmapped_def reset_recall_state_def)
  ultimately show ?thesis unfolding admit_own [OF assms(1)] unmapped_register by simp
qed

lemma admit_mirror: "own_reserve e \<Longrightarrow> host_mirror (admit rst ri full_locs e) = host_mirror e"
  by (simp add: admit_own register_decode_req_def ensure_decode_tensors_def discard_copied_pages_def reset_recall_state_def lut_clear_all_def Let_def)

text \<open>The first chunk of a page of the prompt is unmapped too, so the page is missing.\<close>

lemma admit_missing:
  assumes "own_reserve e" "c \<in> set locs" "0 \<le> c" "c < n_logical_pages e * 64" "c div 64 \<in> set (prompt_pages full_locs)"
  shows "c div 64 \<in> set (missing_pages (admit rst ri full_locs e) locs)"
proof -
  let ?e = "admit rst ri full_locs e"
  have p: "0 \<le> c div 64" "c div 64 * 64 \<le> c" using assms(3) by (simp_all add: div_times_less_eq_dividend)
  have "unmapped ?e (c div 64 * 64)" by (rule admit_unmaps [OF assms(1)]) (use assms(4,5) p in simp_all)
  moreover have "clamp_col ?e (c div 64 * 64) = c div 64 * 64"
    unfolding same_sizes(12) [OF admit_sizes [OF assms(1)]] using p assms(4)
    by (simp add: clamp_col_def lut_cols_def C4_PAGE_SIZE_def)
  moreover have "c div 64 \<in> set (selected_pages locs)" using assms(2) p(1) by (auto simp: selected_pages_def)
  ultimately show ?thesis by (simp add: missing_pages_def unmapped_def)
qed

text \<open>The transfer breaks the invariant on the pages it writes; the admission restores it.\<close>

lemma admit_inv:
  assumes "page_inv e" "own_reserve e"
    and "\<And>l a. a div row_bytes e \<notin> set (pages_in_range e (prompt_pages full_locs)) \<Longrightarrow> m l a = host_mirror e l a"
  shows "page_inv (admit rst ri full_locs (e\<lparr>host_mirror := m\<rparr>))"
proof -
  let ?x = "snd (discard_copied_pages (prompt_pages full_locs) (e\<lparr>host_mirror := m\<rparr>))"
  have x: "page_inv ?x" by (rule page.inv_transfer [OF assms(1,3)])
  then have "page_inv (reset_recall_state ?x)" by (intro reset_keeps) (simp add: path_inv_def)
  with x show ?thesis using assms(2) by (simp add: admit_own page.inv_register)
qed

text \<open>C19: A transferred request is readable after its first recall, whatever its reused pages held
  and mapped before. In the page mode with its own reserve and the lookup table as the authority, take
  any state of the engine that satisfies the invariant, let the transfer write new rows for pages of
  the prompt into the mirror, and admit the request, with or without the reset of the allocator that
  \<open>SGLANG_PATHP_RESET_RECALL_PER_REQ\<close> asks for. Then a recall of any selection of chunks of the
  prompt's pages that fits the recall region does not raise and makes every selected chunk readable
  in every layer with the transferred bytes.\<close>

theorem admitted_request_recalled:
  assumes "page_inv e" "own_reserve e" "page_recall e" "lut_truth e"
    and "\<And>l a. a div row_bytes e \<notin> set (pages_in_range e (prompt_pages full_locs)) \<Longrightarrow> m l a = host_mirror e l a"
    and "\<And>c. c \<in> set locs \<Longrightarrow> 0 \<le> c \<and> c < n_logical_pages e * 64 \<and> c div 64 \<in> set (prompt_pages full_locs)"
    and "length (selected_pages locs) \<le> nat (recall_cell_capacity e div 64)"
    and "recall_resident_global locs (admit rst ri full_locs (e\<lparr>host_mirror := m\<rparr>)) = (res, e')"
  shows "(\<exists>n. res = Inr n) \<and> (\<forall>l. \<forall>c \<in> set locs. 0 \<le> remap_loc e' l c \<and> remap_loc e' l c < decode_base e
    \<and> chunk_bytes (row_bytes e) (reserve_buf e' l) (remap_loc e' l c) = chunk_bytes (row_bytes e) (m l) c)"
proof -
  let ?t = "e\<lparr>host_mirror := m\<rparr>" and ?e = "admit rst ri full_locs (e\<lparr>host_mirror := m\<rparr>)"
  have own: "own_reserve ?t" "sizes ?t = sizes e" using assms(2) by (simp_all add: sizes_def)
  have inv: "page_inv ?e" by (rule admit_inv [OF assms(1,2,5)])
  note sz = same_sizes [OF trans [OF admit_sizes [OF own(1), of rst ri full_locs] own(2)]]
  have fit: "length (selected_pages locs) \<le> nat (recall_cell_capacity ?e div 64)" using assms(7) by (simp add: sz)
  have lt: "lut_truth ?e" using assms(4) by (simp add: sz)
  have rec: "recall_global_pages locs ?e = (res, e')" using assms(3,8) by (simp add: recall_resident_global_def sz)
  have "\<exists>n. res = Inr n" by (rule recall_complete(1) [OF inv lt fit rec])
  moreover have "0 \<le> remap_loc e' l c \<and> remap_loc e' l c < decode_base e
    \<and> chunk_bytes (row_bytes e) (reserve_buf e' l) (remap_loc e' l c) = chunk_bytes (row_bytes e) (m l) c"
    if c: "c \<in> set locs" for l c
  proof -
    note b = assms(6) [OF c]
    have "unmapped ?e c" by (rule admit_unmaps [OF own(1)]) (use b in simp_all)
    moreover have "0 \<le> decode_base e" by (simp add: decode_base_def)
    ultimately have d: "own_reserve ?e \<longrightarrow> chunk_cell_lut ?e 0 c < decode_base ?e" by (simp add: unmapped_def sz)
    have m: "c div 64 \<in> set (missing_pages ?e locs)" by (rule admit_missing [OF own(1) c]) (use b in simp_all)
    have n: "c < n_logical_pages ?e * 64" using b by (simp add: sz)
    show ?thesis using recall_readable [OF inv lt fit rec m n d, of l] by (simp add: sz admit_mirror [OF own(1)])
  qed
  ultimately show ?thesis by blast
qed

text \<open>Page 0 is mapped for an earlier request when the transfer writes ones over its row.\<close>

definition ones_row :: "nat \<Rightarrow> buf" where
  "ones_row l a = (if a div row_bytes small_mapped = 0 then 1 else host_mirror small_mapped l a)"

theorem admitted_request_recalled_witness:
  "resident small_mapped 1 5 \<and> (let e' = snd (recall_resident_global [5] (admit False 3 [20, 21, 22, 23] (small_mapped\<lparr>host_mirror := ones_row\<rparr>)))
     in chunk_bytes (row_bytes small_mapped) (reserve_buf e' 1) (remap_loc e' 1 5) = chunk_bytes (row_bytes small_mapped) (ones_row 1) 5)"
proof -
  have sz: "sizes small_mapped = sizes (small_engine True)" by (simp add: small_mapped_def small_owned_def sizes_def)
  note f = same_sizes [OF sz]
  have pg: "prompt_pages [20, 21, 22, 23] = [0]" by (simp add: prompt_pages_def unique_def)
  have "resident small_mapped 1 5" by (simp add: resident_def f) (simp add: small_mapped_def)
  moreover have "ones_row l a = host_mirror small_mapped l a" if "a div row_bytes small_mapped \<notin> set (pages_in_range small_mapped [0])" for l a
    using that by (simp add: ones_row_def pages_in_range_def unique_def f)
  ultimately show ?thesis
    using admitted_request_recalled [OF small_mapped_inv _ _ _ _ _ _ prod.collapse [symmetric], of "[20, 21, 22, 23]" ones_row "[5]" False 3]
    by (simp add: pg f Let_def selected_pages_def unique_def)
qed

lemma p_place_stale:
  assumes "\<not> lut_truth e" "\<And>pg. pg \<in> set pgs \<Longrightarrow> od_get (g_page_to_block e) pg \<noteq> None"
  shows "\<exists>e'. p_place prot pgs e = (Inr [], e') \<and> chunk_cell_lut e' = chunk_cell_lut e \<and> n_logical_pages e' = n_logical_pages e"
  using assms
proof (induction pgs arbitrary: e)
  case (Cons pg pgs)
  let ?e = "e\<lparr>g_page_to_block := od_move_to_end pg (g_page_to_block e)\<rparr>"
  obtain blk where blk: "od_get (g_page_to_block e) pg = Some blk" using Cons.prems(2) [of pg] by auto
  have "\<exists>e'. p_place prot pgs ?e = (Inr [], e') \<and> chunk_cell_lut e' = chunk_cell_lut ?e \<and> n_logical_pages e' = n_logical_pages ?e"
  proof (rule Cons.IH)
    show "od_get (g_page_to_block ?e) q \<noteq> None" if "q \<in> set pgs" for q
      using Cons.prems(2) [of q] that by (simp add: od_get_move)
  qed (use Cons.prems(1) in simp)
  moreover have "p_place prot (pg # pgs) e = p_place prot pgs ?e" using blk Cons.prems(1) by (simp add: Let_def)
  ultimately show ?case by simp
qed simp

text \<open>Without the switch that makes the table the authority (\<open>SGLANG_PATHP_LUT_TRUTH\<close>, off by
  default), a request admitted on pages that the allocator still lists can never be recalled: the
  admission clears the table but not the allocator's map, the recall skips every listed page, and
  every chunk of the request stays masked in every layer.\<close>

theorem stale_pages_never_recalled:
  assumes "\<not> lut_truth e" "own_reserve e" "page_recall e"
    and "\<And>c. c \<in> set locs \<Longrightarrow> 0 \<le> c \<and> c < n_logical_pages e * 64 \<and> c div 64 \<in> set (prompt_pages full_locs)
           \<and> od_get (g_page_to_block e) (c div 64) \<noteq> None"
    and "recall_resident_global locs (admit False ri full_locs e) = (res, e')"
  shows "res = Inr 0 \<and> (\<forall>l. \<forall>c \<in> set locs. remap_loc e' l c = - 1)"
proof -
  let ?e = "admit False ri full_locs e"
  note sz = same_sizes [OF admit_sizes [OF assms(2), of False ri full_locs]]
  have p2b: "g_page_to_block ?e = g_page_to_block e"
    by (simp add: admit_own [OF assms(2)] register_decode_req_def ensure_decode_tensors_def discard_copied_pages_def lut_clear_all_def Let_def)
  have "od_get (g_page_to_block ?e) pg \<noteq> None" if "pg \<in> set (missing_pages ?e locs)" for pg
    using that assms(4) by (auto simp: missing_pages_def selected_pages_def p2b)
  then obtain e1 where d: "p_place (selected_pages locs) (missing_pages ?e locs) ?e = (Inr [], e1)"
    and e1: "chunk_cell_lut e1 = chunk_cell_lut ?e" "n_logical_pages e1 = n_logical_pages ?e"
    using p_place_stale [of ?e "missing_pages ?e locs" "selected_pages locs"] assms(1) unfolding sz by blast
  have "recall_global_pages locs ?e = (Inr 0, ?e) \<or> recall_global_pages locs ?e = (Inr 0, e1)"
    unfolding recall_global_pages_def Let_def selected_pages_def [symmetric] missing_pages_def [symmetric] d prod.case sum.case by simp
  moreover have "recall_global_pages locs ?e = (res, e')" using assms(3,5) by (simp add: recall_resident_global_def sz)
  ultimately have r: "res = Inr 0 \<and> chunk_cell_lut e' = chunk_cell_lut ?e \<and> n_logical_pages e' = n_logical_pages ?e"
    using e1 by auto
  moreover have "remap_loc e' l c = - 1" if "c \<in> set locs" for l c
  proof -
    have "unmapped ?e c" by (rule admit_unmaps [OF assms(2)]) (use assms(4) [OF that] in simp_all)
    then show ?thesis using r assms(4) [OF that]
      by (simp add: remap_loc_def unmapped_def clamp_col_def lut_cols_def C4_PAGE_SIZE_def Let_def sz)
  qed
  ultimately show ?thesis by blast
qed

theorem stale_pages_never_recalled_witness:
  "remap_loc (snd (recall_resident_global [5] (admit False 3 [20, 21, 22, 23] ((small_recalled True)\<lparr>lut_truth := False\<rparr>)))) 0 5 = - 1"
proof -
  let ?e = "(small_recalled True)\<lparr>lut_truth := False\<rparr>"
  have inv: "page_inv (small_recalled True)" and sz: "sizes (small_recalled True) = sizes (small_engine True)"
    using page_path.run_inv [OF small_recall(1) _ small_engine_inv(1)] by simp_all
  have "resident (small_recalled True) 0 5" by (rule small_resident) simp
  from resident_page_mapped [OF inv this] have p2b: "od_get (g_page_to_block ?e) (5 div 64) \<noteq> None" by simp
  have f: "own_reserve ?e" "page_recall ?e" "n_logical_pages ?e = 4" using same_sizes(2,4,16) [OF sz] by simp_all
  have pg: "prompt_pages [20, 21, 22, 23] = [0]" by (simp add: prompt_pages_def unique_def)
  have "res = Inr 0 \<and> (\<forall>l. \<forall>c \<in> set [5]. remap_loc e' l c = - 1)"
    if "recall_resident_global [5] (admit False 3 [20, 21, 22, 23] ?e) = (res, e')" for res e'
    by (rule stale_pages_never_recalled [OF _ f(1,2) _ that]) (use p2b in \<open>auto simp: f(3) pg\<close>)
  from this [OF prod.collapse [symmetric]] show ?thesis by simp
qed


subsection \<open>A side band delivers its selection\<close>

lemma obind_Inr [simp]: "obind (Inr v, s) f = f v s"
  by (simp add: obind_def)

text \<open>A capturer on the page path with room for its budget, and a job with one due row.\<close>

definition row_due :: "fns \<Rightarrow> hook \<Rightarrow> job \<Rightarrow> nat \<Rightarrow> nat \<Rightarrow> capturer \<Rightarrow> bool" where
  "row_due fn h jb bi n c \<longleftrightarrow>
     cap_page_recall c \<and> score_resident c \<and> rows c \<noteq> None \<and> bi < max_bs c \<and> c4_page_size c = 64 \<and> 0 \<le> page_kmax c \<and> page_kmax c \<le> int (resident_pages c)
     \<and> int (resident_buf c) = int (resident_pages c) * 64
     \<and> j_due jb = [bi] \<and> j_seql jb bi = int n \<and> 0 < n \<and> bi < length (j_page_table jb) \<and> row_ok c (j_page_table jb ! bi) n
     \<and> scores_ok h (req_scores h (j_score jb) bi n) n \<and> topk_ok (f_page_topk fn)"

text \<open>Moreover the fused remap and the reclaim of orphans are off, and no earlier side band has left
  counts that were not published.\<close>

definition row_ready :: "fns \<Rightarrow> hook \<Rightarrow> job \<Rightarrow> nat \<Rightarrow> nat \<Rightarrow> capturer \<Rightarrow> bool" where
  "row_ready fn h jb bi n c \<longleftrightarrow> row_due fn h jb bi n c \<and> \<not> fused_remap c \<and> \<not> reclaim_orphans c \<and> pending_count c = []"

text \<open>The locations such a row hands to the engine when the pages \<open>tops\<close> are selected.\<close>

definition handed_over :: "job \<Rightarrow> nat \<Rightarrow> nat \<Rightarrow> engine \<Rightarrow> capturer \<Rightarrow> nat list \<Rightarrow> int list" where
  "handed_over jb bi n e c tops =
     (let pc = prefill_chunks_of (Some e) (j_req_ids jb ! bi)
      in map (side_loc c (j_page_table jb ! bi)) (filter (\<lambda>j. page_of 64 j \<in> set tops \<and> (0 \<le> pc \<longrightarrow> int j < pc)) [0..<n]))"

lemma sideband_req_page:
  assumes r: "row_ready fn h jb bi n (cap s)" and e: "eng s = Some e"
  obtains tops b1 m e2 where "length tops \<le> nat (page_kmax (cap s))"
    "e2 = e \<or> e2 = record_owned_pages (j_req_ids jb ! bi) (Some (handed_over jb bi n e (cap s) tops)) e"
    "sideband_req fn h jb bi s = (Inr (handed_over jb bi n e (cap s) tops), s\<lparr>cap := (cap s)\<lparr>rows := Some b1,
       pending_count := [(bi, min (page_kmax (cap s)) (int (row_pages (cap s) n)) * 64)], resident_chunk_mask := m\<rparr>, eng := Some e2\<rparr>)"
    "{x \<in> set (resident_pool_loc_buf b1 bi). 0 \<le> x} = side_loc (cap s) (j_page_table jb ! bi) ` {j. j < n \<and> page_of 64 j \<in> set tops}"
proof -
  let ?c = "cap s" and ?pt = "j_page_table jb ! bi" and ?K = "min (page_kmax (cap s)) (int (row_pages (cap s) n)) * 64"
  obtain b where b: "rows ?c = Some b" using r by (auto simp: row_ready_def row_due_def)
  have q: "cap_page_recall ?c" "pending_count ?c = []" "c4_page_size ?c = 64" "j_seql jb bi = int n" "0 < n" using r by (simp_all add: row_ready_def row_due_def)
  have row: "row_ok ?c ?pt n" "bi < length (j_page_table jb)" using r by (simp_all add: row_ready_def row_due_def)
  have all: "list_all (\<lambda>l. \<exists>y. req_scores h (j_score jb) bi n l = Some y) (target_layers h)"
    using r by (auto simp: row_ready_def row_due_def scores_ok_def list_all_iff split: option.splits)
  have k: "topk_ok (f_page_topk fn)" "scores_ok h (req_scores h (j_score jb) bi n) n" "0 \<le> page_kmax ?c" "page_kmax ?c \<le> int (resident_pages ?c)"
    "int (resident_buf ?c) = int (resident_pages ?c) * c4_page_size ?c" using r by (simp_all add: row_ready_def row_due_def)
  show thesis
  proof (rule select_pages_effect [OF k(1) b row k(2-5), of "f_sigmoid fn"], goal_cases)
    case (1 tops locs b1)
    let ?keep = "map (\<lambda>j. page_of 64 j \<in> set tops) [0..<n]" and ?ks = "handed_over jb bi n e ?c tops"
    let ?pc = "prefill_chunks_of (Some e) (j_req_ids jb ! bi)" and ?c1 = "?c\<lparr>rows := Some b1, pending_count := [(bi, ?K)]\<rparr>"
    have sel: "lift_cap (\<lambda>c. select_resident_pages (f_page_topk fn) (f_sigmoid fn) h bi n (req_scores h (j_score jb) bi n)
        (j_page_table jb) (ensure_page_recall_buffers c)) s = (Inr ?keep, s\<lparr>cap := ?c1\<rparr>)"
      using 1(5) b q(2,3) by (simp add: lift_cap_def ensure_page_recall_buffers_def od_set_def od_mem_def)
    have row1: "row_ok ?c1 ?pt n" using row(1) by (simp add: row_ok_def row_pages_def)
    have loc: "side_loc ?c1 = side_loc ?c" by (simp add: side_loc_def fun_eq_iff)
    have fil: "filter (\<lambda>j. ?keep ! j \<and> (0 \<le> ?pc \<longrightarrow> int j < ?pc)) [0..<n]
        = filter (\<lambda>j. page_of 64 j \<in> set tops \<and> (0 \<le> ?pc \<longrightarrow> int j < ?pc)) [0..<n]" by (rule filter_cong) auto
    have "length ?keep = n" by simp
    from scatter_keep_effect [OF row1 row(2) this, of ?pc]
    obtain m where "scatter_logical_keep bi n ?keep (j_page_table jb) ?pc ?c1 = (Inr ?ks, ?c1\<lparr>resident_chunk_mask := m\<rparr>)"
      unfolding loc fil handed_over_def Let_def by blast
    then have sc: "lift_cap (scatter_logical_keep bi n ?keep (j_page_table jb) ?pc) (s\<lparr>cap := ?c1\<rparr>)
        = (Inr ?ks, s\<lparr>cap := ?c1\<lparr>resident_chunk_mask := m\<rparr>\<rparr>)" by (simp add: lift_cap_def)
    have cp: "cap_page_recall ?c1" using q(1) by simp
    have seql: "nat (j_seql jb bi) = n" "\<not> j_seql jb bi \<le> 0" using q(4,5) by simp_all
    have tidy: "s\<lparr>cap := x, eng := Some e\<rparr> = s\<lparr>cap := x\<rparr>" for x using e by (cases s) simp
    show ?case
    proof (rule that [where m = m])
      show "length tops \<le> nat (page_kmax ?c)" using 1(2) by simp
      show "(if ?ks \<noteq> [] \<and> owner_release e then record_owned_pages (j_req_ids jb ! bi) (Some ?ks) e else e) = e
          \<or> (if ?ks \<noteq> [] \<and> owner_release e then record_owned_pages (j_req_ids jb ! bi) (Some ?ks) e else e)
            = record_owned_pages (j_req_ids jb ! bi) (Some ?ks) e" by simp
      show "{x \<in> set (resident_pool_loc_buf b1 bi). 0 \<le> x} = side_loc ?c ?pt ` {j. j < n \<and> page_of 64 j \<in> set tops}"
        using selected_locs [OF row(1)] 1(4,6) q(3) by simp
    qed (simp add: sideband_req_def Let_def seql all q(1) sel cp e sc on_engine_def tidy)
  qed
qed

lemma selected_few:
  assumes "row_ok c pt n" "c4_page_size c = 64" "\<And>j. j < n \<Longrightarrow> P j \<Longrightarrow> page_of 64 j \<in> set tops"
  shows "length (selected_pages (map (side_loc c pt) (filter P [0..<n]))) \<le> length tops"
proof -
  let ?ks = "map (side_loc c pt) (filter P [0..<n])"
  have "side_loc c pt j div 64 = pt ! page_of 64 j" if "j < n" for j
    using side_loc_eq(1) [OF assms(1) that] by (simp add: assms(2) page_of_def)
  then have "set (selected_pages ?ks) \<subseteq> (!) pt ` set tops" using assms(3) by (auto simp: selected_pages_def)
  from card_mono [OF _ this] card_image_le [of "set tops" "(!) pt"] card_length [of tops]
  have "card (set (selected_pages ?ks)) \<le> length tops" by simp
  then show ?thesis by (simp add: distinct_card [OF missing_pages_selected(3)])
qed

text \<open>The bookkeeping before the recall leaves the allocator of the engine alone.\<close>

lemma bookkeeping_keeps:
  assumes "page_inv e" "e1 = snd (get_and_reset_remap_miss e)" "e2 = e1 \<or> e2 = record_owned_pages ri sel e1"
  shows "page_inv e2" "sizes e2 = sizes e" "host_mirror e2 = host_mirror e" "chunk_cell_lut e2 = chunk_cell_lut e"
proof -
  have "page_inv e1" unfolding assms(2) by (rule page.inv_irrelevant [OF assms(1)])
      (simp_all add: get_and_reset_remap_miss_def alloc_state_def sizes_def reserve_buf_def)
  then show "page_inv e2" using assms(3) record_owned_keeps by blast
  show "sizes e2 = sizes e" using assms(2,3) by (auto simp: record_sizes stats_sizes)
  show "host_mirror e2 = host_mirror e" "chunk_cell_lut e2 = chunk_cell_lut e" using assms(2,3)
    by (auto simp: get_and_reset_remap_miss_def record_owned_pages_def Let_def split: option.split)
qed

text \<open>Publishing after a recall: the row gets its pending count and keeps its locations.\<close>

lemma publish_row:
  assumes "score_resident (cap s)" "rows (cap s) = Some b" "bi < max_bs (cap s)" "\<not> fused_remap (cap s)"
    and "pending_count (cap s) = [(bi, K)]"
  shows "publish s = (Inr (), s\<lparr>cap := refresh_valid_mask (publish_pending_counts (cap s))\<rparr>)"
    and "\<exists>b'. rows (cap (snd (publish s))) = Some b' \<and> resident_count_buf b' bi = K \<and> resident_pool_loc_buf b' = resident_pool_loc_buf b"
  using assms by (simp_all add: publish_def on_cap_def publish_pending_counts_def refresh_valid_mask_def)

text \<open>The part of the side band after the selection, for a selection \<open>ks\<close> that fits.\<close>

lemma work_after_selection:
  assumes "j_due jb = [bi]" "sideband_req fn h jb bi (on_engine (\<lambda>e. snd (get_and_reset_remap_miss e)) s) = (Inr ks, s1)"
    and "eng s1 = Some e2" "page_inv e2" "lut_truth e2" "page_recall e2"
    and "length (selected_pages ks) \<le> nat (recall_cell_capacity e2 div 64)"
    and "score_resident (cap s1)" "rows (cap s1) = Some b" "bi < max_bs (cap s1)" "\<not> fused_remap (cap s1)" "\<not> reclaim_orphans (cap s1)"
    and "pending_count (cap s1) = [(bi, K)]"
  obtains e3 s' b' r where "sideband_work fn h jb s = (Inr (), s')" "eng s' = Some e3" "rows (cap s') = Some b'"
    "resident_count_buf b' bi = K" "resident_pool_loc_buf b' = resident_pool_loc_buf b"
    "ks \<noteq> [] \<Longrightarrow> recall_global_pages ks e2 = (r, e3)"
proof -
  let ?s0 = "on_engine (\<lambda>e. snd (get_and_reset_remap_miss e)) s"
  have reqs: "sideband_reqs fn h jb (j_due jb) ?s0 = (Inr [ks], s1)" by (simp add: assms(1,2))
  obtain r e' where rec: "recall_global_pages ks e2 = (r, e')" by fastforce
  obtain k where k: "r = Inr k" using recall_complete(1) [OF assms(4,5,7) rec] by blast
  define e3 where "e3 = (if ks = [] then e2 else e')"
  define s2 where "s2 = (if ks = [] then s1 else s1\<lparr>eng := Some e'\<rparr>)"
  have s2: "eng s2 = Some e3" "cap s2 = cap s1" using assms(3) by (simp_all add: s2_def e3_def)
  have step: "(if concat [ks] = [] then (Inr 0, s1) else lift_eng (recall_resident_global (concat [ks])) 0 s1)
      = (Inr (if ks = [] then 0 else k), s2)"
    using assms(3,6) by (simp add: s2_def lift_eng_def recall_resident_global_def rec k)
  define s3 where "s3 = (if cap_index_k_offload (cap s2) \<and> cap_page_recall (cap s2) then on_cap (remap_index_page_table e3 (j_due jb)) s2 else s2)"
  have s3: "eng s3 = Some e3" "score_resident (cap s3)" "rows (cap s3) = Some b" "bi < max_bs (cap s3)" "\<not> fused_remap (cap s3)"
    "\<not> reclaim_orphans (cap s3)" "pending_count (cap s3) = [(bi, K)]"
    using assms(8-13) s2 by (simp_all add: s3_def on_cap_def remap_index_page_table_def split: option.split)
  note pub = publish_row [OF s3(2-5,7)]
  have work: "sideband_work fn h jb s = publish s3"
    unfolding sideband_work_def reqs obind_Inr step Let_def s2(1) option.case s3_def [symmetric] using s3(6) by simp
  obtain b' where b': "rows (cap (snd (publish s3))) = Some b'" "resident_count_buf b' bi = K"
    "resident_pool_loc_buf b' = resident_pool_loc_buf b" using pub(2) by blast
  show thesis
  proof (rule that)
    show "sideband_work fn h jb s = (Inr (), snd (publish s3))" using work pub(1) by simp
    show "eng (snd (publish s3)) = Some e3" using pub(1) s3(1) by simp
    show "recall_global_pages ks e2 = (r, e3)" if "ks \<noteq> []" using rec that by (simp add: e3_def)
  qed (fact b')+
qed

lemma handed_over_few:
  assumes "row_ready fn h jb bi n c"
  shows "length (selected_pages (handed_over jb bi n e c tops)) \<le> length tops"
  unfolding handed_over_def Let_def using assms by (auto simp: row_ready_def row_due_def intro!: selected_few)

lemma side_loc_missing:
  assumes "row_ready fn h jb bi n c" "j < n" "x = side_loc c (j_page_table jb ! bi) j" "c4_logical_size c = n_logical_pages e * 64"
    and "x \<in> set ks" "chunk_cell_lut e 0 (x div 64 * 64) < 0"
  shows "0 \<le> x" "x < n_logical_pages e * 64" "x div 64 \<in> set (missing_pages e ks)"
proof -
  have row: "row_ok c (j_page_table jb ! bi) n" using assms(1) by (simp add: row_ready_def row_due_def)
  show x: "0 \<le> x" "x < n_logical_pages e * 64" using side_loc_eq(3,4) [OF row assms(2)] assms(3,4) by simp_all
  have "x div 64 * 64 \<le> x" "0 \<le> x div 64" using x(1) by (simp_all add: div_times_less_eq_dividend)
  then have "clamp_col e (x div 64 * 64) = x div 64 * 64" using x by (simp add: clamp_col_def lut_cols_def C4_PAGE_SIZE_def)
  then show "x div 64 \<in> set (missing_pages e ks)" using assms(5,6) \<open>0 \<le> x div 64\<close> by (auto simp: missing_pages_def selected_pages_def)
qed

text \<open>C5: A side band delivers what it selects. On the page path, with the lookup table as the
  authority and the page budget within the recall region, take a synchronous side band for one due
  request with scores, with the fused remap and the reclaim of orphans switched off (their defaults)
  and no counts left unpublished by an earlier band. It does not raise; afterwards the request's row
  is published with the count of its selected pages, and every prompt chunk named in the row whose
  page was missing is readable in every layer with the mirror's bytes.\<close>

theorem sideband_delivers:
  assumes e: "eng s = Some e" "page_inv e" "lut_truth e" "page_recall e" "page_kmax (cap s) \<le> recall_cell_capacity e div 64"
    and due: "row_due fn h jb bi n (cap s)" "\<not> fused_remap (cap s)" "\<not> reclaim_orphans (cap s)" "pending_count (cap s) = []"
    and size: "c4_logical_size (cap s) = n_logical_pages e * 64"
    and work: "sideband_work fn h jb s = (res, s')"
  shows "res = Inr () \<and> (\<exists>e' b'. eng s' = Some e' \<and> rows (cap s') = Some b'
    \<and> resident_count_buf b' bi = min (page_kmax (cap s)) (int (row_pages (cap s) n)) * 64
    \<and> (\<forall>j l. let x = side_loc (cap s) (j_page_table jb ! bi) j; pc = prefill_chunks_of (Some e) (j_req_ids jb ! bi)
        in j < n \<and> x \<in> set (resident_pool_loc_buf b' bi) \<and> (0 \<le> pc \<longrightarrow> int j < pc)
             \<and> chunk_cell_lut e 0 (x div 64 * 64) < 0 \<and> (own_reserve e \<longrightarrow> chunk_cell_lut e 0 x < decode_base e) \<longrightarrow>
           0 \<le> remap_loc e' l x \<and> remap_loc e' l x < decode_base e
           \<and> chunk_bytes (row_bytes e) (reserve_buf e' l) (remap_loc e' l x) = chunk_bytes (row_bytes e) (host_mirror e l) x))"
proof -
  have c: "row_ready fn h jb bi n (cap s)" "c4_logical_size (cap s) = n_logical_pages e * 64"
    using due size by (simp_all add: row_ready_def)
  let ?c = "cap s" and ?pt = "j_page_table jb ! bi" and ?pc = "prefill_chunks_of (Some e) (j_req_ids jb ! bi)"
  let ?s0 = "on_engine (\<lambda>e. snd (get_and_reset_remap_miss e)) s"
  define e1 where "e1 = snd (get_and_reset_remap_miss e)"
  have s0: "cap ?s0 = ?c" "eng ?s0 = Some e1" using e(1) by (simp_all add: on_engine_def e1_def)
  have pc: "prefill_chunks_of (Some e1) ri = prefill_chunks_of (Some e) ri" for ri
    by (auto simp: prefill_chunks_of_def e1_def get_and_reset_remap_miss_def)
  show ?thesis
  proof (rule sideband_req_page [where s = ?s0, unfolded s0, OF c(1) refl], goal_cases)
    case (1 tops b1 m e2)
    let ?ks = "handed_over jb bi n e1 ?c tops"
    note e2 = bookkeeping_keeps [OF e(2) e1_def 1(2)] and req = 1(3) and sz = same_sizes [OF bookkeeping_keeps(2) [OF e(2) e1_def 1(2)]]
    have fit: "length (selected_pages ?ks) \<le> nat (recall_cell_capacity e2 div 64)"
      using handed_over_few [OF c(1), of e1 tops] 1(1) e(5) by (simp add: sz)
    have lt: "lut_truth e2" using e(3) by (simp add: sz)
    have due: "j_due jb = [bi]" and rowok: "row_ok ?c ?pt n" using c(1) by (simp_all add: row_ready_def row_due_def)
    show ?case
    proof (rule work_after_selection [OF due req _ e2(1) lt _ fit, where b = b1 and K = "min (page_kmax ?c) (int (row_pages ?c n)) * 64"], goal_cases)
      case (9 e' s'' b' r)
      have read: "0 \<le> remap_loc e' l x \<and> remap_loc e' l x < decode_base e
          \<and> chunk_bytes (row_bytes e) (reserve_buf e' l) (remap_loc e' l x) = chunk_bytes (row_bytes e) (host_mirror e l) x"
        if x: "x = side_loc ?c ?pt j" and j: "j < n" "0 \<le> ?pc \<longrightarrow> int j < ?pc" and row: "x \<in> set (resident_pool_loc_buf b' bi)"
          and miss: "chunk_cell_lut e 0 (x div 64 * 64) < 0" and d: "own_reserve e \<longrightarrow> chunk_cell_lut e 0 x < decode_base e" for j l x
      proof -
        have x0: "0 \<le> x" using side_loc_eq(3) [OF rowok j(1)] x by simp
        with row 9(5) have "x \<in> {x \<in> set (resident_pool_loc_buf b1 bi). 0 \<le> x}" by simp
        then obtain j' where "j' < n" "page_of 64 j' \<in> set tops" "side_loc ?c ?pt j' = x" unfolding 1(4) by blast
        with side_loc_inj [OF rowok] j(1) x have "page_of 64 j \<in> set tops" by metis
        then have ks: "x \<in> set ?ks" using j x by (auto simp: handed_over_def pc)
        then have "?ks \<noteq> []" by fastforce
        note rd = recall_readable [OF e2(1) lt fit 9(6) [OF this]]
        have "c4_logical_size ?c = n_logical_pages e2 * 64" "chunk_cell_lut e2 0 (x div 64 * 64) < 0" using c(2) miss by (simp_all add: sz e2(4))
        note m = side_loc_missing [OF c(1) j(1) x this(1) ks this(2)]
        have "own_reserve e2 \<longrightarrow> chunk_cell_lut e2 0 x < decode_base e2" using d by (simp add: sz e2(4))
        from rd [OF m(3,2) this, of l] show ?thesis by (simp add: sz e2(3))
      qed
      show ?case
        by (intro conjI exI [of _ e'] exI [of _ b']) (use 9(1-4) work read in \<open>auto simp: Let_def\<close>)
    qed (use c(1) e sz in \<open>simp_all add: row_ready_def row_due_def\<close>)
  qed
qed

definition small_job :: job where
  "small_job = \<lparr>j_due = [0], j_req_ids = [1], j_seql = (\<lambda>_. 3), j_page_table = [[2]], j_score = (\<lambda>l bi n. small_scores l)\<rparr>"

definition small_delivery :: sys where
  "small_delivery = \<lparr>cap = ensure_page_recall_buffers (init_capturer (small_cap_env\<lparr>env_page_kmax := 1\<rparr>) 256 64 False 64 4),
     eng = Some (small_engine True), recall_job = None\<rparr>"

theorem sideband_delivers_witness:
  "\<exists>s' b'. sideband_work small_fns small_hook small_job small_delivery = (Inr (), s') \<and> rows (cap s') = Some b' \<and> resident_count_buf b' 0 = 64"
proof -
  obtain res s' where w: "sideband_work small_fns small_hook small_job small_delivery = (res, s')" by fastforce
  have c: "cap small_delivery = ensure_page_recall_buffers (init_capturer (small_cap_env\<lparr>env_page_kmax := 1\<rparr>) 256 64 False 64 4)"
    by (simp add: small_delivery_def)
  have f: "c4_page_size (cap small_delivery) = 64" "c4_logical_size (cap small_delivery) = 256" "page_kmax (cap small_delivery) = 1"
    by (simp_all add: c ensure_page_recall_buffers_def init_capturer_def small_cap_env_def resolve_page_kmax_def Let_def)
  have pages: "row_pages (cap small_delivery) 3 = 1" by (simp add: row_pages_def f)
  have row: "row_ok (cap small_delivery) (j_page_table small_job ! 0) 3" by (simp add: row_ok_def pages f small_job_def)
  have ok: "scores_ok small_hook (req_scores small_hook (j_score small_job) 0 3) 3"
    by (simp add: scores_ok_def small_hook_def small_scores_def req_scores_def small_job_def)
  have "row_due small_fns small_hook small_job 0 3 (cap small_delivery)" "\<not> fused_remap (cap small_delivery)"
    "\<not> reclaim_orphans (cap small_delivery)" "pending_count (cap small_delivery) = []"
    unfolding row_due_def using row ok f
    by (simp_all add: c ensure_page_recall_buffers_def init_capturer_def small_cap_env_def small_job_def small_fns_def topk_sort_ok
        resolve_page_kmax_def Let_def)
  moreover have "eng small_delivery = Some (small_engine True)" by (simp add: small_delivery_def)
  ultimately have "res = Inr () \<and> (\<exists>b'. rows (cap s') = Some b' \<and> resident_count_buf b' 0 = 64)"
    using sideband_delivers [OF _ small_engine_inv(1) _ _ _ _ _ _ _ _ w, of True 0 3] by (auto simp: f pages)
  then show ?thesis using w by blast
qed


subsection \<open>The recall of a chunked prefill in the page mode\<close>

text \<open>The first block of the page allocator and the first cell of the chunk allocator.\<close>

lemma first_block:
  assumes "g_page_to_block e = []" "g_free_blocks e = []" "g_next_block e = 0" "64 \<le> recall_cell_capacity e"
    and "0 \<le> pg" "pg < n_logical_pages e" "\<And>x. x div 64 = pg \<Longrightarrow> chunk_cell_lut e 0 x = - 1"
  obtains n e1 e2 where "recall_global_pages [pg * 64] e = (Inr n, e2)" "e1 = e\<lparr>g_next_block := 1, g_page_to_block := [(pg, 0)]\<rparr>"
    "e2 = install (expand_page (pg, 0)) e1 \<or> e2 = copy_index_pages [(pg, 0)] (install (expand_page (pg, 0)) e1)"
proof -
  define e1 where "e1 = e\<lparr>g_next_block := 1, g_page_to_block := [(pg, 0)]\<rparr>"
  have col: "clamp_col e x = x" if "x div 64 = pg" for x
  proof -
    have "x = pg * 64 + x mod 64" using that by auto
    moreover have "0 \<le> x mod 64" "x mod 64 < 64" by simp_all
    ultimately show ?thesis using assms(5,6) by (simp add: clamp_col_def lut_cols_def C4_PAGE_SIZE_def)
  qed
  have todo: "chunk_cell_lut e 0 (clamp_col e (pg * 64)) = - 1" using col assms(7) by simp
  have room: "0 < recall_cell_capacity e div 64" using assms(4) by simp
  have place: "p_place [pg] [pg] e = (Inr [(pg, 0)], e1)"
    using assms(1-3) room by (simp add: e1_def od_set_def od_mem_def)
  have "filter (\<lambda>(c, cell). chunk_cell_lut e1 0 (clamp_col e c) < decode_base e) (expand_page (pg, 0)) = expand_page (pg, 0)"
    using col assms(7) by (auto simp: expand_page_pairs e1_def decode_base_def intro!: filter_True)
  moreover have "expand_page (pg, 0) \<noteq> []" by (simp add: expand_page_def page_chunks_def int_range_def)
  moreover have "clamp_col e1 = clamp_col e" by (rule ext) (simp add: e1_def clamp_col_def lut_cols_def)
  ultimately have "recall_global_pages [pg * 64] e = (Inr (int (length (expand_page (pg, 0)))),
      if index_k_offload e then copy_index_pages [(pg, 0)] (install (expand_page (pg, 0)) e1) else install (expand_page (pg, 0)) e1)"
    using assms(5) todo by (simp add: recall_global_pages_def unique_def Let_def install_def lut_scatter_index place del: p_place.simps)
  from that [OF this e1_def] show thesis by simp
qed

lemma first_cell:
  assumes "chunk_inv e" "g_chunk_to_cell e = []" "g_free_cells e = []" "g_next_cell e = 0" "g_full e = None" "chunk_cell_lut e = (\<lambda>_ _. - 1)"
    and "0 \<le> c" "c < n_logical_pages e * 64" "1 \<le> recall_cell_capacity e" "0 < reserve_pages e"
  shows "recall_global [c] e = (Inr 1, install [(c, 0)] (e\<lparr>g_next_cell := 1, g_chunk_to_cell := [(c, 0)]\<rparr>))"
proof -
  let ?e1 = "e\<lparr>g_next_cell := 1, g_chunk_to_cell := [(c, 0)]\<rparr>"
  have alloc: "g_alloc [c] [c] e = (Inr [(c, 0)], ?e1)"
    using assms(2-5,9) by (simp add: g_alloc_def od_mem_def od_set_def int_range_Suc Let_def)
  have safe: "in_bounds (n_logical_pages e) (reserve_pages e) (c, 0)" using assms(7,8,10) by (simp add: in_bounds_def)
  have "missing_chunks e [c] = [c]" "selected_chunks [c] = [c]"
    using assms(6,7) by (simp_all add: missing_chunks_def selected_chunks_def unique_def)
  with assms(1) show ?thesis
    by (cases rule: recall_global_cases [where locs = "[c]"]) (use alloc safe in auto)
qed

lemma first_page_pairs:
  assumes "0 \<le> pg"
  shows "distinct (map fst (expand_page (pg, 0)))" "\<forall>p \<in> set (expand_page (pg, 0)). 0 \<le> fst p"
    and "\<forall>p \<in> set (expand_page (pg, 0)). 0 \<le> snd p \<and> snd p < 64"
    and "x div 64 \<noteq> pg \<Longrightarrow> map_of (expand_page (pg, 0)) x = None" "distinct (map snd (expand_page (pg, 0)))"
    and "map_of (expand_page (pg, 0)) (pg * 64) = Some 0" "(pg * 64, 0) \<in> set (expand_page (pg, 0))"
proof -
  show d: "distinct (map fst (expand_page (pg, 0)))" by (rule distinct_expand_fst)
  show "distinct (map snd (expand_page (pg, 0)))" by (simp add: expand_page_def page_chunks_def)
  show m: "(pg * 64, 0) \<in> set (expand_page (pg, 0))" by (simp add: expand_page_pairs)
  with d show "map_of (expand_page (pg, 0)) (pg * 64) = Some 0" by simp
  show "\<forall>p \<in> set (expand_page (pg, 0)). 0 \<le> fst p" using assms by (auto simp: expand_page_pairs)
qed (auto simp: expand_page_pairs map_of_eq_None_iff)

text \<open>C34: The page mode and the recall of a chunked prefill share the reserve but not the
  allocator: on a fresh page-mode engine, attention of an extend forward recalls a chunk through
  \<open>recall_chunks\<close> into the first cell; a later side band recalls another page into the first block,
  the chunk stays mapped, and attention reads for it the bytes of the other page's first chunk.\<close>

theorem prefill_recall_collides:
  assumes "e0 = init_engine env pool pool_rows n layers nope rope res" "env_page_recall env" "env_cudagraph env" "cfg_ok e0" "64 \<le> recall_cell_capacity e0"
    and "0 \<le> c" "c < n * 64" "0 \<le> pg" "pg < n" "c div 64 \<noteq> pg"
    and "attend_c4 rmc EXTEND l [c] e0 = (r, e1)" "recall_resident_global [pg * 64] e1 = (r2, e2)"
  shows "r = Inr [0] \<and> remap_loc e2 l c = 0 \<and> remap_loc e2 l (pg * 64) = 0
    \<and> chunk_bytes (row_bytes e2) (reserve_buf e2 l) (remap_loc e2 l c) = chunk_bytes (row_bytes e2) (host_mirror e2 l) (pg * 64)"
proof -
  note f = init_fields [of env pool pool_rows n layers nope rope res, folded assms(1)]
  have cinv: "chunk_inv e0" using init_inv(2) assms(1,4) by blast
  have rp: "0 < reserve_pages e0" using assms(4,5) by (simp add: cfg_ok_def size_defs)
  let ?ea = "e0\<lparr>g_next_cell := 1, g_chunk_to_cell := [(c, 0)]\<rparr>"
  let ?eb = "install [(c, 0)] ?ea"
  have "recall_chunks l [c] e0 = (Inr 1, ?eb)"
    using first_cell [OF cinv, of c] assms(3,5-7) rp by (simp add: recall_chunks_def f)
  then have att: "r = Inr [remap_loc ?eb l c]" "e1 = snd (remap_compressed_locs ?eb l [c])"
    using assms(11) by (auto simp: attend_c4_def remap_compressed_locs_def Let_def split: option.splits if_splits)
  have "g_page_to_block ?eb = []" "g_free_blocks ?eb = []" "g_next_block ?eb = 0"
    using install_fields(1) [of "[(c, 0)]" ?ea] by (simp_all add: alloc_state_def f)
  then have e1: "sizes e1 = sizes e0" "chunk_cell_lut e1 = chunk_cell_lut ?eb"
    "g_page_to_block e1 = []" "g_free_blocks e1 = []" "g_next_block e1 = 0"
    unfolding att(2) by (simp_all add: remap_compressed_locs_def Let_def engine_simps)
  note sz = same_sizes [OF e1(1)]
  have lut: "chunk_cell_lut e1 l x = (if x = c then 0 else - 1)" if "0 \<le> x" "x < n * 64" for l x
    using install_lut [of "[(c, 0)]" x ?ea l] that assms(6) by (simp add: e1(2) f)
  have pg: "0 \<le> x" "x < n * 64" "x \<noteq> c" if "x div 64 = pg" for x using that assms(8-10) by auto
  have none: "chunk_cell_lut e1 0 x = - 1" if "x div 64 = pg" for x using lut pg [OF that] by simp
  have rec: "recall_global_pages [pg * 64] e1 = (r2, e2)" using assms(2,12) by (simp add: recall_resident_global_def sz f)
  show ?thesis
  proof (rule first_block [of e1 pg], goal_cases)
    case (8 k e3 e4)
    let ?ps = "expand_page (pg, 0)"
    have e3: "sizes e3 = sizes e1" "chunk_cell_lut e3 = chunk_cell_lut e1" by (simp_all add: 8(2) engine_simps)
    note sz3 = same_sizes [OF e3(1)]
    have e2: "chunk_cell_lut e2 = chunk_cell_lut (install ?ps e3)" "reserve_buf e2 = reserve_buf (install ?ps e3)"
      "host_mirror e2 = host_mirror e3" "sizes e2 = sizes e3"
      using 8(1,3) rec by (auto simp: copy_index_pages_def Let_def engine_simps reserve_buf_def)
    note ps = first_page_pairs [OF assms(8)]
    have range: "\<forall>p \<in> set ?ps. 0 \<le> fst p \<and> 0 \<le> snd p \<and> snd p < decode_base e3"
      using ps(2,3) assms(5) by (auto simp: sz sz3 recall_cell_capacity_def)
    have q: "0 \<le> pg * 64" "pg * 64 < n_logical_pages e3 * 64" "c < n_logical_pages e3 * 64" using assms(7-9) by (simp_all add: sz sz3 f)
    have l2: "chunk_cell_lut e2 l c = 0" "chunk_cell_lut e2 l (pg * 64) = 0"
      using install_lut [OF ps(1) _ assms(6) q(3), of l] install_lut [OF ps(1) _ q(1,2), of l] ps(2,4,6) assms(6,7,10)
      by (auto simp: e2(1) e3(2) lut map_of_eq_None_iff)
    have rm: "remap_loc e2 l x = chunk_cell_lut e2 l x" if "0 \<le> x" "x < n * 64" "chunk_cell_lut e2 l x = 0" for x
      using that same_sizes(7) [OF e2(4)] by (simp add: remap_loc_def clamp_col_def lut_cols_def sz sz3 f)
    have b2: "chunk_bytes (row_bytes e2) (reserve_buf e2 l) 0 = chunk_bytes (row_bytes e2) (host_mirror e2 l) (pg * 64)"
      using install_bytes(1) [OF _ ps(5) range ps(7) q(2), of l] assms(4) same_sizes [OF e2(4)] by (simp add: e2 sz sz3)
    have "sizes ?eb = sizes e0" by (simp add: engine_simps)
    note sb = same_sizes(12) [OF this]
    have "remap_loc ?eb l c = 0" using lut [OF assms(6,7), of l] assms(6,7)
      by (simp add: remap_loc_def sb clamp_col_def lut_cols_def f e1(2) [symmetric])
    then show ?case using att(1) l2 rm b2 assms(6,7) q(1,2) by (simp add: sz sz3 f)
  qed (use e1 none assms(5,8,9) in \<open>simp_all add: sz f\<close>)
qed

theorem prefill_recall_collides_witness:
  "remap_loc (snd (recall_resident_global [64] (snd (attend_c4 None EXTEND 1 [5] (small_engine True))))) 1 5
   = remap_loc (snd (recall_resident_global [64] (snd (attend_c4 None EXTEND 1 [5] (small_engine True))))) 1 64"
  using prefill_recall_collides [OF small_engine_def _ _ _ _ _ _ _ _ _ prod.collapse [symmetric] prod.collapse [symmetric], of True 5 1 None 1]
  by (simp add: small_env_def)


subsection \<open>One layer of a forward\<close>

text \<open>The store and the attention of a layer are calls of the engine's interface, except that an
  extend forward of the page mode recalls through the chunk allocator.\<close>

definition stores_ok :: "capturer option \<Rightarrow> forward_mode \<Rightarrow> (int \<times> int \<times> int option) list \<Rightarrow> pack \<Rightarrow> engine \<Rightarrow> bool" where
  "stores_ok rmc mode rws p e \<longleftrightarrow> pack_dims p \<and> (mode = IDLE \<or> mode = DECODE \<and> rmc \<noteq> None \<or> pack_len (length rws) p
     \<and> list_all (\<lambda>(ri, loc, sl). 0 \<le> loc \<and> loc < n_logical_pages e * 64) rws)"

lemma store_decode_run:
  assumes "\<not> page_recall e" "\<forall>c \<in> set locs. 0 \<le> c \<and> c < n_logical_pages e * 64" "pack_dims p" "pack_len (length locs) p"
  shows "engine_run e (snd (store_decode l locs p e))"
proof -
  obtain r e1 where st: "store_prefill_to_mirror l locs p e = (r, e1)" by fastforce
  have "engine_step e e1" using step_prefill [OF assms(2-4), of l] st by simp
  moreover have "page_recall e1 = page_recall e" using same_sizes(16) [OF store_prefill_sizes [of l locs p e]] st by simp
  ultimately have "engine_run e e1" "engine_step e1 (snd (recall_chunks l locs e1))"
    using assms(1) by (auto intro: engine_run_one step_recall_chunks)
  then show ?thesis using st
    by (auto simp: store_decode_def intro: run_refl run_step split: prod.splits sum.splits)
qed

lemma store_c4_run:
  assumes "stores_ok rmc mode rws p e" "page_recall e \<longrightarrow> mode = DECODE \<and> rmc \<noteq> None"
  shows "engine_run e (snd (store_c4 rmc mode l rws p e))"
proof -
  consider "mode = IDLE" | "mode = DECODE" "rmc \<noteq> None" | "mode \<noteq> IDLE" "\<not> (mode = DECODE \<and> rmc \<noteq> None)" by blast
  then show ?thesis
  proof cases
    case 2
    then show ?thesis using assms by (auto simp: store_c4_def stores_ok_def intro!: run_step [OF run_refl] step_decode)
  next
    case 3
    let ?locs = "map (\<lambda>(ri, loc, sl). loc) rws"
    have ok: "\<forall>c \<in> set ?locs. 0 \<le> c \<and> c < n_logical_pages e * 64" "pack_dims p" "pack_len (length ?locs) p" "\<not> page_recall e"
      using 3 assms by (auto simp: stores_ok_def list_all_iff)
    from store_decode_run [OF ok(4,1-3)] engine_run_one [OF step_prefill [OF ok(1-3)]] 3 show ?thesis by (simp add: store_c4_def)
  qed (simp add: store_c4_def run_refl)
qed

lemma attend_c4_run:
  assumes "page_recall e \<longrightarrow> mode = DECODE \<and> rmc \<noteq> None"
    and "attend_c4 rmc mode l sel e = (Inr cells, e')" "\<forall>c. rmc = Some c \<and> mode = DECODE \<longrightarrow> \<not> fused_active c"
  shows "engine_run e e'" "cells = map (remap_loc e' l) sel"
proof -
  have rem: "engine_step x (snd (remap_compressed_locs x l sel))"
    "fst (remap_compressed_locs x l sel) = map (remap_loc (snd (remap_compressed_locs x l sel)) l) sel" for x
    by (rule step_remap) (simp add: remap_compressed_locs_def remap_loc_def [abs_def] Let_def clamp_col_def lut_cols_def)
  have "\<exists>x. engine_run e x \<and> (cells, e') = remap_compressed_locs x l sel"
  proof (cases "mode = DECODE \<and> rmc \<noteq> None")
    case True
    then show ?thesis using assms(2,3) by (auto simp: attend_c4_def intro!: exI [of _ e] run_refl split: prod.splits)
  next
    case False
    then have "engine_run e (snd (recall_chunks l sel e))" using assms(1) by (intro run_step [OF run_refl] step_recall_chunks) blast
    then show ?thesis using assms(2) False
      by (auto simp: attend_c4_def split: option.splits prod.splits sum.splits intro!: exI [of _ "snd (recall_chunks l sel e)"])
  qed
  then obtain x where x: "engine_run e x" "(cells, e') = remap_compressed_locs x l sel" by blast
  from rem [of x] x show "engine_run e e'" "cells = map (remap_loc e' l) sel" by (metis run_step snd_conv) (metis rem(2) x(2) fst_conv snd_conv)
qed

text \<open>C2: What attention reads is the history: from the constructor's engine in the page or the chunk
  mode, after any sequence of calls, when the compressor of a layer stores and the attention of the
  layer then recalls and remaps its selection, every cell of the recall region it gets for a
  selected location holds the mirror's bytes of that location. In the page mode this is for a server
  that only decodes, with the capturer attached: the sequence before has no \<open>recall_chunks\<close> and the
  layer is one of a decode forward, since an extend forward, or a decode forward without a capturer,
  recalls through the chunk allocator (\<open>prefill_recall_collides\<close>). In the chunk mode the forward is
  of any kind. The gate of the fused remap is closed; behind an open gate attention does not remap, and
  \<open>fused_remap_equals_remap\<close> is about the cells the indexer wrote. Stores that go through the mirror
  name chunks of the logical pool.\<close>

theorem attention_reads:
  assumes "e0 = init_engine env pool pool_rows n layers nope rope res" "env_page_recall env \<or> env_cudagraph env" "cfg_ok e0" "engine_run e0 e"
    and "env_page_recall env \<longrightarrow> mode = DECODE \<and> rmc \<noteq> None" "\<forall>c. rmc = Some c \<and> mode = DECODE \<longrightarrow> \<not> fused_active c"
    and "stores_ok rmc mode rws p e" "store_c4 rmc mode l rws p e = (r, e1)" "attend_c4 rmc mode l sel e1 = (Inr cells, e2)"
    and "i < length sel" "0 \<le> sel ! i" "sel ! i < n * 64" "0 \<le> cells ! i" "cells ! i < decode_base e2"
  shows "chunk_bytes (row_bytes e2) (reserve_buf e2 l) (cells ! i) = chunk_bytes (row_bytes e2) (host_mirror e2 l) (sel ! i)"
proof -
  have pr: "page_recall x \<longrightarrow> mode = DECODE \<and> rmc \<noteq> None" if "engine_run e0 x" for x
    using assms(5) init_fields(9) [of env pool pool_rows n layers nope rope res] same_sizes(16) [OF run_reads(1) [OF assms(1-3) that]]
    by (simp add: assms(1))
  have run1: "engine_run e0 e1"
    using engine_run_trans [OF assms(4) store_c4_run [OF assms(7) pr [OF assms(4)], of l]] assms(8) by simp
  note at = attend_c4_run [OF pr [OF run1] assms(9,6)]
  from run_reads(2) [OF assms(1-3) engine_run_trans [OF run1 at(1)] assms(11,12), of l] assms(10,13,14)
  show ?thesis by (simp add: at(2))
qed

text \<open>A decode layer without new chunks, after the recall of chunk 5.\<close>

definition small_layer :: "int list \<times> engine" where
  "small_layer = (let e1 = snd (store_c4 (Some small_cap) DECODE 0 [] \<lparr>k_nope_fp8 = [], k_rope_bf16 = [], scale_k_nope_ue8m0 = []\<rparr> (small_recalled True));
     (r, e2) = attend_c4 (Some small_cap) DECODE 0 [5] e1 in (case r of Inr cells \<Rightarrow> cells | Inl x \<Rightarrow> [], e2))"

theorem attention_reads_witness:
  "chunk_bytes (row_bytes (snd small_layer)) (reserve_buf (snd small_layer) 0) (fst small_layer ! 0)
   = chunk_bytes (row_bytes (snd small_layer)) (host_mirror (snd small_layer) 0) 5"
proof -
  let ?p = "\<lparr>k_nope_fp8 = [], k_rope_bf16 = [], scale_k_nope_ue8m0 = []\<rparr>" and ?e = "small_recalled True"
  have p: "pack_dims ?p" "pack_len 0 ?p" by (simp_all add: pack_dims_def pack_len_def)
  obtain r e1 where st: "store_c4 (Some small_cap) DECODE 0 [] ?p ?e = (r, e1)" by fastforce
  have "snd (store_decode_to_reserve 0 [] ?p ?e) = e1" using st by (simp add: store_c4_def)
  then have e1: "chunk_cell_lut e1 = chunk_cell_lut ?e" "sizes e1 = sizes ?e"
    by (auto simp: store_decode_to_reserve_def set_k_and_s_triton_def p Let_def lut_scatter_layer_def engine_simps count_if_def)
  have at: "attend_c4 (Some small_cap) DECODE 0 [5] e1 = (Inr [remap_loc e1 0 5], snd (remap_compressed_locs e1 0 [5]))"
    by (simp add: attend_c4_def fused_active_def remap_compressed_locs_def Let_def)
  have rl: "remap_loc e1 0 5 = remap_loc ?e 0 5" by (simp add: remap_loc_def e1(1) same_sizes(12) [OF e1(2)])
  have db: "decode_base (snd (remap_compressed_locs e1 0 [5])) = decode_base ?e"
    using same_sizes(5) [OF stats_sizes(1)] same_sizes(5) [OF e1(2)] by metis
  have ok: "stores_ok (Some small_cap) DECODE [] ?p ?e" by (simp add: stores_ok_def p)
  from attention_reads [OF small_engine_def _ small_engine_fields(1) small_recall(1) _ _ ok st at, of 0] show ?thesis
    using small_recall(2,3) [of True 0] by (simp add: small_env_def fused_active_def rl db small_layer_def st at)
qed

end
