(* ===== verification/Cadence.thy ===== *)
theory Cadence
  imports TurnoverProps
begin

section \<open>The cadence of the side band\<close>

text \<open>
  A decode forward as the capturer sees it: the hook before it, what the captured graph, the
  scheduler and the background thread do meanwhile, and the hook after it, which determines the rows
  whose side band is due. The bookkeeping of the cadence survives everything but the two hooks, so a
  request that stays in the decode batch comes due within one interval.
\<close>

definition cadence where
  "cadence c = (req_step c, req_phase c, stagger_cycle c, interval c, cached_req_ids c, prev_row_occupant c,
     score_resident c, cap_hook c)"

lemma cadenceD:
  assumes "cadence c' = cadence c"
  shows "req_step c' = req_step c" "req_phase c' = req_phase c" "stagger_cycle c' = stagger_cycle c" "interval c' = interval c"
    "cached_req_ids c' = cached_req_ids c" "prev_row_occupant c' = prev_row_occupant c"
    "score_resident c' = score_resident c" "cap_hook c' = cap_hook c"
  using assms by (simp_all add: cadence_def)

definition keeps_cadence :: "capturer \<Rightarrow> capturer \<Rightarrow> bool" where
  "keeps_cadence c c' \<longleftrightarrow> cadence c' = cadence c \<and> (rows c \<noteq> None \<longrightarrow> rows c' \<noteq> None)
     \<and> (page_table_buf c \<noteq> None \<longrightarrow> page_table_buf c' \<noteq> None)"

lemma keeps_refl [simp]: "keeps_cadence c c"
  by (simp add: keeps_cadence_def)

lemma keeps_trans: "keeps_cadence c c1 \<Longrightarrow> keeps_cadence c1 c2 \<Longrightarrow> keeps_cadence c c2"
  by (simp add: keeps_cadence_def)

lemma keeps_engine [simp]: "keeps_cadence (cap s) (cap (on_engine f s))"
  by simp

lemma keeps_lift_cap: "(\<And>c. keeps_cadence c (snd (f c))) \<Longrightarrow> keeps_cadence (cap s) (cap (snd (lift_cap f s)))"
  by (simp add: lift_cap_def split: prod.split) (metis snd_conv)

lemma keeps_lift_eng: "keeps_cadence (cap s) (cap (snd (lift_eng f d s)))"
  by (simp add: lift_eng_def split: prod.split option.split)

lemma keeps_obind:
  assumes "keeps_cadence (cap s) (cap (snd r))" "\<And>v t. keeps_cadence (cap t) (cap (snd (f v t)))"
  shows "keeps_cadence (cap s) (cap (snd (obind r f)))"
  using assms keeps_trans [OF assms(1) assms(2)] by (auto simp: obind_def split: prod.split sum.split)

lemma keeps_buffers:
  "keeps_cadence c (ensure_page_recall_buffers c)" "keeps_cadence c (ensure_resident_scratch c)"
  "keeps_cadence c (refresh_valid_mask c)" "keeps_cadence c (publish_pending_counts c)"
  "keeps_cadence c (remap_index_page_table e due c)" "keeps_cadence c (snd (refresh_col_to_cell e c))"
  "keeps_cadence c (snd (scatter_logical_keep bi n keep pt pc c))"
  by (simp_all add: keeps_cadence_def cadence_def ensure_page_recall_buffers_def ensure_resident_scratch_def refresh_valid_mask_def
      publish_pending_counts_def remap_index_page_table_def refresh_col_to_cell_def scatter_logical_keep_def Let_def split: option.split)

lemma keeps_select: "keeps_cadence c (snd (select_resident_pages tkp sg h bi n part pt c))"
  unfolding select_resident_pages_def Let_def
  by (auto simp: keeps_cadence_def cadence_def split: option.split)

lemma keeps_scratch: "keeps_cadence c (snd (build_resident_scratch index_k w bi n keep pt c))"
proof -
  let ?c = "ensure_resident_scratch c"
  have "keeps_cadence ?c (snd (build_resident_scratch index_k w bi n keep pt c))"
    unfolding build_resident_scratch_def Let_def
    by (auto simp: keeps_cadence_def cadence_def split: option.split)
  with keeps_buffers(2) show ?thesis by (rule keeps_trans)
qed

lemma keeps_req: "keeps_cadence (cap s) (cap (snd (sideband_req fn h jb bi s)))"
proof -
  have sel: "keeps_cadence c (snd (select_resident_pages tkp sg h bi n part pt (ensure_page_recall_buffers c)))" for c tkp sg n part pt
    by (rule keeps_trans [OF keeps_buffers(1) keeps_select])
  show ?thesis
    unfolding sideband_req_def Let_def
    by (auto intro!: keeps_obind keeps_lift_cap sel keeps_scratch keeps_buffers(7) split: sum.split)
qed

lemma keeps_reqs: "keeps_cadence (cap s) (cap (snd (sideband_reqs fn h jb bis s)))"
  by (induction bis arbitrary: s) (auto intro!: keeps_obind keeps_req)

lemma keeps_publish: "keeps_cadence (cap s) (cap (snd (publish s)))"
proof -
  have "keeps_cadence c (refresh_valid_mask (publish_pending_counts c))" for c
    by (rule keeps_trans [OF keeps_buffers(4,3)])
  moreover have "keeps_cadence c (c\<lparr>pending_count := x\<rparr>)" for c x by (simp add: keeps_cadence_def cadence_def)
  ultimately show ?thesis
    unfolding publish_def by (auto intro!: keeps_obind keeps_lift_cap keeps_buffers(6) split: option.split)
qed

lemma keeps_work: "keeps_cadence (cap s) (cap (snd (sideband_work fn h jb s)))"
proof -
  have idx: "keeps_cadence (cap t) (cap (if P then (case eng t of None \<Rightarrow> t | Some e \<Rightarrow> on_cap (remap_index_page_table e due) t) else t))" for t P due
    by (auto simp: keeps_buffers(5) split: option.split)
  have rec: "keeps_cadence (cap t) (cap (if Q then on_engine f t else t))" for t Q f by simp
  show ?thesis
    unfolding sideband_work_def Let_def
    by (intro keeps_obind keeps_trans [OF _ keeps_publish] keeps_trans [OF _ rec] idx)
      (simp_all add: keeps_reqs [of "on_engine _ s", simplified] keeps_lift_eng)
qed

lemma keeps_cycle: "keeps_cadence c c1 \<Longrightarrow> keeps_cadence c (c1\<lparr>cycle_count := n\<rparr>)"
  by (simp add: keeps_cadence_def cadence_def)

lemma keeps_join: "keeps_cadence (cap s) (cap (join_recall fn s))"
proof (cases "recall_job s"; cases "cap_hook (cap s)")
  fix jb h assume "recall_job s = Some jb" "cap_hook (cap s) = Some h"
  then show ?thesis using keeps_cycle [OF keeps_work [of "s\<lparr>recall_job := None\<rparr>"]] by (simp add: join_recall_def)
qed (simp_all add: join_recall_def)


subsection \<open>Decode forwards\<close>

text \<open>What can happen between the hooks: calls on the engine, the captures of the graph, the
  background thread reaching its end.\<close>

inductive between :: "fns \<Rightarrow> sys \<Rightarrow> sys \<Rightarrow> bool" for fn where
  between_refl: "between fn s s"
| between_engine: "between fn s t \<Longrightarrow> between fn s (t\<lparr>eng := x\<rparr>)"
| between_capture: "between fn s t \<Longrightarrow> between fn s (on_cap (capture_side_band_inputs clid n pt seql) t)"
| between_thread: "between fn s t \<Longrightarrow> between fn s (join_recall fn t)"

text \<open>The forwards of a run with their batches and the rows that were due.\<close>

inductive decode_run :: "fns \<Rightarrow> (int list \<times> nat list) list \<Rightarrow> sys \<Rightarrow> sys \<Rightarrow> bool" for fn where
  decode_nil: "decode_run fn [] s s"
| decode_cons: "between fn (on_forward_begin fn True ids s) t \<Longrightarrow> forward_due ids (cap t) = (req_ids, due, c) \<Longrightarrow>
    decode_run fn fs (snd (on_forward_end fn score True ids t)) s' \<Longrightarrow> decode_run fn ((ids, due) # fs) s s'"

inductive_cases decode_consE: "decode_run fn ((ids, due) # fs) s s'"

text \<open>A capturer on the score-resident path whose buffers are built, with an agreed view of the rows.\<close>

definition cadence_built :: "capturer \<Rightarrow> bool" where
  "cadence_built c \<longleftrightarrow> score_resident c \<and> rows c \<noteq> None \<and> cap_hook c \<noteq> None \<and> page_table_buf c \<noteq> None \<and> 0 < interval c"

definition cadence_ready :: "capturer \<Rightarrow> bool" where
  "cadence_ready c \<longleftrightarrow> cadence_built c \<and> (prev_row_occupant c \<noteq> None \<longrightarrow> cached_req_ids c = prev_row_occupant c)"

lemma ready_keeps: "cadence_ready c \<Longrightarrow> keeps_cadence c c' \<Longrightarrow> cadence_ready c'"
  by (auto simp: cadence_ready_def cadence_built_def keeps_cadence_def cadence_def)

lemma keeps_between: "between fn s t \<Longrightarrow> keeps_cadence (cap s) (cap t)"
proof (induction rule: between.induct)
  case (between_capture s t clid n pt seql)
  have "keeps_cadence c (capture_side_band_inputs clid n pt seql c)" for c
    by (simp add: capture_side_band_inputs_def capture_meta_def keeps_cadence_def cadence_def Let_def split: option.split)
  with between_capture show ?case by (auto intro: keeps_trans)
next
  case (between_thread s t)
  then show ?case using keeps_join keeps_trans by blast
qed simp_all

lemma keeps_step: "keeps_cadence c c' \<Longrightarrow> step_of c' ri = step_of c ri \<and> phase_of c' ri = phase_of c ri \<and> interval c' = interval c"
  by (auto simp: keeps_cadence_def cadence_def step_of_def phase_of_def)

lemma fold_restart_phase:
  "ri \<notin> (\<lambda>bi. ids ! bi) ` set bis \<Longrightarrow> req_phase (fold (restart_row ids) bis c) ri = req_phase c ri"
  by (induction bis arbitrary: c) (auto simp: restart_row_def restart_req_def Let_def)

lemma restart_cadence_fields [simp]:
  "stagger_cycle (fold (restart_row ids) bis c) = stagger_cycle c" "interval (fold (restart_row ids) bis c) = interval c"
  "cached_req_ids (fold (restart_row ids) bis c) = cached_req_ids c" "score_resident (fold (restart_row ids) bis c) = score_resident c"
  "cap_hook (fold (restart_row ids) bis c) = cap_hook c" "page_table_buf (fold (restart_row ids) bis c) = page_table_buf c"
  by (induction bis arbitrary: c) (simp_all add: restart_row_def restart_req_def Let_def)

lemma clear_keeps: "keeps_cadence c (clear_rows P c)"
  by (simp add: keeps_cadence_def cadence_def clear_rows_def split: option.split)

text \<open>The turnover either restarts a request, which makes it due, or leaves its cadence alone.\<close>

lemma turnover_cadence:
  assumes "cadence_built (cap s)" "cached_req_ids (cap s) = Some ids"
  shows "cadence_ready (cap (reset_changed_rows ids (length ids) s))" "interval (cap (reset_changed_rows ids (length ids) s)) = interval (cap s)"
    and "cached_req_ids (cap (reset_changed_rows ids (length ids) s)) = Some ids"
    and "is_due (cap (reset_changed_rows ids (length ids) s)) ri \<or> step_of (cap (reset_changed_rows ids (length ids) s)) ri = step_of (cap s) ri
      \<and> phase_of (cap (reset_changed_rows ids (length ids) s)) ri = phase_of (cap s) ri"
proof -
  let ?ch = "changed_rows (cap s) ids (length ids)" and ?B = "length ids"
  define c1 where "c1 = (if ?B < max_bs (cap s) then clear_rows (\<lambda>r. ?B \<le> r) (cap s) else cap s)"
  define c2 where "c2 = (if ?ch \<noteq> [] then fold (restart_row ids) ?ch (clear_rows (\<lambda>r. r \<in> set ?ch) c1) else c1)"
  obtain b where b: "rows (cap s) = Some b" using assms(1) by (auto simp: cadence_built_def)
  have c: "cap (reset_changed_rows ids ?B s) = (if ?ch \<noteq> [] \<or> ?B < max_bs (cap s) then refresh_valid_mask c2 else c2)\<lparr>prev_row_occupant := Some ids\<rparr>"
    using b by (simp add: reset_changed_rows_def Let_def c1_def c2_def)
  have k1: "keeps_cadence (cap s) c1" by (simp add: c1_def clear_keeps)
  let ?r = "clear_rows (\<lambda>r. r \<in> set ?ch) c1"
  have k: "keeps_cadence (cap s) ?r" by (rule keeps_trans [OF k1 clear_keeps])
  note d1 = cadenceD [OF k1 [unfolded keeps_cadence_def, THEN conjunct1]] and d = cadenceD [OF k [unfolded keeps_cadence_def, THEN conjunct1]]
  have step: "req_step c2 r = (if r \<in> (\<lambda>bi. ids ! bi) ` set ?ch then Some 0 else req_step (cap s) r)" for r
    by (simp add: c2_def fold_restart_step d d1)
  have phase: "r \<notin> (\<lambda>bi. ids ! bi) ` set ?ch \<Longrightarrow> req_phase c2 r = req_phase (cap s) r" for r
    by (simp add: c2_def fold_restart_phase d d1)
  have rest: "stagger_cycle c2 = stagger_cycle (cap s)" "interval c2 = interval (cap s)" "cached_req_ids c2 = Some ids"
    "score_resident c2" "cap_hook c2 \<noteq> None" "page_table_buf c2 \<noteq> None" "rows c2 \<noteq> None"
    using assms k k1 by (simp_all add: c2_def d d1 cadence_built_def keeps_cadence_def)
  let ?v = "if ?ch \<noteq> [] \<or> ?B < max_bs (cap s) then refresh_valid_mask c2 else c2"
  have kv: "keeps_cadence c2 ?v" by (simp add: keeps_buffers(3))
  note dv = cadenceD [OF kv [unfolded keeps_cadence_def, THEN conjunct1]]
  show "interval (cap (reset_changed_rows ids ?B s)) = interval (cap s)" "cached_req_ids (cap (reset_changed_rows ids ?B s)) = Some ids"
    unfolding c using dv rest by simp_all
  show "cadence_ready (cap (reset_changed_rows ids ?B s))"
    unfolding c using dv rest kv assms(1) by (simp add: cadence_ready_def cadence_built_def keeps_cadence_def)
  show "is_due (cap (reset_changed_rows ids ?B s)) ri \<or> step_of (cap (reset_changed_rows ids ?B s)) ri = step_of (cap s) ri
      \<and> phase_of (cap (reset_changed_rows ids ?B s)) ri = phase_of (cap s) ri"
    unfolding c using dv step [of ri] phase [of ri] rest(1)
    by (cases "ri \<in> (\<lambda>bi. ids ! bi) ` set ?ch") (simp_all add: is_due_def step_of_def phase_of_def)
qed

lemma begin_cadence:
  assumes "cadence_ready (cap s)" "ids \<noteq> []" "s1 = on_forward_begin fn True ids s"
  shows "cadence_ready (cap s1)" "cached_req_ids (cap s1) = Some ids" "interval (cap s1) = interval (cap s)"
    and "is_due (cap s1) ri \<or> step_of (cap s1) ri = step_of (cap s) ri \<and> phase_of (cap s1) ri = phase_of (cap s) ri"
proof -
  have "cadence_ready (cap s1) \<and> cached_req_ids (cap s1) = Some ids \<and> interval (cap s1) = interval (cap s)
    \<and> (is_due (cap s1) ri \<or> step_of (cap s1) ri = step_of (cap s) ri \<and> phase_of (cap s1) ri = phase_of (cap s) ri)"
  proof (cases "prev_row_occupant (cap s) = Some ids")
    case True
    then show ?thesis using assms by (simp add: on_forward_begin_def cadence_ready_def cadence_built_def)
  next
    case False
    have k: "keeps_cadence (cap s) (cap (join_recall fn s))" by (rule keeps_join)
    have "\<not> (\<not> score_resident (cap s) \<or> rows (cap s) = None \<or> \<not> True \<or> ids = [] \<or> prev_row_occupant (cap s) = Some ids)"
      using assms(1,2) False by (simp add: cadence_ready_def cadence_built_def)
    note go = this
    have "\<exists>s2. s1 = reset_changed_rows ids (length ids) s2 \<and> cap s2 = (cap (join_recall fn s))\<lparr>cached_req_ids := Some ids\<rparr>"
      using assms(3) unfolding on_forward_begin_def Let_def if_not_P [OF go] by (intro exI conjI, assumption) simp
    then obtain s2 where s2: "s1 = reset_changed_rows ids (length ids) s2"
        "cap s2 = (cap (join_recall fn s))\<lparr>cached_req_ids := Some ids\<rparr>" by blast
    have st: "step_of (cap s2) ri = step_of (cap s) ri" "phase_of (cap s2) ri = phase_of (cap s) ri" "interval (cap s2) = interval (cap s)"
      using cadenceD [OF k [unfolded keeps_cadence_def, THEN conjunct1]] by (simp_all add: s2(2) step_of_def phase_of_def)
    have "cadence_built (cap s2)" "cached_req_ids (cap s2) = Some ids"
      using ready_keeps [OF assms(1) k] by (simp_all add: s2(2) cadence_ready_def cadence_built_def)
    from turnover_cadence(1-3) [OF this] turnover_cadence(4) [OF this, of ri] st show ?thesis unfolding s2(1) by simp
  qed
  then show "cadence_ready (cap s1)" "cached_req_ids (cap s1) = Some ids" "interval (cap s1) = interval (cap s)"
    "is_due (cap s1) ri \<or> step_of (cap s1) ri = step_of (cap s) ri \<and> phase_of (cap s1) ri = phase_of (cap s) ri" by blast+
qed

lemma due_cadence_fields:
  "cached_req_ids (snd (due_loop k ris c)) = cached_req_ids c" "prev_row_occupant (snd (due_loop k ris c)) = prev_row_occupant c"
  "score_resident (snd (due_loop k ris c)) = score_resident c" "cap_hook (snd (due_loop k ris c)) = cap_hook c"
  "page_table_buf (snd (due_loop k ris c)) = page_table_buf c" "rows (snd (due_loop k ris c)) = rows c"
  by (induction ris arbitrary: k c) (simp_all add: advance_req_def split_beta)

lemma end_cadence:
  assumes "cadence_ready (cap t)" "cached_req_ids (cap t) = Some ids" "distinct ids" "forward_due ids (cap t) = (req_ids, due, c)"
    and "s' = snd (on_forward_end fn score True ids t)"
  shows "i < length ids \<Longrightarrow> i \<in> set due \<longleftrightarrow> is_due (cap t) (ids ! i)"
    and "cadence_ready (cap s')" "interval (cap s') = interval (cap t)"
    and "ri \<in> set ids \<Longrightarrow> step_of (cap s') ri = step_of (cap t) ri + 1 \<and> phase_of (cap s') ri = phase_of (cap t) ri"
proof -
  define c1 where "c1 = (cap t)\<lparr>ofe_global_step := ofe_global_step (cap t) + 1\<rparr>"
  have c1: "cadence c1 = cadence (cap t)" "cadence_ready c1" "cached_req_ids c1 = Some ids"
    using assms(1,2) by (simp_all add: c1_def cadence_def cadence_ready_def cadence_built_def)
  have eq: "c1\<lparr>cached_req_ids := Some ids\<rparr> = c1" using c1(3) by simp
  have fd: "due_loop 0 ids c1 = (due, c)"
    using assms(4) unfolding forward_due_def Let_def c1_def [symmetric] c1(3) option.case eq by (auto split: prod.splits)
  have dc: "due = fst (due_loop 0 ids c1)" "c = snd (due_loop 0 ids c1)" using fd by simp_all
  have "is_due c1 r = is_due (cap t) r" for r using c1(1) by (simp add: is_due_def cadence_def)
  then show "i < length ids \<Longrightarrow> i \<in> set due \<longleftrightarrow> is_due (cap t) (ids ! i)"
    using due_loop_due [OF assms(3), of i 0 c1] by (simp add: dc)
  have c: "cadence_ready c" "interval c = interval (cap t)"
    "ri \<in> set ids \<Longrightarrow> step_of c ri = step_of (cap t) ri + 1 \<and> phase_of c ri = phase_of (cap t) ri"
    using c1 due_loop_fields(1) [OF assms(3), of 0 c1 ri] due_loop_fields(2,3) [of 0 ids c1]
    by (simp_all add: dc cadence_ready_def cadence_built_def due_cadence_fields) (simp_all add: cadence_def step_of_def phase_of_def)
  have "keeps_cadence c (cap s')"
  proof -
    obtain h pt where hp: "cap_hook (cap t) = Some h" "page_table_buf (cap t) = Some pt"
      using assms(1) by (auto simp: cadence_ready_def cadence_built_def)
    have w: "keeps_cadence c (cap (snd (obind (sideband_work fn h jb (t\<lparr>cap := c\<rparr>)) (\<lambda>_ s2. (Inr (), on_cap (\<lambda>c. c\<lparr>cycle_count := cycle_count c + 1\<rparr>) s2)))))" for jb
      by (rule keeps_obind [of "t\<lparr>cap := c\<rparr>", simplified]) (use keeps_work [of "t\<lparr>cap := c\<rparr>"] keeps_cycle [OF keeps_refl] in simp_all)
    have j: "keeps_cadence c (cap ((join_recall fn (t\<lparr>cap := c\<rparr>))\<lparr>recall_job := x\<rparr>))" for x
      using keeps_join [of "t\<lparr>cap := c\<rparr>"] by simp
    show ?thesis unfolding assms(5) on_forward_end_def hp option.case prod.case assms(4) Let_def using w j by simp
  qed
  with c ready_keeps keeps_step show "cadence_ready (cap s')" "interval (cap s') = interval (cap t)"
    "ri \<in> set ids \<Longrightarrow> step_of (cap s') ri = step_of (cap t) ri + 1 \<and> phase_of (cap s') ri = phase_of (cap t) ri" by metis+
qed


lemma mod_before:
  fixes x m :: int
  assumes "0 < m" "x mod m \<noteq> 0"
  shows "(x - 1) mod m = x mod m - 1"
proof -
  have "0 \<le> x mod m" "x mod m < m" using assms(1) by simp_all
  then have "(x mod m - 1) mod m = x mod m - 1" using assms by (intro mod_pos_pos_trivial) linarith+
  then show ?thesis by (simp add: mod_diff_left_eq)
qed

lemma due_eventually:
  assumes "decode_run fn fs s s'" "cadence_ready (cap s)" "\<forall>f \<in> set fs. distinct (fst f) \<and> ri \<in> set (fst f)"
    and "(phase_of (cap s) ri - step_of (cap s) ri) mod interval (cap s) < int (length fs)"
  shows "\<exists>f \<in> set fs. \<exists>i < length (fst f). fst f ! i = ri \<and> i \<in> set (snd f)"
  using assms
proof (induction rule: decode_run.induct)
  case (decode_nil s)
  then have "0 \<le> (phase_of (cap s) ri - step_of (cap s) ri) mod interval (cap s)"
    by (intro pos_mod_sign) (simp add: cadence_ready_def cadence_built_def)
  with decode_nil show ?case by simp
next
  case (decode_cons ids s t req_ids due c fs score s')
  let ?s1 = "on_forward_begin fn True ids s" and ?s2 = "snd (on_forward_end fn score True ids t)"
  have ids: "distinct ids" "ri \<in> set ids" "ids \<noteq> []" using decode_cons.prems(2) by auto
  note b = begin_cadence [OF decode_cons.prems(1) ids(3) refl, of fn]
  have k: "keeps_cadence (cap ?s1) (cap t)" by (rule keeps_between [OF decode_cons.hyps(1)])
  have t: "cadence_ready (cap t)" "cached_req_ids (cap t) = Some ids"
    using ready_keeps [OF b(1) k] b(2) k by (simp_all add: keeps_cadence_def cadence_def)
  note st = keeps_step [OF k, of ri]
  note e1 = end_cadence(1) [OF t ids(1) decode_cons.hyps(2) refl] and e = end_cadence(2-4) [OF t ids(1) decode_cons.hyps(2) refl, where fn = fn and score = score]
  obtain i where i: "i < length ids" "ids ! i = ri" using ids(2) by (auto simp: in_set_conv_nth)
  show ?case
  proof (cases "is_due (cap t) ri")
    case True
    then show ?thesis using i e1 [OF i(1)] by auto
  next
    case False
    then have nd: "\<not> is_due (cap ?s1) ri" using st by (simp add: is_due_eq)
    then have eq: "step_of (cap t) ri = step_of (cap s) ri" "phase_of (cap t) ri = phase_of (cap s) ri" "interval (cap t) = interval (cap s)"
      using b(3) b(4) [of ri] st by auto
    let ?x = "phase_of (cap s) ri - step_of (cap s) ri"
    have I: "0 < interval (cap s)" using decode_cons.prems(1) by (simp add: cadence_ready_def cadence_built_def)
    have "step_of (cap s) ri mod interval (cap s) \<noteq> phase_of (cap s) ri mod interval (cap s)" using False eq by (simp add: is_due_eq)
    then have "?x mod interval (cap s) \<noteq> 0" by (metis mod_eq_dvd_iff mod_0_imp_dvd)
    from mod_before [OF I this]
    have "(phase_of (cap ?s2) ri - step_of (cap ?s2) ri) mod interval (cap ?s2) < int (length fs)"
      using e(2) e(3) [of ri] ids(2) eq decode_cons.prems(3) by (simp add: algebra_simps)
    with decode_cons.IH [OF e(1)] decode_cons.prems(2) show ?thesis by auto
  qed
qed


text \<open>Four forwards of a capturer that has seen request 8 once.\<close>

definition small_cadence :: sys where
  "small_cadence = small_sys\<lparr>cap := (ensure_page_recall_buffers small_cap)\<lparr>page_table_buf := Some [[3, 1]], req_step := (\<lambda>_. None)(8 := Some 1)\<rparr>\<rparr>"

lemma forwards_exist: "\<exists>fs s'. decode_run fn fs s s' \<and> map fst fs = batches"
proof (induction batches arbitrary: s)
  case (Cons ids batches)
  let ?t = "on_forward_begin fn True ids s"
  obtain req_ids due c where fd: "forward_due ids (cap ?t) = (req_ids, due, c)" by (metis prod_cases3)
  obtain fs s' where "decode_run fn fs (snd (on_forward_end fn (\<lambda>_ _ _. None) True ids ?t)) s'" "map fst fs = batches" using Cons.IH by blast
  with decode_cons [OF between_refl fd] show ?case by (metis fst_conv list.map(2))
qed (auto intro: decode_nil)


end
