(* ===== verification/Allocator.thy ===== *)
theory Allocator
  imports Prelude
begin

section \<open>The token and the paged allocator\<close>

text \<open>
  \<open>TokenToKVPoolAllocator\<close> and \<open>PagedTokenToKVPoolAllocator\<close> of \<open>allocator.py\<close>: the free list of
  pages (of one token in the first class), the release list that a sorting allocator merges back when
  it runs short, and the group that collects frees between \<open>free_group_begin\<close> and \<open>free_group_end\<close>.
  The two Triton kernels are one list of writes per program; the programs run in the order of their
  ids. A masked-off lane of a load gives the same value in both length tensors, so it adds nothing to
  the sums; a load past the end of the free list gives \<open>oob\<close>, and the output tensor starts out as
  \<open>junk\<close>. The assertions of the debug mode, which is off by default, are left out.
\<close>

record allocator =
  pool_size :: int
  pool_page_size :: int
  need_sort :: bool
  free_pages :: "int list"
  release_pages :: "int list"
  is_not_in_free_group :: bool
  free_group :: "int list list"
  seen_max_num_extend_tokens :: int

definition num_pages :: "allocator \<Rightarrow> int" where
  "num_pages a = pool_size a div pool_page_size a"

definition available_size :: "allocator \<Rightarrow> int" where
  "available_size a = (int (length (free_pages a)) + int (length (release_pages a))) * pool_page_size a"

definition backup_state :: "allocator \<Rightarrow> int list \<times> int list" where
  "backup_state a = (free_pages a, release_pages a)"

definition restore_state :: "int list \<times> int list \<Rightarrow> allocator \<Rightarrow> allocator" where
  "restore_state st a = a\<lparr>free_pages := fst st, release_pages := snd st\<rparr>"

definition merge_and_sort_free :: "allocator \<Rightarrow> allocator" where
  "merge_and_sort_free a =
     (if release_pages a \<noteq> [] then a\<lparr>free_pages := sort (free_pages a @ release_pages a), release_pages := []\<rparr> else a)"

definition free_group_begin :: "allocator \<Rightarrow> allocator" where
  "free_group_begin a = a\<lparr>is_not_in_free_group := False, free_group := []\<rparr>"

text \<open>\<open>clear\<close>: page 0 is the padding page.\<close>

definition clear_alloc :: "allocator \<Rightarrow> allocator" where
  "clear_alloc a = a\<lparr>free_pages := int_range 1 (nat (num_pages a)), is_not_in_free_group := True, free_group := [],
     release_pages := []\<rparr>"

definition init_alloc :: "int \<Rightarrow> int \<Rightarrow> bool \<Rightarrow> allocator" where
  "init_alloc n_tok page_size sorted_free = clear_alloc
     \<lparr>pool_size = n_tok, pool_page_size = page_size, need_sort = sorted_free, free_pages = [], release_pages = [],
      is_not_in_free_group = True, free_group = [], seen_max_num_extend_tokens = 1\<rparr>"

text \<open>Take \<open>n\<close> pages off the free list, merging the release list first when it is too short.\<close>

definition take_pages :: "nat \<Rightarrow> allocator \<Rightarrow> int list option \<times> allocator" where
  "take_pages n a =
     (let a1 = (if need_sort a \<and> length (free_pages a) < n then merge_and_sort_free a else a)
      in if length (free_pages a1) < n then (None, a1)
         else (Some (take n (free_pages a1)), a1\<lparr>free_pages := drop n (free_pages a1)\<rparr>))"


subsection \<open>One token per page\<close>

definition token_alloc :: "nat \<Rightarrow> allocator \<Rightarrow> int list option \<times> allocator" where
  "token_alloc need_size a = take_pages need_size a"

definition token_free :: "int list \<Rightarrow> allocator \<Rightarrow> allocator" where
  "token_free free_index a =
     (if free_index = [] then a
      else if is_not_in_free_group a then
        if need_sort a then a\<lparr>release_pages := release_pages a @ free_index\<rparr>
        else a\<lparr>free_pages := free_pages a @ free_index\<rparr>
      else a\<lparr>free_group := free_group a @ [free_index]\<rparr>)"

definition token_free_group_end :: "allocator \<Rightarrow> allocator" where
  "token_free_group_end a =
     (let a1 = a\<lparr>is_not_in_free_group := True\<rparr>
      in if free_group a \<noteq> [] then token_free (concat (free_group a)) a1 else a1)"


subsection \<open>Pages\<close>

definition page_indices :: "int \<Rightarrow> int list \<Rightarrow> int list" where
  "page_indices ps pages = concat (map (\<lambda>pg. int_range (pg * ps) (nat ps)) pages)"

definition paged_alloc :: "nat \<Rightarrow> allocator \<Rightarrow> int list option \<times> allocator" where
  "paged_alloc need_size a =
     (case take_pages (nat (int need_size div pool_page_size a)) a of
        (None, a1) \<Rightarrow> (None, a1)
      | (Some out_pages, a1) \<Rightarrow> (Some (page_indices (pool_page_size a) out_pages), a1))"

definition paged_free :: "int list \<Rightarrow> allocator \<Rightarrow> allocator" where
  "paged_free free_index a =
     (if free_index = [] then a
      else if is_not_in_free_group a then
        let pages = unique (map (\<lambda>i. i div pool_page_size a) free_index)
        in if need_sort a then a\<lparr>release_pages := pages @ release_pages a\<rparr>
           else a\<lparr>free_pages := pages @ free_pages a\<rparr>
      else a\<lparr>free_group := free_group a @ [free_index]\<rparr>)"

definition paged_free_group_end :: "allocator \<Rightarrow> allocator" where
  "paged_free_group_end a =
     (let a1 = a\<lparr>is_not_in_free_group := True\<rparr>
      in if free_group a \<noteq> [] then paged_free (concat (free_group a)) a1 else a1)"


subsection \<open>The extend kernel\<close>

definition pages_up :: "int \<Rightarrow> int \<Rightarrow> int" where
  "pages_up ps n = (n + ps - 1) div ps"

definition load_page :: "(int \<Rightarrow> int) \<Rightarrow> int list \<Rightarrow> int \<Rightarrow> int" where
  "load_page oob pages i = (if 0 \<le> i \<and> i < int (length pages) then pages ! nat i else oob i)"

text \<open>A sum over the lanes up to and including the program's own, without its own.\<close>

definition lanes_before :: "(int \<Rightarrow> int \<Rightarrow> int) \<Rightarrow> int list \<Rightarrow> int list \<Rightarrow> nat \<Rightarrow> int" where
  "lanes_before f pre_lens seq_lens pid =
     sum_list (map2 f (take (Suc pid) pre_lens) (take (Suc pid) seq_lens)) - f (pre_lens ! pid) (seq_lens ! pid)"

definition alloc_extend_kernel ::
  "(int \<Rightarrow> int) \<Rightarrow> int \<Rightarrow> nat \<Rightarrow> int list \<Rightarrow> int list \<Rightarrow> int list \<Rightarrow> int list \<Rightarrow> nat \<Rightarrow> (int \<times> int) list" where
  "alloc_extend_kernel oob page_size max_num_extend_tokens pre_lens seq_lens last_locs free pid =
     (let seq_len = seq_lens ! pid;
          pre_len = pre_lens ! pid;
          output_start_loc = lanes_before (\<lambda>p s. s - p) pre_lens seq_lens pid;
          num_page_start_loc_self = pages_up page_size seq_len - pages_up page_size pre_len;
          new_page_start_loc = lanes_before (\<lambda>p s. pages_up page_size s - pages_up page_size p) pre_lens seq_lens pid;
          last_loc = last_locs ! pid;
          num_part1 = min seq_len (pages_up page_size pre_len * page_size) - pre_len;
          part1 = map (\<lambda>off. (output_start_loc + off, last_loc + 1 + off))
                    (filter (\<lambda>off. off < num_part1) (int_range 0 (nat page_size)))
      in if pre_len + num_part1 = seq_len then part1
         else
           let num_part2 = seq_len div page_size * page_size - pages_up page_size pre_len * page_size;
               part2 = map (\<lambda>off. (output_start_loc + num_part1 + off,
                                   load_page oob free (new_page_start_loc + off div page_size) * page_size + off mod page_size))
                         (filter (\<lambda>off. off < num_part2) (int_range 0 max_num_extend_tokens))
           in if pre_len + num_part1 + num_part2 = seq_len then part1 @ part2
              else
                let num_part3 = seq_len - seq_len div page_size * page_size;
                    start_loc = load_page oob free (new_page_start_loc + num_page_start_loc_self - 1);
                    part3 = map (\<lambda>off. (output_start_loc + num_part1 + num_part2 + off, start_loc * page_size + off))
                              (filter (\<lambda>off. off < num_part3) (int_range 0 (nat page_size)))
                in part1 @ part2 @ part3)"

definition next_power_of_2 :: "int \<Rightarrow> int" where
  "next_power_of_2 n = (if 0 < n then 2 ^ bit_length (n - 1) else 1)"

definition get_num_new_pages :: "int \<Rightarrow> int list \<Rightarrow> int list \<Rightarrow> int" where
  "get_num_new_pages page_size prefix_lens seq_lens =
     sum_list (map2 (\<lambda>p s. pages_up page_size s - pages_up page_size p) prefix_lens seq_lens)"

definition get_num_new_pages_decode :: "int \<Rightarrow> int list \<Rightarrow> int" where
  "get_num_new_pages_decode page_size seq_lens = int (length (filter (\<lambda>s. s mod page_size = 1) seq_lens))"

text \<open>The last part of both allocations: give up, or take the pages the kernel used.\<close>

definition commit_pages :: "int \<Rightarrow> int list \<Rightarrow> allocator \<Rightarrow> int list option \<times> allocator" where
  "commit_pages num_new_pages out_indices a =
     (if int (length (free_pages a)) < num_new_pages then (None, a)
      else (Some out_indices, a\<lparr>free_pages := drop (nat num_new_pages) (free_pages a)\<rparr>))"

definition alloc_extend ::
  "(int \<Rightarrow> int) \<Rightarrow> (int \<Rightarrow> int) \<Rightarrow> int list \<Rightarrow> int list \<Rightarrow> int list \<Rightarrow> nat \<Rightarrow> allocator \<Rightarrow> int list option \<times> allocator" where
  "alloc_extend oob junk prefix_lens seq_lens last_loc extend_num_tokens a =
     (let seen = max (seen_max_num_extend_tokens a) (next_power_of_2 (int extend_num_tokens));
          a0 = a\<lparr>seen_max_num_extend_tokens := seen\<rparr>;
          bs = length prefix_lens;
          a1 = (if need_sort a \<and> int (length (free_pages a)) < int extend_num_tokens div pool_page_size a + int bs + 1
                then merge_and_sort_free a0 else a0);
          writes = concat (map (alloc_extend_kernel oob (pool_page_size a) (nat seen) prefix_lens seq_lens last_loc (free_pages a1))
                             [0..<bs]);
          out_indices = map (scatter writes junk) (int_range 0 extend_num_tokens)
      in commit_pages (get_num_new_pages (pool_page_size a) prefix_lens seq_lens) out_indices a1)"


subsection \<open>The decode kernel\<close>

definition alloc_decode_kernel ::
  "(int \<Rightarrow> int) \<Rightarrow> int \<Rightarrow> int list \<Rightarrow> int list \<Rightarrow> int list \<Rightarrow> nat \<Rightarrow> (int \<times> int) list" where
  "alloc_decode_kernel oob page_size seq_lens last_locs free pid =
     (let seq_len = seq_lens ! pid;
          pre_len = seq_len - 1;
          num_page_start_loc_self = pages_up page_size seq_len - pages_up page_size pre_len;
          new_page_start_loc =
            lanes_before (\<lambda>p s. pages_up page_size s - pages_up page_size p) (map (\<lambda>s. s - 1) seq_lens) seq_lens pid
      in if num_page_start_loc_self = 0 then [(int pid, last_locs ! pid + 1)]
         else [(int pid, load_page oob free new_page_start_loc * page_size)])"

definition alloc_decode ::
  "(int \<Rightarrow> int) \<Rightarrow> (int \<Rightarrow> int) \<Rightarrow> int list \<Rightarrow> int list \<Rightarrow> allocator \<Rightarrow> int list option \<times> allocator" where
  "alloc_decode oob junk seq_lens last_loc a =
     (let bs = length seq_lens;
          a1 = (if need_sort a \<and> length (free_pages a) < bs then merge_and_sort_free a else a);
          writes = concat (map (alloc_decode_kernel oob (pool_page_size a) seq_lens last_loc (free_pages a1)) [0..<bs]);
          out_indices = map (scatter writes junk) (int_range 0 bs)
      in commit_pages (get_num_new_pages_decode (pool_page_size a) seq_lens) out_indices a1)"

end
