(* ===== verification/AllocProps.thy ===== *)
theory AllocProps
  imports Allocator
begin

section \<open>What the allocators guarantee\<close>

text \<open>
  Two layers. The pool: every page is free, pending or held by exactly one client
  (\<open>pool_ok\<close>), a contract that both allocators meet (the locale \<open>kv_pool\<close>). The kernels: the
  writes of \<open>alloc_extend_kernel\<close> are the positions of each request in its own page table, and
  \<open>alloc_decode_kernel\<close> is the extension by one token.
\<close>

subsection \<open>The pool\<close>

definition pages_of :: "int \<Rightarrow> int list \<Rightarrow> int set" where
  "pages_of ps idx = (\<lambda>i. i div ps) ` set idx"

definition avail :: "allocator \<Rightarrow> int set" where
  "avail a = set (free_pages a) \<union> set (release_pages a)"

definition pending :: "allocator \<Rightarrow> int set" where
  "pending a = (if is_not_in_free_group a then {} else pages_of (pool_page_size a) (concat (free_group a)))"

text \<open>\<open>held\<close> is what the clients have.\<close>

definition pool_ok :: "allocator \<Rightarrow> int set \<Rightarrow> bool" where
  "pool_ok a held \<longleftrightarrow> 0 < pool_page_size a \<and> distinct (free_pages a @ release_pages a)
     \<and> (\<not> need_sort a \<longrightarrow> release_pages a = []) \<and> (\<not> is_not_in_free_group a \<longrightarrow> distinct (concat (free_group a)))
     \<and> avail a \<union> pending a \<union> held = {1..num_pages a}
     \<and> avail a \<inter> held = {} \<and> pending a \<inter> held = {} \<and> avail a \<inter> pending a = {}"

lemma pool_ok_init: "0 < ps \<Longrightarrow> pool_ok (init_alloc n_tok ps b) {}"
  by (auto simp: pool_ok_def init_alloc_def clear_alloc_def num_pages_def avail_def pending_def pages_of_def)

lemma merge_fields [simp]:
  "avail (merge_and_sort_free a) = avail a" "pending (merge_and_sort_free a) = pending a"
  "pool_page_size (merge_and_sort_free a) = pool_page_size a" "num_pages (merge_and_sort_free a) = num_pages a"
  "need_sort (merge_and_sort_free a) = need_sort a" "release_pages (merge_and_sort_free a) = []"
  "is_not_in_free_group (merge_and_sort_free a) = is_not_in_free_group a" "free_group (merge_and_sort_free a) = free_group a"
  by (auto simp: merge_and_sort_free_def avail_def pending_def num_pages_def)

lemma merge_distinct: "distinct (free_pages a @ release_pages a) \<Longrightarrow> distinct (free_pages (merge_and_sort_free a))"
  by (simp add: merge_and_sort_free_def)

lemma merge_ok: "pool_ok a held \<Longrightarrow> pool_ok (merge_and_sort_free a) held"
  using merge_distinct [of a] by (simp add: pool_ok_def)

lemma seen_fields [simp]:
  "avail (a\<lparr>seen_max_num_extend_tokens := m\<rparr>) = avail a" "pool_ok (a\<lparr>seen_max_num_extend_tokens := m\<rparr>) held = pool_ok a held"
  by (simp_all add: pool_ok_def avail_def pending_def num_pages_def)

text \<open>Both allocations merge when the free list may be too short, and then take pages off its front.\<close>

lemma take_ok:
  assumes "pool_ok a held" "n \<le> length (free_pages a)"
  shows "pool_ok (a\<lparr>free_pages := drop n (free_pages a)\<rparr>) (held \<union> set (take n (free_pages a)))"
    and "set (take n (free_pages a)) \<subseteq> avail a" "distinct (take n (free_pages a))"
    and "avail (a\<lparr>free_pages := drop n (free_pages a)\<rparr>) = avail a - set (take n (free_pages a))"
proof -
  have d: "distinct (free_pages a)" "set (free_pages a) \<inter> set (release_pages a) = {}" using assms(1) by (simp_all add: pool_ok_def)
  have s: "set (free_pages a) = set (take n (free_pages a)) \<union> set (drop n (free_pages a))"
    by (metis append_take_drop_id set_append)
  have disj: "set (take n (free_pages a)) \<inter> set (drop n (free_pages a)) = {}"
    using d(1) by (metis append_take_drop_id distinct_append)
  show "set (take n (free_pages a)) \<subseteq> avail a" using s by (auto simp: avail_def)
  show "distinct (take n (free_pages a))" using d(1) by simp
  show av: "avail (a\<lparr>free_pages := drop n (free_pages a)\<rparr>) = avail a - set (take n (free_pages a))"
    using s disj d(2) by (auto simp: avail_def)
  have "pending (a\<lparr>free_pages := drop n (free_pages a)\<rparr>) = pending a" by (simp add: pending_def)
  moreover have "num_pages (a\<lparr>free_pages := drop n (free_pages a)\<rparr>) = num_pages a" by (simp add: num_pages_def)
  moreover have "set (drop n (free_pages a)) \<inter> set (release_pages a) = {}" using d(2) s by auto
  ultimately show "pool_ok (a\<lparr>free_pages := drop n (free_pages a)\<rparr>) (held \<union> set (take n (free_pages a)))"
    using assms(1) \<open>set (take n (free_pages a)) \<subseteq> avail a\<close> unfolding pool_ok_def av by auto
qed

lemma avail_card: "pool_ok a held \<Longrightarrow> card (avail a) = length (free_pages a) + length (release_pages a)"
  by (simp add: pool_ok_def avail_def card_Un_disjoint distinct_card)

text \<open>\<open>take_pages\<close> fails only when the pool has too few pages.\<close>

lemma take_pages_ok:
  assumes "pool_ok a held" "take_pages n a = (r, a')"
  shows "case r of None \<Rightarrow> pool_ok a' held \<and> avail a' = avail a \<and> card (avail a) < n
    | Some ps \<Rightarrow> pool_ok a' (held \<union> set ps) \<and> distinct ps \<and> length ps = n \<and> set ps \<subseteq> avail a \<and> avail a' = avail a - set ps"
proof -
  define a1 where "a1 = (if need_sort a \<and> length (free_pages a) < n then merge_and_sort_free a else a)"
  have ok: "pool_ok a1 held" and av: "avail a1 = avail a" using assms(1) merge_ok by (simp_all add: a1_def)
  have short: "card (avail a) < n" if "length (free_pages a1) < n"
  proof -
    have "release_pages a1 = []" using that assms(1) by (auto simp: a1_def pool_ok_def split: if_splits)
    then show ?thesis using that avail_card [OF ok] av by simp
  qed
  show ?thesis
    using assms(2) take_ok [OF ok, of n] ok av short
    by (auto simp: take_pages_def a1_def [symmetric] Let_def min_def split: if_splits)
qed


subsection \<open>The extend kernel\<close>

lemma pages_up_bounds:
  assumes "0 < ps"
  shows "n \<le> pages_up ps n * ps" "pages_up ps n * ps < n + ps"
proof -
  show "n \<le> pages_up ps n * ps" using ceil_div(1) [OF assms, of n] by (simp add: pages_up_def mult.commute)
  have "(n + ps - 1) div ps * ps + (n + ps - 1) mod ps = n + ps - 1" "0 \<le> (n + ps - 1) mod ps" using assms by simp_all
  then show "pages_up ps n * ps < n + ps" unfolding pages_up_def by linarith
qed

lemma pages_up_eq:
  assumes "0 < ps"
  shows "pages_up ps n = (if n mod ps = 0 then n div ps else n div ps + 1)"
proof -
  have n: "n = n div ps * ps + n mod ps" by simp
  have m: "0 \<le> n mod ps" "n mod ps < ps" using assms by simp_all
  show ?thesis
  proof (cases "n mod ps = 0")
    case True
    then have "n + ps - 1 = (ps - 1) + n div ps * ps" using n by linarith
    then have "pages_up ps n = n div ps + (ps - 1) div ps" unfolding pages_up_def using assms by (simp only: div_mult_self1)
    with True assms show ?thesis by simp
  next
    case False
    then have "n + ps - 1 = (n mod ps - 1) + (n div ps + 1) * ps" using n by (simp add: algebra_simps)
    then have "pages_up ps n = n div ps + 1 + (n mod ps - 1) div ps" unfolding pages_up_def using assms by (simp only: div_mult_self1)
    with False m show ?thesis by simp
  qed
qed

lemma pages_up_mono: "0 < ps \<Longrightarrow> m \<le> n \<Longrightarrow> pages_up ps m \<le> pages_up ps n"
  by (simp add: pages_up_def zdiv_mono1)

lemma div_less_mult:
  fixes x k m :: int
  assumes "0 < k" "x < m * k"
  shows "x div k < m"
proof (rule ccontr)
  assume "\<not> ?thesis"
  then have "m * k \<le> x div k * k" using assms(1) by (intro mult_right_mono) simp_all
  moreover have "x div k * k + x mod k = x" "0 \<le> x mod k" using assms(1) by simp_all
  ultimately show False using assms(2) by linarith
qed

lemma less_div_mult:
  fixes x k :: int
  assumes "0 < k"
  shows "x < (x div k + 1) * k"
proof -
  have "x div k * k + x mod k = x" "x mod k < k" using assms by simp_all
  then show ?thesis unfolding distrib_right by linarith
qed

lemma filter_int_range: "nat m \<le> n \<Longrightarrow> filter (\<lambda>x. x < m) (int_range 0 n) = int_range 0 (nat m)"
proof (induction n)
  case (Suc n)
  have split: "int_range 0 (Suc n) = int_range 0 n @ [int n]" using int_range_append [of 0 n 1] by (simp add: int_range_Suc)
  show ?case
  proof (cases "nat m \<le> n")
    case True
    then show ?thesis using Suc by (simp add: split)
  next
    case False
    then have m: "nat m = Suc n" "m = int n + 1" using Suc.prems by auto
    then have "\<forall>x \<in> set (int_range 0 (Suc n)). x < m" by simp
    then show ?thesis using m by (simp only: filter_True)
  qed
qed simp

lemma map_int_range_shift: "map f (int_range (a + b) n) = map (\<lambda>x. f (a + x)) (int_range b n)"
  by (simp add: int_range_def add.assoc)

text \<open>Where position \<open>t\<close> of a request goes: on its partial page, or on the pages \<open>new\<close> it gets.\<close>

definition extend_pos :: "int \<Rightarrow> int \<Rightarrow> int \<Rightarrow> int list \<Rightarrow> int \<Rightarrow> int" where
  "extend_pos ps pre_len last_loc new t =
     (if t < pages_up ps pre_len * ps then last_loc + 1 + (t - pre_len)
      else new ! nat (t div ps - pages_up ps pre_len) * ps + t mod ps)"

definition extend_req :: "int \<Rightarrow> int \<Rightarrow> int \<Rightarrow> int \<Rightarrow> int list \<Rightarrow> int list" where
  "extend_req ps pre_len seq_len last_loc new = map (extend_pos ps pre_len last_loc new) (int_range pre_len (nat (seq_len - pre_len)))"

fun extend_locs :: "int \<Rightarrow> int list \<Rightarrow> int list \<Rightarrow> int list \<Rightarrow> int list \<Rightarrow> int list" where
  "extend_locs ps (p # pres) (s # seqs) (l # lasts) free =
     extend_req ps p s l free @ extend_locs ps pres seqs lasts (drop (nat (pages_up ps s - pages_up ps p)) free)"
| "extend_locs ps _ _ _ free = []"

text \<open>The three parts of a program's writes, one after the other.\<close>

lemma extend_parts:
  fixes last_loc :: int
  assumes ps: "0 < ps" and len: "0 \<le> pre" "pre \<le> seq" "PU = pages_up ps pre"
    and free: "0 \<le> start" "start + (pages_up ps seq - PU) \<le> int (length free)"
  defines "V \<equiv> \<lambda>off. extend_pos ps pre last_loc (drop (nat start) free) (pre + off)"
  shows "off < min seq (PU * ps) - pre \<Longrightarrow> V off = last_loc + 1 + off"
    and "PU * ps < seq \<Longrightarrow> 0 \<le> off \<Longrightarrow> off < seq div ps * ps - PU * ps \<Longrightarrow>
      V (PU * ps - pre + off) = load_page oob free (start + off div ps) * ps + off mod ps"
    and "PU * ps < seq \<Longrightarrow> 0 \<le> off \<Longrightarrow> off < seq - seq div ps * ps \<Longrightarrow>
      V (seq div ps * ps - pre + off) = load_page oob free (start + (pages_up ps seq - PU) - 1) * ps + off"
proof -
  show "V off = last_loc + 1 + off" if "off < min seq (PU * ps) - pre"
  proof -
    have "pre + off < min seq (PU * ps)" using that by linarith
    then show ?thesis by (simp add: V_def extend_pos_def len(3))
  qed
  have page: "drop (nat start) free ! nat k = load_page oob free (start + k)" if "0 \<le> k" "k < pages_up ps seq - PU" for k
    using that free by (simp add: load_page_def nat_add_distrib)
  have up: "pages_up ps seq = (if seq mod ps = 0 then seq div ps else seq div ps + 1)" by (rule pages_up_eq [OF ps])
  show "V (PU * ps - pre + off) = load_page oob free (start + off div ps) * ps + off mod ps"
    if "PU * ps < seq" "0 \<le> off" "off < seq div ps * ps - PU * ps"
  proof -
    have d: "(PU * ps + off) div ps - PU = off div ps" "(PU * ps + off) mod ps = off mod ps" using ps by simp_all
    have "off < (seq div ps - PU) * ps" using that(3) by (simp add: algebra_simps)
    then have "off div ps < seq div ps - PU" by (rule div_less_mult [OF ps])
    then have "off div ps < pages_up ps seq - PU" by (simp add: up)
    moreover have "0 \<le> off div ps" using ps that(2) by (simp add: pos_imp_zdiv_nonneg_iff)
    ultimately show ?thesis using page [of "off div ps"] d that(2) by (simp add: V_def extend_pos_def len(3) [symmetric])
  qed
  show "V (seq div ps * ps - pre + off) = load_page oob free (start + (pages_up ps seq - PU) - 1) * ps + off"
    if "PU * ps < seq" "0 \<le> off" "off < seq - seq div ps * ps"
  proof -
    have off: "off < seq mod ps" using that(3) by (simp add: minus_div_mult_eq_mod)
    then have "seq mod ps \<noteq> 0" "off < ps" using that(2) ps pos_mod_bound [of ps seq] by linarith+
    then have up: "pages_up ps seq = seq div ps + 1" by (simp add: up)
    have d: "(seq div ps * ps + off) div ps = seq div ps" "(seq div ps * ps + off) mod ps = off" using that(2) \<open>off < ps\<close> by simp_all
    have ge: "PU \<le> seq div ps"
    proof (rule ccontr)
      assume "\<not> ?thesis"
      then have "(seq div ps + 1) * ps \<le> PU * ps" using ps by (intro mult_right_mono) simp_all
      moreover have "seq < (seq div ps + 1) * ps" using ps by (rule less_div_mult)
      ultimately show False using that(1) by linarith
    qed
    then have "PU * ps \<le> seq div ps * ps" using ps by (intro mult_right_mono) simp_all
    then show ?thesis using page [of "seq div ps - PU"] d ge that(2) by (simp add: V_def extend_pos_def len(3) [symmetric] up)
  qed
qed

lemma extend_kernel_writes:
  assumes ps: "0 < ps" and len: "0 \<le> pre" "pre \<le> seq" "seq - pre \<le> int cap_ext"
    and free: "0 \<le> start" "start + (pages_up ps seq - pages_up ps pre) \<le> int (length free)"
    and pid: "pre_lens ! pid = pre" "seq_lens ! pid = seq" "last_locs ! pid = last_loc"
      "lanes_before (\<lambda>p s. s - p) pre_lens seq_lens pid = out"
      "lanes_before (\<lambda>p s. pages_up ps s - pages_up ps p) pre_lens seq_lens pid = start"
  shows "alloc_extend_kernel oob ps cap_ext pre_lens seq_lens last_locs free pid
    = map (\<lambda>off. (out + off, extend_pos ps pre last_loc (drop (nat start) free) (pre + off))) (int_range 0 (nat (seq - pre)))"
    (is "_ = map (\<lambda>off. (out + off, ?V off)) _")
proof -
  define PU where "PU = pages_up ps pre"
  define n1 n2 n3 where "n1 = min seq (PU * ps) - pre" and "n2 = seq div ps * ps - PU * ps" and "n3 = seq - seq div ps * ps"
  note parts = extend_parts [OF ps len(1,2) PU_def free(1) free(2) [folded PU_def], where last_loc = last_loc, folded n1_def n2_def n3_def]
  note b = pages_up_bounds [OF ps, of pre, folded PU_def]
  have n1: "0 \<le> n1" "n1 \<le> ps" using len b by (auto simp: n1_def)
  let ?p1 = "map (\<lambda>off. (out + off, ?V off)) (int_range 0 (nat n1))"
  have p1: "map (\<lambda>off. (out + off, last_loc + 1 + off)) (filter (\<lambda>off. off < n1) (int_range 0 (nat ps))) = ?p1"
    using n1 parts(1) by (auto simp: filter_int_range)
  note kern = alloc_extend_kernel_def [of oob ps cap_ext pre_lens seq_lens last_locs free pid, unfolded pid Let_def,
      folded PU_def, folded n1_def n2_def n3_def, unfolded p1]
  show ?thesis
  proof (cases "seq \<le> PU * ps")
    case True
    then have "n1 = seq - pre" by (simp add: n1_def)
    then show ?thesis unfolding kern by simp
  next
    case False
    then have less: "PU * ps < seq" by simp
    then have n1': "n1 = PU * ps - pre" by (simp add: n1_def)
    have ge: "PU \<le> seq div ps" using less less_div_mult [OF ps, of seq] ps
      by (metis add.commute linorder_not_less mult_less_cancel_right_pos order_less_trans zle_add1_eq_le)
    have n2: "0 \<le> n2" "nat n2 \<le> cap_ext" "0 \<le> n3" "n3 < ps" "n1 + n2 = seq div ps * ps - pre" "seq - pre = n1 + n2 + n3"
      using mult_right_mono [OF ge, of ps] ps len(3) less n1' minus_div_mult_eq_mod [of seq ps] pos_mod_bound [OF ps, of seq]
        pos_mod_sign [OF ps, of seq] n1(1) by (auto simp: n2_def n3_def)
    then have n3: "nat n3 \<le> nat ps" by simp
    let ?p2 = "map (\<lambda>off. (out + off, ?V off)) (int_range n1 (nat n2))"
    let ?p3 = "map (\<lambda>off. (out + off, ?V off)) (int_range (n1 + n2) (nat n3))"
    have p2: "map (\<lambda>off. (out + n1 + off, load_page oob free (start + off div ps) * ps + off mod ps))
        (filter (\<lambda>off. off < n2) (int_range 0 cap_ext)) = ?p2"
      unfolding filter_int_range [OF n2(2)] map_int_range_shift [of _ n1 0 "nat n2", simplified]
      using n2(1) parts(2) [OF less, where oob = oob] by (intro map_cong refl) (simp add: n1' add.assoc)
    have p3: "map (\<lambda>off. (out + n1 + n2 + off, load_page oob free (start + (pages_up ps seq - PU) - 1) * ps + off))
        (filter (\<lambda>off. off < n3) (int_range 0 (nat ps))) = ?p3"
      unfolding filter_int_range [OF n3] map_int_range_shift [of _ "n1 + n2" 0 "nat n3", simplified]
      using n2(3) parts(3) [OF less, where oob = oob] by (intro map_cong refl) (simp add: n2(5) add.assoc)
    have "int_range 0 (nat (seq - pre)) = int_range 0 (nat n1) @ int_range n1 (nat n2) @ int_range (n1 + n2) (nat n3)"
      using int_range_append [of 0 "nat n1" "nat n2 + nat n3"] int_range_append [of n1 "nat n2" "nat n3"] n1(1) n2(1,3)
      by (simp add: n2(6) nat_add_distrib add.assoc)
    then have "map (\<lambda>off. (out + off, ?V off)) (int_range 0 (nat (seq - pre))) = ?p1 @ ?p2 @ ?p3" by simp
    moreover have "pre + n1 \<noteq> seq" "pre + n1 + n2 = seq \<longleftrightarrow> n3 = 0" using n2(6) less n1' by auto
    ultimately show ?thesis unfolding kern p2 p3 by auto
  qed
qed

text \<open>All programs together.\<close>

definition lens_ok :: "int list \<Rightarrow> int list \<Rightarrow> int list \<Rightarrow> bool" where
  "lens_ok pres seqs lasts \<longleftrightarrow> length seqs = length pres \<and> length lasts = length pres
     \<and> (\<forall>i < length pres. 0 \<le> pres ! i \<and> pres ! i \<le> seqs ! i)"

definition tokens_up_to :: "int list \<Rightarrow> int list \<Rightarrow> nat \<Rightarrow> int" where
  "tokens_up_to pres seqs k = sum_list (map2 (\<lambda>p s. s - p) (take k pres) (take k seqs))"

definition pages_up_to :: "int \<Rightarrow> int list \<Rightarrow> int list \<Rightarrow> nat \<Rightarrow> int" where
  "pages_up_to ps pres seqs k = get_num_new_pages ps (take k pres) (take k seqs)"

lemma up_to_Suc:
  assumes "lens_ok pres seqs lasts" "k < length pres"
  shows "tokens_up_to pres seqs (Suc k) = tokens_up_to pres seqs k + (seqs ! k - pres ! k)"
    and "pages_up_to ps pres seqs (Suc k) = pages_up_to ps pres seqs k + (pages_up ps (seqs ! k) - pages_up ps (pres ! k))"
    and "lanes_before (\<lambda>p s. s - p) pres seqs k = tokens_up_to pres seqs k"
    and "lanes_before (\<lambda>p s. pages_up ps s - pages_up ps p) pres seqs k = pages_up_to ps pres seqs k"
  using assms by (simp_all add: lens_ok_def tokens_up_to_def pages_up_to_def get_num_new_pages_def lanes_before_def take_Suc_conv_app_nth)

lemma up_to_mono:
  assumes "lens_ok pres seqs lasts" "0 < ps" "k \<le> length pres"
  shows "0 \<le> tokens_up_to pres seqs k" "0 \<le> pages_up_to ps pres seqs k"
    and "k \<le> m \<Longrightarrow> m \<le> length pres \<Longrightarrow> tokens_up_to pres seqs k \<le> tokens_up_to pres seqs m"
    and "k \<le> m \<Longrightarrow> m \<le> length pres \<Longrightarrow> pages_up_to ps pres seqs k \<le> pages_up_to ps pres seqs m"
proof -
  have inc: "tokens_up_to pres seqs i \<le> tokens_up_to pres seqs (Suc i)" "pages_up_to ps pres seqs i \<le> pages_up_to ps pres seqs (Suc i)"
    if "i < length pres" for i
    using that assms(1) up_to_Suc(1,2) [OF assms(1) that] pages_up_mono [OF assms(2)] by (simp_all add: lens_ok_def)
  show "tokens_up_to pres seqs k \<le> tokens_up_to pres seqs m" if "k \<le> m" "m \<le> length pres" for k m
    using that by (induction m rule: dec_induct) (simp, meson Suc_le_lessD Suc_leD order_trans inc(1))
  note t = this
  show "pages_up_to ps pres seqs k \<le> pages_up_to ps pres seqs m" if "k \<le> m" "m \<le> length pres" for k m
    using that by (induction m rule: dec_induct) (simp, meson Suc_le_lessD Suc_leD order_trans inc(2))
  from t [of 0 k] this [of 0 k] assms(3) show "0 \<le> tokens_up_to pres seqs k" "0 \<le> pages_up_to ps pres seqs k"
    by (simp_all add: tokens_up_to_def pages_up_to_def get_num_new_pages_def)
qed

lemma extend_locs_append:
  assumes "length ss = length ps'" "length ls = length ps'"
    and "\<forall>i < length ps'. pages_up ps (ps' ! i) \<le> pages_up ps (ss ! i)"
  shows "extend_locs ps (ps' @ [p]) (ss @ [s]) (ls @ [l]) free
    = extend_locs ps ps' ss ls free @ extend_req ps p s l (drop (nat (get_num_new_pages ps ps' ss)) free)"
  using assms
proof (induction ps' arbitrary: ss ls free)
  case Nil
  then show ?case by (simp add: get_num_new_pages_def)
next
  case (Cons p' ps')
  then obtain s' ss' l' ls' where eq: "ss = s' # ss'" "ls = l' # ls'" by (cases ss; cases ls) auto
  have le: "pages_up ps p' \<le> pages_up ps s'" "\<forall>i < length ps'. pages_up ps (ps' ! i) \<le> pages_up ps (ss' ! i)"
    using Cons.prems(3) by (auto simp: eq less_Suc_eq_0_disj)
  have "0 \<le> get_num_new_pages ps ps' ss'"
    using le(2) Cons.prems(1) unfolding get_num_new_pages_def by (intro sum_list_nonneg) (auto simp: eq set_zip)
  then have "nat (get_num_new_pages ps (p' # ps') ss) = nat (pages_up ps s' - pages_up ps p') + nat (get_num_new_pages ps ps' ss')"
    using le(1) by (simp add: get_num_new_pages_def eq nat_add_distrib)
  with Cons.IH [of ss' ls'] Cons.prems(1,2) le(2) show ?case by (simp add: eq add.commute)
qed

lemma zip_int_range_map: "zip (int_range a n) (map g (int_range b n)) = map (\<lambda>x. (a + x, g (b + x))) (int_range 0 n)"
  using map_int_range_shift [of "\<lambda>x. x" a 0 n] map_int_range_shift [of g b 0 n]
  by (simp add: zip_map_map) (simp add: zip_same_conv_map)

lemma extend_kernels:
  assumes ok: "lens_ok pres seqs lasts" and ps: "0 < ps" and cap: "tokens_up_to pres seqs (length pres) \<le> int cap_ext"
    and free: "get_num_new_pages ps pres seqs \<le> int (length free)" and k: "k \<le> length pres"
  shows "length (extend_locs ps (take k pres) (take k seqs) (take k lasts) free) = nat (tokens_up_to pres seqs k)
    \<and> concat (map (alloc_extend_kernel oob ps cap_ext pres seqs lasts free) [0..<k])
      = zip (int_range 0 (nat (tokens_up_to pres seqs k))) (extend_locs ps (take k pres) (take k seqs) (take k lasts) free)"
  using k
proof (induction k)
  case 0
  then show ?case by (simp add: tokens_up_to_def)
next
  case (Suc k)
  let ?p = "pres ! k" and ?s = "seqs ! k" and ?t = "tokens_up_to pres seqs k" and ?n = "nat (seqs ! k - pres ! k)"
  let ?E = "extend_locs ps (take k pres) (take k seqs) (take k lasts) free"
  let ?R = "extend_req ps ?p ?s (lasts ! k) (drop (nat (pages_up_to ps pres seqs k)) free)"
  have kl: "k < length pres" "Suc k \<le> length pres" using Suc.prems by simp_all
  have len: "0 \<le> ?p" "?p \<le> ?s" "length seqs = length pres" "length lasts = length pres" using ok kl(1) by (simp_all add: lens_ok_def)
  note up = up_to_Suc [OF ok kl(1)] and mono = up_to_mono [OF ok ps]
  have "?s - ?p \<le> int cap_ext" using up(1) mono(1) [of k] mono(3) [OF kl(2) kl(2) order_refl] cap kl by simp
  moreover have "pages_up_to ps pres seqs k + (pages_up ps ?s - pages_up ps ?p) \<le> int (length free)"
    using up(2) [of ps] mono(4) [OF kl(2) kl(2) order_refl] free len by (simp add: pages_up_to_def)
  ultimately have kern: "alloc_extend_kernel oob ps cap_ext pres seqs lasts free k = zip (int_range ?t ?n) ?R"
    using extend_kernel_writes [OF ps len(1,2) _ mono(2) [OF less_imp_le [OF kl(1)]] _ refl refl refl up(3,4), of cap_ext free oob]
    by (simp add: extend_req_def zip_int_range_map)
  have locs: "extend_locs ps (take (Suc k) pres) (take (Suc k) seqs) (take (Suc k) lasts) free = ?E @ ?R"
    unfolding pages_up_to_def take_Suc_conv_app_nth [OF kl(1)] take_Suc_conv_app_nth [OF kl(1) [folded len(3)]]
      take_Suc_conv_app_nth [OF kl(1) [folded len(4)]]
    by (rule extend_locs_append) (use ok kl(1) pages_up_mono [OF ps] in \<open>auto simp: lens_ok_def\<close>)
  have nt: "nat (tokens_up_to pres seqs (Suc k)) = nat ?t + ?n" using up(1) mono(1) [of k] len kl by (simp add: nat_add_distrib)
  have IH: "length ?E = nat ?t" "concat (map (alloc_extend_kernel oob ps cap_ext pres seqs lasts free) [0..<k]) = zip (int_range 0 (nat ?t)) ?E"
    using Suc.IH kl by simp_all
  have "int_range 0 (nat ?t + ?n) = int_range 0 (nat ?t) @ int_range ?t ?n"
    using int_range_append [of 0 "nat ?t" ?n] mono(1) [of k] kl by simp
  then show ?case unfolding locs nt using IH kern by (simp add: extend_req_def)
qed

lemma pages_up_le:
  assumes "0 < ps" "n \<le> m * ps"
  shows "pages_up ps n \<le> m"
proof -
  have "n + ps - 1 < (m + 1) * ps" using assms by (simp add: distrib_right)
  from div_less_mult [OF assms(1) this] show ?thesis by (simp add: pages_up_def)
qed

text \<open>The positions only use the pages the requests get.\<close>

lemma page_index:
  assumes "0 < ps" "t < s" "\<not> t < pages_up ps p * ps"
  shows "pages_up ps p \<le> t div ps" "t div ps < pages_up ps s"
proof -
  have "t < pages_up ps s * ps" using pages_up_bounds(1) [OF assms(1), of s] assms(2) by linarith
  then show "t div ps < pages_up ps s" by (rule div_less_mult [OF assms(1)])
  show "pages_up ps p \<le> t div ps"
  proof (rule ccontr)
    assume "\<not> ?thesis"
    then have "(t div ps + 1) * ps \<le> pages_up ps p * ps" using assms(1) by (intro mult_right_mono) simp_all
    then show False using less_div_mult [OF assms(1), of t] assms(3) by linarith
  qed
qed

lemma extend_req_prefix:
  assumes "0 < ps" "pages_up ps s - pages_up ps p \<le> int (length new)"
  shows "extend_req ps p s l (new @ rest) = extend_req ps p s l new"
proof -
  have "nat (t div ps - pages_up ps p) < length new" if "t < s" "\<not> t < pages_up ps p * ps" for t
    using page_index [OF assms(1) that] assms(2) by linarith
  then show ?thesis unfolding extend_req_def by (intro map_cong) (auto simp: extend_pos_def nth_append split: if_splits)
qed

lemma extend_locs_prefix:
  assumes "0 < ps" "lens_ok pres seqs lasts" "get_num_new_pages ps pres seqs \<le> int (length new)"
  shows "extend_locs ps pres seqs lasts (new @ rest) = extend_locs ps pres seqs lasts new"
  using assms(2,3)
proof (induction pres arbitrary: seqs lasts new)
  case (Cons p pres)
  then obtain s seqs' l lasts' where eq: "seqs = s # seqs'" "lasts = l # lasts'" by (cases seqs; cases lasts) (auto simp: lens_ok_def)
  let ?k = "pages_up ps s - pages_up ps p"
  have ok: "lens_ok pres seqs' lasts'" "p \<le> s" using Cons.prems(1) by (auto simp: eq lens_ok_def)
  then have k: "0 \<le> ?k" "0 \<le> get_num_new_pages ps pres seqs'"
    using pages_up_mono [OF assms(1)] up_to_mono(2) [OF ok(1) assms(1) order_refl] by (simp_all add: pages_up_to_def lens_ok_def)
  have sum: "get_num_new_pages ps (p # pres) seqs = ?k + get_num_new_pages ps pres seqs'" by (simp add: eq get_num_new_pages_def)
  have "drop (nat ?k) (new @ rest) = drop (nat ?k) new @ rest" using Cons.prems(2) k sum by simp
  moreover have "get_num_new_pages ps pres seqs' \<le> int (length (drop (nat ?k) new))" using Cons.prems(2) k sum by simp
  ultimately show ?case
    using Cons.IH [OF ok(1)] extend_req_prefix [OF assms(1), of s p new] Cons.prems(2) k sum by (simp add: eq)
qed simp

lemma num_new_pages_bound:
  assumes "lens_ok pres seqs lasts" "0 < ps" "k \<le> length pres"
  shows "pages_up_to ps pres seqs k \<le> tokens_up_to pres seqs k div ps + int k"
  using assms(3)
proof (induction k)
  case 0
  then show ?case by (simp add: pages_up_to_def tokens_up_to_def get_num_new_pages_def)
next
  case (Suc k)
  let ?p = "pres ! k" and ?s = "seqs ! k" and ?t = "tokens_up_to pres seqs k"
  note up = up_to_Suc [OF assms(1) Suc_le_lessD [OF Suc.prems]]
  have len: "?p \<le> ?s" using assms(1) Suc.prems by (simp add: lens_ok_def)
  have "?s \<le> (pages_up ps ?p + (?s - ?p) div ps + 1) * ps"
    using pages_up_bounds(1) [OF assms(2), of ?p] less_div_mult [OF assms(2), of "?s - ?p"] by (simp add: distrib_right)
  then have "pages_up ps ?s \<le> pages_up ps ?p + (?s - ?p) div ps + 1" by (rule pages_up_le [OF assms(2)])
  moreover have "?t div ps + (?s - ?p) div ps \<le> (?t + (?s - ?p)) div ps"
    unfolding div_add1_eq [of ?t "?s - ?p" ps] using assms(2) by (simp add: pos_imp_zdiv_nonneg_iff)
  ultimately show ?case using Suc.IH Suc.prems up(1) up(2) [of ps] by simp
qed

lemma next_power_of_2_ge: "n \<le> next_power_of_2 n"
proof -
  have "m < 2 ^ bit_length m" for m :: int
  proof (induction m rule: bit_length.induct)
    case (1 m)
    show ?case
    proof (cases "m \<le> 0")
      case True
      then show ?thesis by (simp add: bit_length.simps)
    next
      case False
      with 1 have "m div 2 < 2 ^ bit_length (m div 2)" by simp
      then show ?thesis using False by (simp add: bit_length.simps [of m])
    qed
  qed
  from this [of "n - 1"] show ?thesis by (simp add: next_power_of_2_def)
qed

lemma extend_output:
  assumes ok: "lens_ok pres seqs lasts" and ps: "0 < ps" and tok: "tokens_up_to pres seqs (length pres) = int ext" and cap: "int ext \<le> int cap_ext"
    and free: "get_num_new_pages ps pres seqs \<le> int (length free)"
  shows "map (scatter (concat (map (alloc_extend_kernel oob ps cap_ext pres seqs lasts free) [0..<length pres])) junk) (int_range 0 ext)
    = extend_locs ps pres seqs lasts (take (nat (get_num_new_pages ps pres seqs)) free)"
proof -
  let ?n = "get_num_new_pages ps pres seqs" and ?E = "extend_locs ps pres seqs lasts free"
  let ?W = "concat (map (alloc_extend_kernel oob ps cap_ext pres seqs lasts free) [0..<length pres])"
  have len: "length seqs = length pres" "length lasts = length pres" using ok by (simp_all add: lens_ok_def)
  have "0 \<le> ?n" using up_to_mono(2) [OF ok ps order_refl] len by (simp add: pages_up_to_def)
  then have "extend_locs ps pres seqs lasts (take (nat ?n) free) = ?E"
    using extend_locs_prefix [OF ps ok, of "take (nat ?n) free" "drop (nat ?n) free"] free by simp
  moreover have "length ?E = ext" "?W = zip (int_range 0 ext) ?E"
    using extend_kernels [OF ok ps _ free order_refl, of cap_ext oob] cap by (simp_all add: tok len)
  then have "map (scatter ?W junk) (int_range 0 ext) = ?E" using scatter_run [of 0 ?E junk] map_write_run [of 0 ?E junk] by metis
  ultimately show ?thesis by simp
qed

text \<open>What an allocation of \<open>n\<close> pages with the result \<open>out new\<close> does to the pool.\<close>

definition allocates :: "allocator \<Rightarrow> int set \<Rightarrow> int \<Rightarrow> (int list \<Rightarrow> int list) \<Rightarrow> int list option \<Rightarrow> allocator \<Rightarrow> bool" where
  "allocates a held n out r a' \<longleftrightarrow>
     (case r of
        None \<Rightarrow> pool_ok a' held \<and> avail a' = avail a \<and> int (card (avail a)) < n
      | Some idx \<Rightarrow> \<exists>new. distinct new \<and> set new \<subseteq> avail a \<and> int (length new) = n \<and> idx = out new
                     \<and> pool_ok a' (held \<union> set new) \<and> avail a' = avail a - set new)"

lemma commit_allocates:
  assumes "pool_ok a1 held" "avail a1 = avail a" "0 \<le> n" "int (length (free_pages a1)) < n \<longrightarrow> release_pages a1 = []"
    and "n \<le> int (length (free_pages a1)) \<Longrightarrow> idx = out (take (nat n) (free_pages a1))"
    and "commit_pages n idx a1 = (r, a')"
  shows "allocates a held n out r a'"
proof (cases "int (length (free_pages a1)) < n")
  case True
  then have "card (avail a) = length (free_pages a1)" using avail_card [OF assms(1)] assms(2,4) by simp
  then show ?thesis using True assms(1,2,6) by (auto simp: allocates_def commit_pages_def)
next
  case False
  then have len: "nat n \<le> length (free_pages a1)" by simp
  from take_ok [OF assms(1) len] show ?thesis using False assms(2,3,5,6)
    by (auto simp: allocates_def commit_pages_def intro!: exI [of _ "take (nat n) (free_pages a1)"])
qed

lemma alloc_extend_allocates:
  assumes "pool_ok a held" "lens_ok prefix_lens seq_lens last_loc"
    and "int ext = sum_list (map2 (\<lambda>p s. s - p) prefix_lens seq_lens)"
    and "alloc_extend oob junk prefix_lens seq_lens last_loc ext a = (r, a')"
  shows "allocates a held (get_num_new_pages (pool_page_size a) prefix_lens seq_lens)
    (extend_locs (pool_page_size a) prefix_lens seq_lens last_loc) r a'"
proof -
  let ?ps = "pool_page_size a" and ?bs = "length prefix_lens" and ?n = "get_num_new_pages (pool_page_size a) prefix_lens seq_lens"
  define seen where "seen = max (seen_max_num_extend_tokens a) (next_power_of_2 (int ext))"
  define a0 where "a0 = a\<lparr>seen_max_num_extend_tokens := seen\<rparr>"
  define a1 where "a1 = (if need_sort a \<and> int (length (free_pages a)) < int ext div ?ps + int ?bs + 1 then merge_and_sort_free a0 else a0)"
  define W where "W = concat (map (alloc_extend_kernel oob ?ps (nat seen) prefix_lens seq_lens last_loc (free_pages a1)) [0..<?bs])"
  have ps: "0 < ?ps" using assms(1) by (simp add: pool_ok_def)
  have "pool_ok a0 held" "avail a0 = avail a" using assms(1) by (simp_all add: a0_def)
  then have a1: "pool_ok a1 held" "avail a1 = avail a" using merge_ok by (simp_all add: a1_def)
  have len: "length seq_lens = ?bs" "length last_loc = ?bs" using assms(2) by (simp_all add: lens_ok_def)
  then have tok: "tokens_up_to prefix_lens seq_lens ?bs = int ext" and pg: "pages_up_to ?ps prefix_lens seq_lens ?bs = ?n"
    using assms(3) by (simp_all add: tokens_up_to_def pages_up_to_def)
  have n0: "0 \<le> ?n" "?n \<le> int ext div ?ps + int ?bs"
    using up_to_mono(2) [OF assms(2) ps order_refl] num_new_pages_bound [OF assms(2) ps order_refl] by (simp_all add: tok pg)
  have short: "int (length (free_pages a1)) < ?n \<longrightarrow> release_pages a1 = []"
    using n0(2) assms(1) by (auto simp: a1_def a0_def pool_ok_def)
  have "int ext \<le> int (nat seen)" using next_power_of_2_ge [of "int ext"] unfolding seen_def by linarith
  note out = extend_output [OF assms(2) ps tok this, of "free_pages a1" oob junk, folded W_def]
  have "commit_pages ?n (map (scatter W junk) (int_range 0 ext)) a1 = (r, a')"
    using assms(4) unfolding alloc_extend_def Let_def W_def a1_def a0_def seen_def .
  then show ?thesis using out by (intro commit_allocates [OF a1 n0(1) short])
qed

text \<open>C10: \<open>alloc_extend\<close> puts every new token where the page table of its request says: on any batch of
  consistent lengths the three masked stores of the kernel's programs write exactly the positions of
  the requests, first the rest of the last page and then whole new pages, which are taken from the
  available ones and are in no other request's hands. It returns \<open>None\<close> only when the pool has too
  few pages, however they are split between the free and the release list, and then loses none.\<close>

theorem alloc_extend_correct:
  assumes "pool_ok a held" "lens_ok prefix_lens seq_lens last_loc"
    and "int ext = sum_list (map2 (\<lambda>p s. s - p) prefix_lens seq_lens)"
    and "alloc_extend oob junk prefix_lens seq_lens last_loc ext a = (r, a')"
    and "n = get_num_new_pages (pool_page_size a) prefix_lens seq_lens"
  shows "case r of
      None \<Rightarrow> int (card (avail a)) < n \<and> avail a' = avail a \<and> pool_ok a' held
    | Some idx \<Rightarrow> \<exists>new. distinct new \<and> set new \<subseteq> avail a \<and> set new \<inter> held = {} \<and> int (length new) = n
        \<and> idx = extend_locs (pool_page_size a) prefix_lens seq_lens last_loc new
        \<and> avail a' = avail a - set new \<and> pool_ok a' (held \<union> set new)"
proof -
  have "avail a \<inter> held = {}" using assms(1) by (simp add: pool_ok_def)
  with alloc_extend_allocates [OF assms(1-4)] show ?thesis unfolding allocates_def assms(5) by (auto split: option.splits)
qed

theorem alloc_extend_correct_witness:
  "fst (alloc_extend (\<lambda>_. 0) (\<lambda>_. 0) [0] [6] [- 1] 6 (init_alloc 16 4 True)) \<noteq> None"
  using alloc_extend_correct [OF pool_ok_init _ _ prod.collapse [symmetric] refl, of 4 "[0]" "[6]" "[- 1]" 6 16 True "\<lambda>_. 0" "\<lambda>_. 0"]
  by (auto simp: lens_ok_def get_num_new_pages_def pages_up_def init_alloc_def clear_alloc_def avail_def num_pages_def
      split: option.splits)


subsection \<open>The decode kernel\<close>

lemma pages_up_pred:
  assumes "2 \<le> ps" "1 \<le> s"
  shows "pages_up ps s - pages_up ps (s - 1) = (if s mod ps = 1 then 1 else 0)"
    and "pages_up ps s \<noteq> pages_up ps (s - 1) \<Longrightarrow> (s - 1) mod ps = 0 \<and> pages_up ps (s - 1) = (s - 1) div ps"
proof -
  have ps: "0 < ps" using assms(1) by simp
  have m: "(s - 1) mod ps = (if s mod ps = 0 then ps - 1 else s mod ps - 1)"
    "(s - 1) div ps = (if s mod ps = 0 then s div ps - 1 else s div ps)"
  proof -
    have n: "s = s div ps * ps + s mod ps" by simp
    have pm: "0 \<le> s mod ps" "s mod ps < ps" using ps by simp_all
    have "(s - 1) mod ps = (if s mod ps = 0 then ps - 1 else s mod ps - 1)
        \<and> (s - 1) div ps = (if s mod ps = 0 then s div ps - 1 else s div ps)"
    proof (cases "s mod ps = 0")
      case True
      then have eq: "s - 1 = (ps - 1) + (s div ps - 1) * ps" using n by (simp add: algebra_simps)
      have "(s - 1) mod ps = (ps - 1) mod ps" "(s - 1) div ps = s div ps - 1 + (ps - 1) div ps"
        using ps by (simp_all only: eq mod_mult_self1 div_mult_self1)
      moreover have "(ps - 1) mod ps = ps - 1" "(ps - 1) div ps = 0"
        by (rule mod_pos_pos_trivial div_pos_pos_trivial; use ps in simp)+
      ultimately show ?thesis using True by (simp only: if_True) simp
    next
      case False
      then have eq: "s - 1 = (s mod ps - 1) + s div ps * ps" using n by (simp add: algebra_simps)
      have "(s - 1) mod ps = (s mod ps - 1) mod ps" "(s - 1) div ps = s div ps + (s mod ps - 1) div ps"
        using ps by (simp_all only: eq mod_mult_self1 div_mult_self1)
      with False pm show ?thesis by simp
    qed
    then show "(s - 1) mod ps = (if s mod ps = 0 then ps - 1 else s mod ps - 1)"
      "(s - 1) div ps = (if s mod ps = 0 then s div ps - 1 else s div ps)" by blast+
  qed
  show "pages_up ps s - pages_up ps (s - 1) = (if s mod ps = 1 then 1 else 0)"
    unfolding pages_up_eq [OF ps] m using assms(1) by auto
  show "(s - 1) mod ps = 0 \<and> pages_up ps (s - 1) = (s - 1) div ps" if "pages_up ps s \<noteq> pages_up ps (s - 1)"
    using that unfolding pages_up_eq [OF ps] m using assms(1) by (auto split: if_splits)
qed

lemma tokens_decode: "k \<le> length seqs \<Longrightarrow> tokens_up_to (map (\<lambda>s. s - 1) seqs) seqs k = int k"
  by (induction k) (simp_all add: tokens_up_to_def take_Suc_conv_app_nth)

lemma decode_is_extend:
  assumes "2 \<le> ps" "\<forall>s \<in> set seqs. 1 \<le> s" "length lasts = length seqs" "pid < length seqs"
    and "get_num_new_pages ps (map (\<lambda>s. s - 1) seqs) seqs \<le> int (length free)"
  shows "alloc_decode_kernel oob ps seqs lasts free pid
    = alloc_extend_kernel oob ps (length seqs) (map (\<lambda>s. s - 1) seqs) seqs lasts free pid"
proof -
  let ?pre = "map (\<lambda>s. s - 1) seqs" and ?s = "seqs ! pid" and ?l = "lasts ! pid"
  define start where "start = pages_up_to ps ?pre seqs pid"
  have ps: "0 < ps" using assms(1) by simp
  have ok: "lens_ok ?pre seqs lasts" using assms(2,3) by (auto simp: lens_ok_def dest!: nth_mem)
  have k: "pid < length ?pre" using assms(4) by simp
  note up = up_to_Suc [OF ok k]
  have one: "1 \<le> ?s" using assms(2,4) by simp
  note pp = pages_up_pred [OF assms(1) one]
  have start: "0 \<le> start" "start + (pages_up ps ?s - pages_up ps (?s - 1)) \<le> int (length free)"
    using up_to_mono(2) [OF ok ps less_imp_le [OF k]] up_to_mono(4) [OF ok ps Suc_leI [OF k] Suc_leI [OF k] order_refl] up(2) [of ps] assms(4,5)
    by (simp_all add: start_def pages_up_to_def)
  have ext: "alloc_extend_kernel oob ps (length seqs) ?pre seqs lasts free pid
      = [(int pid, extend_pos ps (?s - 1) ?l (drop (nat start) free) (?s - 1))]"
    using extend_kernel_writes [OF ps _ _ _ start _ refl refl up(3) up(4) [of ps, folded start_def], where cap_ext = "length seqs" and last_locs = lasts and oob = oob] one assms(4) tokens_decode [of pid seqs]
    by (simp add: int_range_Suc)
  show ?thesis
  proof (cases "pages_up ps ?s = pages_up ps (?s - 1)")
    case True
    have "?s \<le> pages_up ps (?s - 1) * ps" using pages_up_bounds(1) [OF ps, of ?s] unfolding True .
    then show ?thesis unfolding ext using True by (simp add: alloc_decode_kernel_def extend_pos_def)
  next
    case False
    have p: "(?s - 1) mod ps = 0" "pages_up ps (?s - 1) = (?s - 1) div ps" using pp(2) [OF False] by blast+
    have p1: "pages_up ps ?s - pages_up ps (?s - 1) = 1" using pp(1) False by (cases "?s mod ps = 1") simp_all
    have "pages_up ps (?s - 1) * ps = ?s - 1" using p by (simp add: dvd_div_mult_self mod_0_imp_dvd)
    moreover have "start < int (length free)" using start p1 by linarith
    then have "drop (nat start) free ! 0 = load_page oob free start" using start(1) by (simp add: load_page_def)
    ultimately show ?thesis unfolding ext using False p up(4) [of ps]
      by (simp add: alloc_decode_kernel_def extend_pos_def start_def)
  qed
qed

lemma decode_new_pages:
  assumes "2 \<le> ps" "\<forall>s \<in> set seqs. 1 \<le> s"
  shows "get_num_new_pages ps (map (\<lambda>s. s - 1) seqs) seqs = get_num_new_pages_decode ps seqs"
  using assms(2)
  by (induction seqs) (simp_all add: get_num_new_pages_def get_num_new_pages_decode_def pages_up_pred(1) [OF assms(1)])

lemma alloc_decode_allocates:
  assumes "pool_ok a held" "2 \<le> pool_page_size a" "\<forall>s \<in> set seq_lens. 1 \<le> s" "length last_loc = length seq_lens"
    and "alloc_decode oob junk seq_lens last_loc a = (r, a')"
  shows "allocates a held (int (length (filter (\<lambda>s. s mod pool_page_size a = 1) seq_lens)))
    (extend_locs (pool_page_size a) (map (\<lambda>s. s - 1) seq_lens) seq_lens last_loc) r a'"
proof -
  let ?ps = "pool_page_size a" and ?bs = "length seq_lens" and ?pre = "map (\<lambda>s. s - 1) seq_lens"
  let ?n = "get_num_new_pages_decode (pool_page_size a) seq_lens"
  define a1 where "a1 = (if need_sort a \<and> length (free_pages a) < ?bs then merge_and_sort_free a else a)"
  define W where "W = concat (map (alloc_decode_kernel oob ?ps seq_lens last_loc (free_pages a1)) [0..<?bs])"
  have ok: "lens_ok ?pre seq_lens last_loc" using assms(3,4) by (auto simp: lens_ok_def dest!: nth_mem)
  have ps: "0 < ?ps" using assms(2) by simp
  note nn = decode_new_pages [OF assms(2,3)]
  have a1: "pool_ok a1 held" "avail a1 = avail a" using assms(1) merge_ok by (simp_all add: a1_def)
  have n0: "0 \<le> ?n" "?n \<le> int ?bs" by (simp_all add: get_num_new_pages_decode_def)
  have short: "int (length (free_pages a1)) < ?n \<longrightarrow> release_pages a1 = []" using n0(2) assms(1) by (auto simp: a1_def pool_ok_def)
  have out: "map (scatter W junk) (int_range 0 ?bs) = extend_locs ?ps ?pre seq_lens last_loc (take (nat ?n) (free_pages a1))"
    if enough: "?n \<le> int (length (free_pages a1))"
  proof -
    have "W = concat (map (alloc_extend_kernel oob ?ps ?bs ?pre seq_lens last_loc (free_pages a1)) [0..<length ?pre])"
      unfolding W_def using decode_is_extend [OF assms(2,3,4), of _ "free_pages a1" oob] enough nn
      by (intro arg_cong [where f = concat] map_cong) auto
    then show ?thesis
      using extend_output [OF ok ps, of ?bs ?bs "free_pages a1" oob junk] tokens_decode [of ?bs seq_lens] enough nn by simp
  qed
  have "commit_pages ?n (map (scatter W junk) (int_range 0 ?bs)) a1 = (r, a')"
    using assms(5) unfolding alloc_decode_def Let_def W_def a1_def .
  then show ?thesis unfolding get_num_new_pages_decode_def [symmetric] using out by (intro commit_allocates [OF a1 n0(1) short])
qed

text \<open>C23: \<open>alloc_decode\<close> is the extension of every request by one token: with pages of at least two
  tokens it gives each request the slot its page table has for the new position, takes a new page
  exactly for the requests whose last page is full, and has the same guarantees for the pool.\<close>

theorem alloc_decode_correct:
  assumes "pool_ok a held" "2 \<le> pool_page_size a" "\<forall>s \<in> set seq_lens. 1 \<le> s" "length last_loc = length seq_lens"
    and "alloc_decode oob junk seq_lens last_loc a = (r, a')"
    and "n = length (filter (\<lambda>s. s mod pool_page_size a = 1) seq_lens)"
  shows "case r of
      None \<Rightarrow> card (avail a) < n \<and> avail a' = avail a \<and> pool_ok a' held
    | Some idx \<Rightarrow> \<exists>new. distinct new \<and> set new \<subseteq> avail a \<and> set new \<inter> held = {} \<and> length new = n
        \<and> idx = extend_locs (pool_page_size a) (map (\<lambda>s. s - 1) seq_lens) seq_lens last_loc new
        \<and> avail a' = avail a - set new \<and> pool_ok a' (held \<union> set new)"
proof -
  have "avail a \<inter> held = {}" using assms(1) by (simp add: pool_ok_def)
  with alloc_decode_allocates [OF assms(1-5)] show ?thesis unfolding allocates_def assms(6) by (auto split: option.splits)
qed

theorem alloc_decode_correct_witness:
  "fst (alloc_decode (\<lambda>_. 0) (\<lambda>_. 0) [5, 2] [19, 20] (init_alloc 16 4 True)) \<noteq> None"
  using alloc_decode_correct [OF pool_ok_init _ _ _ prod.collapse [symmetric] refl, of 4 16 True "[5, 2]" "[19, 20]" "\<lambda>_. 0" "\<lambda>_. 0"]
  by (auto simp: init_alloc_def clear_alloc_def avail_def num_pages_def split: option.splits)

end

