(* ===== verification/AllocRun.thy ===== *)
theory AllocRun
  imports AllocProps
begin

section \<open>Runs of the allocators\<close>

text \<open>
  \<open>pool_step\<close> is one call on an allocator by clients that free only what they hold, in groups that
  do not nest, with \<open>held\<close> the pages they hold. The locale \<open>kv_pool\<close> is the contract of an allocator;
  its runs keep every page free, pending or held, and never in two of these. Both allocators
  interpret it, and the paged one also extends and decodes.
\<close>

subsection \<open>The pages of an extension\<close>

text \<open>The client's part: a request that ends inside a page holds it, and \<open>last_loc\<close> is its last slot.\<close>

definition tails_ok :: "int \<Rightarrow> int set \<Rightarrow> int list \<Rightarrow> int list \<Rightarrow> bool" where
  "tails_ok ps held pres lasts \<longleftrightarrow>
     (\<forall>i < length pres. pres ! i mod ps \<noteq> 0 \<longrightarrow> lasts ! i div ps \<in> held \<and> (lasts ! i + 1) mod ps = pres ! i mod ps)"

lemma tail_page:
  fixes l p :: int
  assumes "0 < ps" "(l + 1) mod ps = p mod ps" "p mod ps \<noteq> 0" "0 \<le> j" "p + j < pages_up ps p * ps"
  shows "(l + 1 + j) div ps = l div ps"
proof -
  have up: "pages_up ps p * ps = p - p mod ps + ps"
    using pages_up_eq [OF assms(1), of p] assms(3) by (simp add: distrib_right minus_mod_eq_div_mult)
  define d where "d = (l + 1) div ps"
  have l: "l + 1 = d * ps + p mod ps" using assms(2) by (simp add: d_def) (metis div_mult_mod_eq)
  have "0 < p mod ps" using assms(1,3) pos_mod_sign [of ps p] by linarith
  then have r: "0 \<le> p mod ps - 1" "p mod ps - 1 < ps" "0 \<le> p mod ps + j" "p mod ps + j < ps"
    using assms(1,4,5) up pos_mod_bound [of ps p] by linarith+
  have "l + 1 + j = (p mod ps + j) + d * ps" "l = (p mod ps - 1) + d * ps" using l by linarith+
  then have "(l + 1 + j) div ps = d + (p mod ps + j) div ps" "l div ps = d + (p mod ps - 1) div ps"
    using assms(1) by (simp_all only: div_mult_self1)
  with r show ?thesis by simp
qed

lemma extend_req_pages:
  assumes ps: "0 < ps" and len: "0 \<le> p" "p \<le> s" and k: "pages_up ps s - pages_up ps p \<le> int (length new)"
    and tail: "p mod ps \<noteq> 0 \<Longrightarrow> l div ps \<in> held \<and> (l + 1) mod ps = p mod ps"
  shows "held \<union> pages_of ps (extend_req ps p s l new) = held \<union> set (take (nat (pages_up ps s - pages_up ps p)) new)"
proof -
  let ?u = "pages_up ps p" and ?k = "nat (pages_up ps s - pages_up ps p)"
  have pos: "extend_pos ps p l new t div ps \<in> held" if "p \<le> t" "t < ?u * ps" for t
  proof -
    have "p mod ps \<noteq> 0" using that pages_up_eq [OF ps, of p] by (auto simp: dvd_div_mult_self mod_0_imp_dvd)
    with tail_page [OF ps _ this, of l "t - p"] tail that show ?thesis by (simp add: extend_pos_def)
  qed
  have new: "extend_pos ps p l new t div ps = new ! nat (t div ps - ?u)" if "\<not> t < ?u * ps" for t
    using that ps by (simp add: extend_pos_def)
  have "x \<in> held \<or> x \<in> set (take ?k new)" if x: "x \<in> pages_of ps (extend_req ps p s l new)" for x
  proof -
    obtain t where t: "p \<le> t" "t < s" "x = extend_pos ps p l new t div ps" using x len(2) by (auto simp: pages_of_def extend_req_def)
    show ?thesis
    proof (cases "t < ?u * ps")
      case False
      have i: "nat (t div ps - ?u) < ?k" "?k \<le> length new" using page_index [OF ps t(2) False] k by linarith+
      then have "take ?k new ! nat (t div ps - ?u) = x" using t(3) new [OF False] by simp
      then show ?thesis using i by (metis length_take min.absorb2 nth_mem)
    qed (use pos t in simp)
  qed
  moreover have "x \<in> pages_of ps (extend_req ps p s l new)" if x: "x \<in> set (take ?k new)" for x
  proof -
    obtain j where j: "j < ?k" "j < length new" "x = new ! j" using x by (auto simp: in_set_conv_nth)
    let ?t = "(?u + int j) * ps"
    have ge: "?u * ps \<le> ?t" using ps by (simp add: distrib_right)
    have "\<not> s \<le> ?t" using pages_up_le [OF ps, of s "?u + int j"] j(1) by linarith
    moreover have "p \<le> ?t" using pages_up_bounds(1) [OF ps, of p] ge by linarith
    moreover have "extend_pos ps p l new ?t div ps = x" using new [of ?t] ge ps j(3) by simp
    ultimately show ?thesis using len(2) by (force simp: pages_of_def extend_req_def)
  qed
  ultimately show ?thesis by blast
qed

lemma extend_locs_pages:
  assumes "0 < ps" "lens_ok pres seqs lasts" "get_num_new_pages ps pres seqs = int (length new)" "tails_ok ps held pres lasts"
  shows "held \<union> pages_of ps (extend_locs ps pres seqs lasts new) = held \<union> set new"
  using assms(2-4)
proof (induction pres arbitrary: seqs lasts new)
  case Nil
  then show ?case by (simp add: get_num_new_pages_def pages_of_def)
next
  case (Cons p pres)
  then obtain s seqs' l lasts' where eq: "seqs = s # seqs'" "lasts = l # lasts'" by (cases seqs; cases lasts) (auto simp: lens_ok_def)
  let ?k = "pages_up ps s - pages_up ps p"
  have ok: "lens_ok pres seqs' lasts'" "0 \<le> p" "p \<le> s" "tails_ok ps held pres lasts'"
    "p mod ps \<noteq> 0 \<Longrightarrow> l div ps \<in> held \<and> (l + 1) mod ps = p mod ps"
    using Cons.prems(1,3) by (auto simp: eq lens_ok_def tails_ok_def)
  then have k: "0 \<le> ?k" "0 \<le> get_num_new_pages ps pres seqs'"
    using pages_up_mono [OF assms(1)] up_to_mono(2) [OF ok(1) assms(1) order_refl] by (simp_all add: pages_up_to_def lens_ok_def)
  have sum: "?k + get_num_new_pages ps pres seqs' = int (length new)" using Cons.prems(2) by (simp add: eq get_num_new_pages_def)
  have "held \<union> pages_of ps (extend_locs ps pres seqs' lasts' (drop (nat ?k) new)) = held \<union> set (drop (nat ?k) new)"
    by (rule Cons.IH [OF ok(1) _ ok(4)]) (use sum k in simp)
  moreover have "held \<union> pages_of ps (extend_req ps p s l new) = held \<union> set (take (nat ?k) new)"
    by (rule extend_req_pages [OF assms(1) ok(2,3) _ ok(5)]) (use sum k in simp_all)
  moreover have "set new = set (take (nat ?k) new) \<union> set (drop (nat ?k) new)" by (metis append_take_drop_id set_append)
  ultimately show ?case by (auto simp: eq pages_of_def)
qed


subsection \<open>The contract of a pool\<close>

inductive pool_step ::
  "(nat \<Rightarrow> allocator \<Rightarrow> int list option \<times> allocator) \<Rightarrow> (int list \<Rightarrow> allocator \<Rightarrow> allocator) \<Rightarrow> (allocator \<Rightarrow> allocator) \<Rightarrow>
   allocator \<times> int set \<Rightarrow> allocator \<times> int set \<Rightarrow> bool" for al fr ge where
  pool_alloc: "al n a = (Some idx, a') \<Longrightarrow> pool_step al fr ge (a, held) (a', held \<union> pages_of (pool_page_size a) idx)"
| pool_full: "al n a = (None, a') \<Longrightarrow> pool_step al fr ge (a, held) (a', held)"
| pool_free: "distinct idx \<Longrightarrow> pages_of (pool_page_size a) idx \<subseteq> held \<Longrightarrow>
    pool_step al fr ge (a, held) (fr idx a, held - pages_of (pool_page_size a) idx)"
| pool_begin: "is_not_in_free_group a \<Longrightarrow> pool_step al fr ge (a, held) (free_group_begin a, held)"
| pool_end: "\<not> is_not_in_free_group a \<Longrightarrow> pool_step al fr ge (a, held) (ge a, held)"

lemma pages_of_simps [simp]:
  "pages_of ps [] = {}" "pages_of ps (xs @ ys) = pages_of ps xs \<union> pages_of ps ys" "pages_of 1 xs = set xs"
  by (auto simp: pages_of_def)

text \<open>An index of a held page is not in the pending group.\<close>

lemma group_distinct:
  assumes "pool_ok a held" "\<not> is_not_in_free_group a" "distinct idx" "pages_of (pool_page_size a) idx \<subseteq> held"
  shows "distinct (concat (free_group a @ [idx]))"
proof -
  have "set (concat (free_group a)) \<inter> set idx = {}"
  proof (rule ccontr)
    assume "\<not> ?thesis"
    then obtain i where "i \<in> set (concat (free_group a))" "i \<in> set idx" by blast
    then have "i div pool_page_size a \<in> pending a \<inter> held" using assms(2,4) by (auto simp: pending_def pages_of_def)
    then show False using assms(1) by (auto simp: pool_ok_def)
  qed
  then show ?thesis using assms(1-3) by (simp add: pool_ok_def)
qed

lemma begin_ok:
  assumes "is_not_in_free_group a"
  shows "pool_page_size (free_group_begin a) = pool_page_size a" "num_pages (free_group_begin a) = num_pages a"
    and "pool_ok a held \<Longrightarrow> pool_ok (free_group_begin a) held"
  using assms by (simp_all add: free_group_begin_def pool_ok_def avail_def pending_def num_pages_def)

locale kv_pool =
  fixes al :: "nat \<Rightarrow> allocator \<Rightarrow> int list option \<times> allocator" and fr :: "int list \<Rightarrow> allocator \<Rightarrow> allocator"
    and ge :: "allocator \<Rightarrow> allocator" and good_size :: "int \<Rightarrow> bool"
  assumes al_ok: "pool_ok a held \<Longrightarrow> good_size (pool_page_size a) \<Longrightarrow> al n a = (r, a') \<Longrightarrow>
      (case r of None \<Rightarrow> pool_ok a' held | Some idx \<Rightarrow> pages_of (pool_page_size a) idx \<subseteq> avail a \<and> pool_ok a' (held \<union> pages_of (pool_page_size a) idx))"
    and fr_ok: "pool_ok a held \<Longrightarrow> good_size (pool_page_size a) \<Longrightarrow> distinct idx \<Longrightarrow> pages_of (pool_page_size a) idx \<subseteq> held \<Longrightarrow>
      pool_ok (fr idx a) (held - pages_of (pool_page_size a) idx)"
    and ge_ok: "pool_ok a held \<Longrightarrow> good_size (pool_page_size a) \<Longrightarrow> \<not> is_not_in_free_group a \<Longrightarrow> pool_ok (ge a) held"
    and sizes_kept: "pool_page_size (snd (al n a)) = pool_page_size a" "pool_page_size (fr idx a) = pool_page_size a"
      "pool_page_size (ge a) = pool_page_size a"
      "num_pages (snd (al n a)) = num_pages a" "num_pages (fr idx a) = num_pages a" "num_pages (ge a) = num_pages a"
begin

lemma step_ok:
  assumes "pool_step al fr ge x y" "pool_ok (fst x) (snd x)" "good_size (pool_page_size (fst x))"
  shows "pool_ok (fst y) (snd y)" "pool_page_size (fst y) = pool_page_size (fst x)" "num_pages (fst y) = num_pages (fst x)"
proof -
  from assms have "pool_ok (fst y) (snd y) \<and> pool_page_size (fst y) = pool_page_size (fst x) \<and> num_pages (fst y) = num_pages (fst x)"
  proof (induction rule: pool_step.induct)
    case (pool_alloc n a idx a' held)
    then show ?case using al_ok [of a held n "Some idx" a'] sizes_kept(1,4) [of n a] by simp
  next
    case (pool_full n a a' held)
    then show ?case using al_ok [of a held n None a'] sizes_kept(1,4) [of n a] by simp
  qed (simp_all add: fr_ok ge_ok sizes_kept begin_ok)
  then show "pool_ok (fst y) (snd y)" "pool_page_size (fst y) = pool_page_size (fst x)" "num_pages (fst y) = num_pages (fst x)"
    by blast+
qed

lemma run_ok:
  assumes "(pool_step al fr ge)\<^sup>*\<^sup>* x y" "pool_ok (fst x) (snd x)" "good_size (pool_page_size (fst x))"
  shows "pool_ok (fst y) (snd y) \<and> pool_page_size (fst y) = pool_page_size (fst x) \<and> num_pages (fst y) = num_pages (fst x)"
  using assms by (induction rule: rtranclp_induct) (auto simp: step_ok)

end

text \<open>Giving pages back: at once, or to the group.\<close>

lemma give_back:
  assumes ok: "pool_ok a held" and xs: "set xs \<subseteq> held" "distinct xs"
  shows "need_sort a \<Longrightarrow> rel = xs @ release_pages a \<or> rel = release_pages a @ xs \<Longrightarrow> pool_ok (a\<lparr>release_pages := rel\<rparr>) (held - set xs)"
    and "\<not> need_sort a \<Longrightarrow> fre = xs @ free_pages a \<or> fre = free_pages a @ xs \<Longrightarrow> pool_ok (a\<lparr>free_pages := fre\<rparr>) (held - set xs)"
proof -
  have p: "pending (a\<lparr>release_pages := rel\<rparr>) = pending a" "num_pages (a\<lparr>release_pages := rel\<rparr>) = num_pages a"
    "pending (a\<lparr>free_pages := fre\<rparr>) = pending a" "num_pages (a\<lparr>free_pages := fre\<rparr>) = num_pages a" for rel fre
    by (simp_all add: pending_def num_pages_def)
  have d: "(set (free_pages a) \<union> set (release_pages a)) \<inter> set xs = {}" "pending a \<inter> set xs = {}"
    using ok xs(1) by (auto simp: pool_ok_def avail_def)
  show "pool_ok (a\<lparr>release_pages := rel\<rparr>) (held - set xs)" if "need_sort a" "rel = xs @ release_pages a \<or> rel = release_pages a @ xs"
  proof -
    have av: "avail (a\<lparr>release_pages := rel\<rparr>) = avail a \<union> set xs" using that(2) by (auto simp: avail_def)
    have "distinct (free_pages a @ rel)" using that(2) ok d(1) xs(2) by (auto simp: pool_ok_def)
    then show ?thesis using ok xs(1) d that(1) unfolding pool_ok_def av p by (auto simp: avail_def)
  qed
  show "pool_ok (a\<lparr>free_pages := fre\<rparr>) (held - set xs)" if "\<not> need_sort a" "fre = xs @ free_pages a \<or> fre = free_pages a @ xs"
  proof -
    have av: "avail (a\<lparr>free_pages := fre\<rparr>) = avail a \<union> set xs" using that(2) by (auto simp: avail_def)
    have "distinct (fre @ release_pages a)" using that ok d(1) xs(2) by (auto simp: pool_ok_def)
    then show ?thesis using ok xs(1) d that(1) unfolding pool_ok_def av p by (auto simp: avail_def)
  qed
qed

lemma give_group:
  assumes "pool_ok a held" "\<not> is_not_in_free_group a" "distinct idx" "pages_of (pool_page_size a) idx \<subseteq> held"
  shows "pool_ok (a\<lparr>free_group := free_group a @ [idx]\<rparr>) (held - pages_of (pool_page_size a) idx)"
proof -
  let ?b = "a\<lparr>free_group := free_group a @ [idx]\<rparr>"
  have f: "avail ?b = avail a" "num_pages ?b = num_pages a" "pending ?b = pending a \<union> pages_of (pool_page_size a) idx"
    using assms(2) by (simp_all add: avail_def num_pages_def pending_def)
  show ?thesis using assms(1,4) group_distinct [OF assms] unfolding pool_ok_def f by auto
qed

lemma close_group:
  assumes "pool_ok a held" "\<not> is_not_in_free_group a"
  shows "pool_ok (a\<lparr>is_not_in_free_group := True\<rparr>) (held \<union> pending a)" "held \<union> pending a - pending a = held"
    and "distinct (concat (free_group a))" "pages_of (pool_page_size a) (concat (free_group a)) = pending a"
  using assms by (auto simp: pool_ok_def avail_def num_pages_def pending_def)

lemma pages_of_page_indices: "0 < ps \<Longrightarrow> pages_of ps (page_indices ps pgs) = set pgs"
proof -
  assume ps: "0 < ps"
  have "(\<lambda>i. i div ps) ` set (int_range (pg * ps) (nat ps)) = {pg}" for pg
  proof -
    have "i div ps = pg" if "pg * ps \<le> i" "i < pg * ps + ps" for i
    proof -
      have "i = (i - pg * ps) + pg * ps" by simp
      then have "i div ps = pg + (i - pg * ps) div ps" using ps by (metis div_mult_self1 less_irrefl)
      then show ?thesis using that by simp
    qed
    then have "(\<lambda>i. i div ps) ` set (int_range (pg * ps) (nat ps)) = (\<lambda>i. pg) ` set (int_range (pg * ps) (nat ps))"
      using ps by (intro image_cong) auto
    then show ?thesis using ps by (simp add: image_constant_conv)
  qed
  then show ?thesis by (simp add: pages_of_def page_indices_def image_UN)
qed

lemma free_nothing [simp]: "token_free [] a = a" "paged_free [] a = a"
  by (simp_all add: token_free_def paged_free_def)

lemma token_free_ok:
  assumes "pool_ok a held" "pool_page_size a = 1" "distinct idx" "set idx \<subseteq> held"
  shows "pool_ok (token_free idx a) (held - set idx)"
  using give_back [OF assms(1,4,3)] give_group [OF assms(1) _ assms(3)] assms by (auto simp: token_free_def)

lemma paged_free_ok:
  assumes "pool_ok a held" "pages_of (pool_page_size a) idx \<subseteq> held" "is_not_in_free_group a \<or> distinct idx"
  shows "pool_ok (paged_free idx a) (held - pages_of (pool_page_size a) idx)"
proof -
  let ?u = "unique (map (\<lambda>i. i div pool_page_size a) idx)"
  have u: "set ?u = pages_of (pool_page_size a) idx" "distinct ?u" by (simp_all add: pages_of_def)
  show ?thesis using give_back [OF assms(1) _ u(2)] give_group [OF assms(1) _ _ assms(2)] assms
    by (auto simp: paged_free_def Let_def u(1) simp del: set_unique)
qed

interpretation token_pool: kv_pool token_alloc token_free token_free_group_end "\<lambda>ps. ps = 1"
proof (unfold_locales, goal_cases)
  case (1 a held n r a')
  from take_pages_ok [OF 1(1) 1(3) [unfolded token_alloc_def]] show ?case using 1(2) by (auto split: option.splits)
next
  case (2 a held idx)
  then show ?case using token_free_ok by simp
next
  case (3 a held)
  note c = close_group [OF 3(1,3)]
  have "set (concat (free_group a)) = pending a" using c(4) 3(2) by simp
  then show ?case using token_free_ok [OF c(1) _ c(3)] c(1,2) 3(2) by (cases "free_group a = []") (auto simp: token_free_group_end_def Let_def)
qed (auto simp: token_alloc_def take_pages_def merge_and_sort_free_def token_free_def token_free_group_end_def num_pages_def Let_def)

interpretation paged_pool: kv_pool paged_alloc paged_free paged_free_group_end "\<lambda>ps. True"
proof (unfold_locales, goal_cases)
  case (1 a held n r a')
  obtain r1 a1 where t: "take_pages (nat (int n div pool_page_size a)) a = (r1, a1)" by fastforce
  have "0 < pool_page_size a" using 1(1) by (simp add: pool_ok_def)
  with take_pages_ok [OF 1(1) t] 1(3) show ?case
    by (auto simp: paged_alloc_def t pages_of_page_indices split: option.splits)
next
  case (2 a held idx)
  then show ?case using paged_free_ok by simp
next
  case (3 a held)
  note c = close_group [OF 3(1,3)]
  show ?case using paged_free_ok [OF c(1), of "concat (free_group a)"] c by (cases "free_group a = []") (auto simp: paged_free_group_end_def Let_def)
qed (auto simp: paged_alloc_def take_pages_def merge_and_sort_free_def paged_free_def paged_free_group_end_def num_pages_def Let_def split: option.splits prod.splits)


subsection \<open>Properties\<close>

text \<open>A call on the paged allocator, the two allocations of the scheduler included.\<close>

inductive paged_step :: "allocator \<times> int set \<Rightarrow> allocator \<times> int set \<Rightarrow> bool" where
  paged_pool: "pool_step paged_alloc paged_free paged_free_group_end x y \<Longrightarrow> paged_step x y"
| paged_extend: "lens_ok pres seqs lasts \<Longrightarrow> tails_ok (pool_page_size a) held pres lasts \<Longrightarrow>
    int ext = sum_list (map2 (\<lambda>p s. s - p) pres seqs) \<Longrightarrow> alloc_extend oob junk pres seqs lasts ext a = (r, a') \<Longrightarrow>
    paged_step (a, held) (a', held \<union> (case r of None \<Rightarrow> {} | Some idx \<Rightarrow> pages_of (pool_page_size a) idx))"
| paged_decode: "\<forall>s \<in> set seqs. 1 \<le> s \<Longrightarrow> length lasts = length seqs \<Longrightarrow> tails_ok (pool_page_size a) held (map (\<lambda>s. s - 1) seqs) lasts \<Longrightarrow>
    alloc_decode oob junk seqs lasts a = (r, a') \<Longrightarrow>
    paged_step (a, held) (a', held \<union> (case r of None \<Rightarrow> {} | Some idx \<Rightarrow> pages_of (pool_page_size a) idx))"

lemma allocates_ok:
  assumes "allocates a held n out r a'" "\<And>new. int (length new) = n \<Longrightarrow> held \<union> pages_of ps (out new) = held \<union> set new"
  shows "pool_ok a' (held \<union> (case r of None \<Rightarrow> {} | Some idx \<Rightarrow> pages_of ps idx))"
proof (cases r)
  case (Some idx)
  with assms(1) obtain new where n: "int (length new) = n" "idx = out new" "pool_ok a' (held \<union> set new)" by (auto simp: allocates_def)
  from assms(2) [OF n(1)] n(2,3) Some show ?thesis by simp
qed (use assms(1) in \<open>simp add: allocates_def\<close>)

lemma paged_step_ok:
  assumes "paged_step x y" "pool_ok (fst x) (snd x)" "2 \<le> pool_page_size (fst x)"
  shows "pool_ok (fst y) (snd y) \<and> pool_page_size (fst y) = pool_page_size (fst x) \<and> num_pages (fst y) = num_pages (fst x)"
  using assms
proof (induction rule: paged_step.induct)
  case (paged_pool x y)
  then show ?case using paged_pool.step_ok [OF paged_pool(1)] by simp
next
  case (paged_extend pres seqs lasts a held ext oob junk r a')
  then have ps: "0 < pool_page_size a" "pool_ok a held" by simp_all
  have "pool_page_size a' = pool_page_size a" "num_pages a' = num_pages a"
    using paged_extend(4) by (auto simp: alloc_extend_def commit_pages_def Let_def num_pages_def merge_and_sort_free_def split: if_splits)
  with allocates_ok [OF alloc_extend_allocates [OF ps(2) paged_extend(1,3,4)] extend_locs_pages [OF ps(1) paged_extend(1) _ paged_extend(2)]]
  show ?case by simp
next
  case (paged_decode seqs lasts a held oob junk r a')
  then have ps: "2 \<le> pool_page_size a" "0 < pool_page_size a" "pool_ok a held" by simp_all
  have ok: "lens_ok (map (\<lambda>s. s - 1) seqs) seqs lasts" using paged_decode(1,2) by (auto simp: lens_ok_def dest!: nth_mem)
  have new: "held \<union> pages_of (pool_page_size a) (extend_locs (pool_page_size a) (map (\<lambda>s. s - 1) seqs) seqs lasts new) = held \<union> set new"
    if "int (length new) = int (length (filter (\<lambda>s. s mod pool_page_size a = 1) seqs))" for new
    by (rule extend_locs_pages [OF ps(2) ok _ paged_decode(3)])
      (use decode_new_pages [OF ps(1) paged_decode(1)] that in \<open>simp add: get_num_new_pages_decode_def\<close>)
  have "pool_page_size a' = pool_page_size a" "num_pages a' = num_pages a"
    using paged_decode(4) by (auto simp: alloc_decode_def commit_pages_def Let_def num_pages_def merge_and_sort_free_def split: if_splits)
  with allocates_ok [OF alloc_decode_allocates [OF ps(3,1) paged_decode(1,2,4)] new] show ?case by simp
qed

text \<open>C9: No slot of the KV cache has two owners and none is lost: from a fresh token or paged
  allocator (pages of at least two tokens), after any sequence of allocations, extensions, decode
  steps, frees and free groups in which clients free only what they hold, every page is available,
  in the pending group or held, never in two of these, and \<open>available_size\<close> counts the first.\<close>

theorem pool_partition:
  "((pool_step token_alloc token_free token_free_group_end)\<^sup>*\<^sup>* (init_alloc n_tok 1 srt, {}) (a, held) \<longrightarrow>
      avail a \<union> pending a \<union> held = {1..n_tok} \<and> avail a \<inter> held = {} \<and> pending a \<inter> held = {} \<and> avail a \<inter> pending a = {}
      \<and> available_size a = int (card (avail a)))
   \<and> (2 \<le> ps \<longrightarrow> paged_step\<^sup>*\<^sup>* (init_alloc n_tok ps srt, {}) (a, held) \<longrightarrow>
      avail a \<union> pending a \<union> held = {1..n_tok div ps} \<and> avail a \<inter> held = {} \<and> pending a \<inter> held = {} \<and> avail a \<inter> pending a = {}
      \<and> available_size a = int (card (avail a)) * ps)"
proof -
  have init: "pool_page_size (init_alloc n_tok k srt) = k" "num_pages (init_alloc n_tok k srt) = n_tok div k" for k
    by (simp_all add: init_alloc_def clear_alloc_def num_pages_def)
  have avs: "available_size a = int (card (avail a)) * pool_page_size a" if "pool_ok a held"
    using avail_card [OF that] by (simp add: available_size_def)
  have paged: "pool_ok (fst y) (snd y) \<and> pool_page_size (fst y) = ps \<and> num_pages (fst y) = n_tok div ps"
    if "paged_step\<^sup>*\<^sup>* (init_alloc n_tok ps srt, {}) y" "2 \<le> ps" for y
    using that by (induction rule: rtranclp_induct) (use pool_ok_init [of ps n_tok srt] init paged_step_ok in auto)
  have token: "pool_ok a held \<and> pool_page_size a = 1 \<and> num_pages a = n_tok"
    if "(pool_step token_alloc token_free token_free_group_end)\<^sup>*\<^sup>* (init_alloc n_tok 1 srt, {}) (a, held)"
    using token_pool.run_ok [OF that] pool_ok_init [of 1 n_tok srt] init [of 1] by simp
  show ?thesis using avs token paged [of "(a, held)"] by (auto simp: pool_ok_def)
qed

theorem pool_partition_witness:
  "avail (snd (paged_alloc 8 (init_alloc 16 4 False))) \<inter> pages_of 4 (the (fst (paged_alloc 8 (init_alloc 16 4 False)))) = {}"
proof -
  let ?a = "init_alloc 16 4 False"
  obtain idx a' where al: "paged_alloc 8 ?a = (Some idx, a')"
    by (simp add: paged_alloc_def take_pages_def init_alloc_def clear_alloc_def num_pages_def)
  have "paged_step\<^sup>*\<^sup>* (?a, {}) (a', {} \<union> pages_of (pool_page_size ?a) idx)"
    by (intro r_into_rtranclp paged_step.paged_pool pool_alloc [of paged_alloc, OF al])
  then show ?thesis using pool_partition [of 16 False a' _ 4] al by (simp add: init_alloc_def clear_alloc_def)
qed

end
