(* ===== verification/RadixTree.thy ===== *)
theory RadixTree
  imports Allocator "HOL-Library.Monad_Syntax"
begin

section \<open>The radix cache\<close>

text \<open>
  \<open>RadixCache\<close> of \<open>radix_cache.py\<close> and the strategies of \<open>evict_policy.py\<close>. A \<open>TreeNode\<close> is a value with its
  children; a reference to a node is the sequence of tokens from the root to its end, which a split
  does not change (the old object keeps the lower part), and the chain of parents of a node is the
  descent along that sequence. \<open>clk\<close> gives the readings of the clock inside a call: 0 is the access
  time, 1 and 2 are the times of a node made by a split, 3 and 4 of a new leaf. \<open>_insert_helper\<close> can
  loop on a malformed tree, so it is a partial function. The heap of the eviction is a list from which
  \<open>pick\<close> takes a smallest element. The bigram keys of speculative decoding, the event queue and the
  hash values that only the events use are left out, and an insertion is always given its slots.
\<close>

subsection \<open>Keys\<close>

record radix_key =
  token_ids :: "int list"
  extra_key :: "string option"

definition rk_len :: "radix_key \<Rightarrow> nat" where
  "rk_len k = length (token_ids k)"

text \<open>The slices \<open>key[:n]\<close> and \<open>key[n:]\<close>.\<close>

definition rk_take :: "nat \<Rightarrow> radix_key \<Rightarrow> radix_key" where
  "rk_take n k = k\<lparr>token_ids := take n (token_ids k)\<rparr>"

definition rk_drop :: "nat \<Rightarrow> radix_key \<Rightarrow> radix_key" where
  "rk_drop n k = k\<lparr>token_ids := drop n (token_ids k)\<rparr>"

type_synonym child_key = "string option \<times> int list"

definition get_child_key :: "nat \<Rightarrow> radix_key \<Rightarrow> child_key" where
  "get_child_key ps k = (extra_key k, take ps (token_ids k))"

fun match_tokens :: "int list \<Rightarrow> int list \<Rightarrow> nat" where
  "match_tokens (x # xs) (y # ys) = (if x = y then Suc (match_tokens xs ys) else 0)"
| "match_tokens _ _ = 0"

text \<open>The loop of \<open>_key_match_paged\<close>; a page has at least one token.\<close>

function match_pages :: "nat \<Rightarrow> int list \<Rightarrow> int list \<Rightarrow> nat \<Rightarrow> nat" where
  "match_pages ps k0 k1 i =
     (if i < min (length k0) (length k1) \<and> 0 < ps then
        if take ps (drop i k0) \<noteq> take ps (drop i k1) then i else match_pages ps k0 k1 (i + ps)
      else i)"
  by pat_completeness auto
termination
  by (relation "measure (\<lambda>(ps, k0, k1, i). length k0 - i)") auto

declare match_pages.simps [simp del]

definition key_match :: "nat \<Rightarrow> radix_key \<Rightarrow> radix_key \<Rightarrow> exn + nat" where
  "key_match ps k0 k1 =
     (if extra_key k0 \<noteq> extra_key k1 then Inl ValueError
      else if ps = 1 then Inr (match_tokens (token_ids k0) (token_ids k1))
      else Inr (match_pages ps (token_ids k0) (token_ids k1) 0))"


subsection \<open>Nodes\<close>

record node_info =
  nkey :: radix_key
  nvalue :: "int list"
  lock_ref :: int
  last_access_time :: int
  creation_time :: int
  hit_count :: int
  npriority :: int

datatype node = Node (info: node_info) (children: "(child_key \<times> node) list")

lemma child_size_mem:
  assumes "p \<in> set cs"
  shows "size (snd p) < Suc (size_list (size_prod (\<lambda>x. 0) size) cs)"
proof -
  have "size (snd p) \<le> size_list (\<lambda>p. size (snd p)) cs" by (rule size_list_estimation' [OF assms]) simp
  also have "\<dots> \<le> size_list (size_prod (\<lambda>x. 0) size) cs" by (rule size_list_pointwise) (auto simp: prod.size_gen)
  finally show ?thesis by simp
qed

lemma child_size: "od_get cs k = Some child \<Longrightarrow> size child < size (Node i cs)"
  using child_size_mem [of "(k, child)" cs] by (simp add: map_of_SomeD)

definition new_info :: "int \<Rightarrow> int \<Rightarrow> int \<Rightarrow> radix_key \<Rightarrow> int list \<Rightarrow> node_info" where
  "new_info t_access t_create prio key val =
     \<lparr>nkey = key, nvalue = val, lock_ref = 0, last_access_time = t_access, creation_time = t_create, hit_count = 0,
      npriority = prio\<rparr>"

definition with_info :: "(node_info \<Rightarrow> node_info) \<Rightarrow> node \<Rightarrow> node" where
  "with_info f n = Node (f (info n)) (children n)"

definition touch :: "int \<Rightarrow> node \<Rightarrow> node" where
  "touch t = with_info (\<lambda>i. i\<lparr>last_access_time := t\<rparr>)"

definition raise_priority :: "int \<Rightarrow> node \<Rightarrow> node" where
  "raise_priority p = with_info (\<lambda>i. i\<lparr>npriority := max (npriority i) p\<rparr>)"

text \<open>The new upper node, with the old one below it.\<close>

definition split_node :: "nat \<Rightarrow> (nat \<Rightarrow> int) \<Rightarrow> node \<Rightarrow> nat \<Rightarrow> node" where
  "split_node ps clk child split_len =
     (let i = info child;
          upper = (new_info (clk 1) (clk 2) (npriority i) (rk_take split_len (nkey i)) (take split_len (nvalue i)))
                    \<lparr>lock_ref := lock_ref i\<rparr>;
          lower = with_info (\<lambda>i. i\<lparr>nkey := rk_drop split_len (nkey i), nvalue := drop split_len (nvalue i)\<rparr>) child
      in Node upper [(get_child_key ps (rk_drop split_len (nkey i)), lower)])"


subsection \<open>Matching\<close>

text \<open>The values on the way, the reference of the last node and the tree, whose nodes on the way are
  touched and one of which may be split.\<close>

function match_prefix_helper ::
  "nat \<Rightarrow> (nat \<Rightarrow> int) \<Rightarrow> node \<Rightarrow> radix_key \<Rightarrow> exn + int list \<times> int list \<times> node" where
  "match_prefix_helper ps clk (Node i cs) key =
     (let here = Node (i\<lparr>last_access_time := clk 0\<rparr>);
          ck = get_child_key ps key
      in case (if token_ids key = [] then None else od_get cs ck) of
           None \<Rightarrow> Inr ([], [], here cs)
         | Some child \<Rightarrow>
             (case key_match ps (nkey (info child)) key of
                Inl x \<Rightarrow> Inl x
              | Inr prefix_len \<Rightarrow>
                  if prefix_len < rk_len (nkey (info child)) then
                    let new_node = split_node ps clk (touch (clk 0) child) prefix_len
                    in Inr (nvalue (info new_node), token_ids (nkey (info new_node)),
                            here (od_set (get_child_key ps (nkey (info child))) new_node cs))
                  else
                    (case match_prefix_helper ps clk child (rk_drop prefix_len key) of
                       Inl x \<Rightarrow> Inl x
                     | Inr (v, path, child') \<Rightarrow>
                         Inr (nvalue (info child) @ v, token_ids (nkey (info child)) @ path, here (od_set ck child' cs)))))"
  by pat_completeness auto
termination
  by (relation "measure (\<lambda>(ps, clk, n, key). size n)") (auto split: if_splits dest: child_size)


subsection \<open>Inserting\<close>

text \<open>The length of the part already present, the length of the new leaf and the tree.\<close>

partial_function (option) insert_loop ::
  "nat \<Rightarrow> (nat \<Rightarrow> int) \<Rightarrow> int \<Rightarrow> node \<Rightarrow> radix_key \<Rightarrow> int list \<Rightarrow> (exn + nat \<times> nat \<times> node) option" where
  "insert_loop ps clk prio n key val =
     (let ck = get_child_key ps key
      in if token_ids key = [] then Some (Inr (0, 0, n))
         else case od_get (children n) ck of
           None \<Rightarrow>
             Some (Inr (0, rk_len key,
               Node (info n) (od_set ck (Node (new_info (clk 3) (clk 4) prio key val) []) (children n))))
         | Some child \<Rightarrow>
             (case key_match ps (nkey (info child)) key of
                Inl x \<Rightarrow> Some (Inl x)
              | Inr prefix_len \<Rightarrow>
                  let splits = prefix_len < rk_len (nkey (info child));
                      next = raise_priority prio
                        (if splits then split_node ps clk (touch (clk 0) child) prefix_len else touch (clk 0) child);
                      at = (if splits then get_child_key ps (nkey (info child)) else ck)
                  in Option.bind (insert_loop ps clk prio next (rk_drop prefix_len key) (drop prefix_len val))
                       (\<lambda>r. Some (case r of
                          Inl x \<Rightarrow> Inl x
                        | Inr (m, added, next') \<Rightarrow> Inr (prefix_len + m, added, Node (info n) (od_set at next' (children n)))))))"

definition insert_helper ::
  "nat \<Rightarrow> (nat \<Rightarrow> int) \<Rightarrow> int \<Rightarrow> node \<Rightarrow> radix_key \<Rightarrow> int list \<Rightarrow> (exn + nat \<times> nat \<times> node) option" where
  "insert_helper ps clk prio n key val = insert_loop ps clk prio (raise_priority prio (touch (clk 0) n)) key val"


subsection \<open>The cache\<close>

datatype policy = LRU | LFU | FIFO | MRU | FILO | PRIORITY

record radix_cache =
  root_node :: node
  evictable_size :: int
  protected_size :: int
  rc_page_size :: nat
  rc_disable :: bool
  eviction_policy :: policy
  disable_finished_insert :: bool

definition reset_root :: "(nat \<Rightarrow> int) \<Rightarrow> node" where
  "reset_root clk = Node ((new_info (clk 0) (clk 1) (- (2 ^ 63 - 1)) \<lparr>token_ids = [], extra_key = None\<rparr> [])\<lparr>lock_ref := 1\<rparr>) []"

definition reset_cache :: "(nat \<Rightarrow> int) \<Rightarrow> radix_cache \<Rightarrow> radix_cache" where
  "reset_cache clk rc = rc\<lparr>root_node := reset_root clk, evictable_size := 0, protected_size := 0\<rparr>"

definition init_cache :: "(nat \<Rightarrow> int) \<Rightarrow> nat \<Rightarrow> bool \<Rightarrow> policy \<Rightarrow> bool \<Rightarrow> radix_cache" where
  "init_cache clk ps dis pol no_finished = reset_cache clk
     \<lparr>root_node = reset_root clk, evictable_size = 0, protected_size = 0, rc_page_size = ps, rc_disable = dis,
      eviction_policy = pol, disable_finished_insert = no_finished\<rparr>"

definition page_align :: "nat \<Rightarrow> int list \<Rightarrow> int list" where
  "page_align ps ids = (if ps = 1 then ids else take (length ids div ps * ps) ids)"

text \<open>The cached slots and the reference of the last node.\<close>

definition match_prefix ::
  "(nat \<Rightarrow> int) \<Rightarrow> radix_key \<Rightarrow> radix_cache \<Rightarrow> (int list \<times> int list, radix_cache) outcome" where
  "match_prefix clk key rc =
     (let key1 = key\<lparr>token_ids := page_align (rc_page_size rc) (token_ids key)\<rparr>
      in if rc_disable rc \<or> token_ids key = [] \<or> token_ids key1 = [] then (Inr ([], []), rc)
         else case match_prefix_helper (rc_page_size rc) clk (root_node rc) key1 of
           Inl x \<Rightarrow> (Inl x, rc)
         | Inr (v, path, root) \<Rightarrow> (Inr (v, path), rc\<lparr>root_node := root\<rparr>))"

definition insert_cache ::
  "(nat \<Rightarrow> int) \<Rightarrow> radix_key \<Rightarrow> int list \<Rightarrow> int \<Rightarrow> radix_cache \<Rightarrow> (nat, radix_cache) outcome option" where
  "insert_cache clk key val prio rc =
     (if rc_disable rc then Some (Inr 0, rc)
      else Option.bind (insert_helper (rc_page_size rc) clk prio (root_node rc) key val)
        (\<lambda>r. Some (case r of
           Inl x \<Rightarrow> (Inl x, rc)
         | Inr (prefix_len, added, root) \<Rightarrow>
             (Inr prefix_len, rc\<lparr>root_node := root, evictable_size := evictable_size rc + int added\<rparr>))))"


subsection \<open>Locks\<close>

text \<open>The nodes from the reference up to the root, the root excluded: the change of the evictable size
  and the tree. \<open>d\<close> is 1 or minus 1.\<close>

function lock_path :: "nat \<Rightarrow> int \<Rightarrow> node \<Rightarrow> radix_key \<Rightarrow> int \<times> node" where
  "lock_path ps d (Node i cs) path =
     (let ck = get_child_key ps path
      in case (if token_ids path = [] then None else od_get cs ck) of
           None \<Rightarrow> (0, Node i cs)
         | Some child \<Rightarrow>
             let l = lock_ref (info child); len = int (rk_len (nkey (info child)));
                 delta = (if d = 1 then if l = 0 then - len else 0 else if l = 1 then len else 0);
                 (delta', child') = lock_path ps d child (rk_drop (rk_len (nkey (info child))) path)
             in (delta + delta', Node i (od_set ck (with_info (\<lambda>j. j\<lparr>lock_ref := l + d\<rparr>) child') cs)))"
  by pat_completeness auto
termination
  by (relation "measure (\<lambda>(ps, d, n, key). size n)") (auto split: if_splits dest: child_size)

definition change_lock :: "int \<Rightarrow> radix_key \<Rightarrow> radix_cache \<Rightarrow> int \<times> radix_cache" where
  "change_lock d path rc =
     (if rc_disable rc then (0, rc)
      else case lock_path (rc_page_size rc) d (root_node rc) path of
        (delta, root) \<Rightarrow>
          (delta, rc\<lparr>root_node := root, evictable_size := evictable_size rc + delta, protected_size := protected_size rc - delta\<rparr>))"

definition inc_lock_ref :: "radix_key \<Rightarrow> radix_cache \<Rightarrow> int \<times> radix_cache" where
  "inc_lock_ref = change_lock 1"

definition dec_lock_ref :: "radix_key \<Rightarrow> radix_cache \<Rightarrow> int \<times> radix_cache" where
  "dec_lock_ref = change_lock (- 1)"


subsection \<open>Eviction\<close>

text \<open>The priority and, for ties, the order of the nodes.\<close>

type_synonym heap_key = "(int \<times> int) \<times> int"

definition get_priority :: "policy \<Rightarrow> node_info \<Rightarrow> int \<times> int" where
  "get_priority pol i =
     (case pol of
        LRU \<Rightarrow> (last_access_time i, 0)
      | LFU \<Rightarrow> (hit_count i, last_access_time i)
      | FIFO \<Rightarrow> (creation_time i, 0)
      | MRU \<Rightarrow> (- last_access_time i, 0)
      | FILO \<Rightarrow> (- creation_time i, 0)
      | PRIORITY \<Rightarrow> (npriority i, last_access_time i))"

definition heap_entry :: "policy \<Rightarrow> radix_key \<times> node_info \<Rightarrow> heap_key \<times> radix_key" where
  "heap_entry pol p = ((get_priority pol (snd p), last_access_time (snd p)), fst p)"

text \<open>The unlocked leaves with their references; \<open>pre\<close> is the reference of the parent.\<close>

function leaves_below :: "int list \<Rightarrow> node \<Rightarrow> (radix_key \<times> node_info) list" where
  "leaves_below pre (Node i cs) =
     (let here = pre @ token_ids (nkey i)
      in if cs = [] then if lock_ref i = 0 then [((nkey i)\<lparr>token_ids := here\<rparr>, i)] else []
         else concat (map (\<lambda>p. leaves_below here (snd p)) cs))"
  by pat_completeness auto
termination
  by (relation "measure (\<lambda>(pre, n). size n)") (auto dest!: child_size_mem)

definition collect_leaves :: "node \<Rightarrow> (radix_key \<times> node_info) list" where
  "collect_leaves root = concat (map (\<lambda>p. leaves_below [] (snd p)) (children root))"

text \<open>The removed node, its parent when that is now an unlocked leaf, and the tree.\<close>

function delete_leaf :: "nat \<Rightarrow> int list \<Rightarrow> node \<Rightarrow> radix_key \<Rightarrow> (node_info \<times> (radix_key \<times> node_info) option \<times> node) option" where
  "delete_leaf ps pre (Node i cs) path =
     (let ck = get_child_key ps path
      in case od_get cs ck of
           None \<Rightarrow> None
         | Some child \<Rightarrow>
             if rk_len path \<le> rk_len (nkey (info child)) then
               let cs' = od_pop ck cs
               in Some (info child, if cs' = [] \<and> lock_ref i = 0 then Some ((nkey i)\<lparr>token_ids := pre\<rparr>, i) else None, Node i cs')
             else
               (case delete_leaf ps (pre @ token_ids (nkey (info child))) child (rk_drop (rk_len (nkey (info child))) path) of
                  None \<Rightarrow> None
                | Some (x, par, child') \<Rightarrow> Some (x, par, Node i (od_set ck child' cs))))"
  by pat_completeness auto
termination
  by (relation "measure (\<lambda>(ps, pre, n, key). size n)") (auto split: if_splits dest: child_size)

text \<open>Freeing goes to the allocator \<open>a\<close> through \<open>fr\<close>. The result is the number of evicted slots, the total
  length of the evicted keys, the tree and the allocator.\<close>

partial_function (option) evict_loop ::
  "nat \<Rightarrow> policy \<Rightarrow> (heap_key list \<Rightarrow> nat) \<Rightarrow> (int list \<Rightarrow> 'a \<Rightarrow> 'a) \<Rightarrow> nat \<Rightarrow> (heap_key \<times> radix_key) list \<Rightarrow> nat \<Rightarrow> nat \<Rightarrow>
   node \<Rightarrow> 'a \<Rightarrow> (exn + nat \<times> nat \<times> node \<times> 'a) option" where
  "evict_loop ps pol pick fr num_tokens heap num_evicted keys_len root a =
     (if num_evicted < num_tokens \<and> heap \<noteq> [] then
        let j = pick (map fst heap);
            rest = take j heap @ drop (Suc j) heap
        in case delete_leaf ps [] root (snd (heap ! j)) of
             None \<Rightarrow> Some (Inl AssertionError)
           | Some (x, par, root') \<Rightarrow>
               evict_loop ps pol pick fr num_tokens
                 (case par of None \<Rightarrow> rest | Some p \<Rightarrow> rest @ [heap_entry pol p])
                 (num_evicted + length (nvalue x)) (keys_len + rk_len (nkey x)) root' (fr (nvalue x) a)
      else Some (Inr (num_evicted, keys_len, root, a)))"

definition evict ::
  "(heap_key list \<Rightarrow> nat) \<Rightarrow> (int list \<Rightarrow> 'a \<Rightarrow> 'a) \<Rightarrow> nat \<Rightarrow> radix_cache \<Rightarrow> 'a \<Rightarrow> (exn + nat \<times> radix_cache \<times> 'a) option" where
  "evict pick fr num_tokens rc a =
     (if rc_disable rc then Some (Inr (0, rc, a))
      else Option.bind
        (evict_loop (rc_page_size rc) (eviction_policy rc) pick fr num_tokens
           (map (heap_entry (eviction_policy rc)) (collect_leaves (root_node rc))) 0 0 (root_node rc) a)
        (\<lambda>r. Some (case r of
           Inl x \<Rightarrow> Inl x
         | Inr (n, keys_len, root, a') \<Rightarrow>
             Inr (n, rc\<lparr>root_node := root, evictable_size := evictable_size rc - int keys_len\<rparr>, a'))))"


subsection \<open>Sizes and contents\<close>

function values_below :: "node \<Rightarrow> int list" where
  "values_below (Node i cs) = nvalue i @ concat (map (\<lambda>p. values_below (snd p)) cs)"
  by pat_completeness auto
termination
  by (relation "measure size") (auto dest!: child_size_mem)

definition all_values_flatten :: "radix_cache \<Rightarrow> int list" where
  "all_values_flatten rc = concat (map (\<lambda>p. values_below (snd p)) (children (root_node rc)))"

definition total_size :: "radix_cache \<Rightarrow> nat" where
  "total_size rc = length (values_below (root_node rc))"


subsection \<open>Requests\<close>

text \<open>What the cache reads and writes of a request; \<open>kv_row\<close> is the request's row of \<open>req_to_token\<close>.\<close>

record req =
  origin_input_ids :: "int list"
  output_ids :: "int list"
  fill_ids :: "int list"
  req_extra_key :: "string option"
  req_pool_idx :: int
  kv_committed_len :: nat
  kv_committed_freed :: bool
  cache_protected_len :: nat
  last_node :: "int list"
  prefix_indices :: "int list"
  req_priority :: int
  kv_row :: "int list"

definition pop_committed_kv_cache :: "req \<Rightarrow> (nat, req) outcome" where
  "pop_committed_kv_cache r =
     (if kv_committed_freed r then (Inl AssertionError, r) else (Inr (kv_committed_len r), r\<lparr>kv_committed_freed := True\<rparr>))"

text \<open>The free slots of \<open>ReqToTokenPool\<close>, of which slot 0 is never given out.\<close>

definition req_pool_clear :: "nat \<Rightarrow> int list" where
  "req_pool_clear pool_sz = int_range 1 (pool_sz - 1)"

definition req_pool_alloc :: "nat \<Rightarrow> int list \<Rightarrow> int list option \<times> int list" where
  "req_pool_alloc need_size free_slots =
     (if length free_slots < need_size then (None, free_slots)
      else (Some (take need_size free_slots), drop need_size free_slots))"

definition req_pool_free :: "int \<Rightarrow> int list \<Rightarrow> int list" where
  "req_pool_free free_index free_slots = free_slots @ [free_index]"

text \<open>The slice \<open>xs[a:b]\<close>.\<close>

definition slice :: "nat \<Rightarrow> nat \<Rightarrow> 'a list \<Rightarrow> 'a list" where
  "slice a b xs = drop a (take b xs)"

definition node_ref :: "req \<Rightarrow> int list \<Rightarrow> radix_key" where
  "node_ref r path = \<lparr>token_ids = path, extra_key = req_extra_key r\<rparr>"

text \<open>Matching the prompt before a prefill; \<open>logprob_start\<close> is \<open>logprob_start_len\<close> when log probabilities are wanted
  from a given position on.\<close>

definition init_next_round_input :: "nat option \<Rightarrow> (nat \<Rightarrow> int) \<Rightarrow> req \<Rightarrow> radix_cache \<Rightarrow> (unit, req \<times> radix_cache) outcome" where
  "init_next_round_input logprob_start clk r rc =
     (let fill = origin_input_ids r @ output_ids r;
          max_prefix_len = (case logprob_start of None \<Rightarrow> length fill - 1 | Some n \<Rightarrow> min (length fill - 1) n);
          r1 = r\<lparr>fill_ids := fill\<rparr>
      in case match_prefix clk \<lparr>token_ids = take max_prefix_len fill, extra_key = req_extra_key r\<rparr> rc of
           (Inl x, rc1) \<Rightarrow> (Inl x, (r1, rc1))
         | (Inr (indices, node), rc1) \<Rightarrow>
             (Inr (), (r1\<lparr>prefix_indices := indices, last_node := node, cache_protected_len := length indices\<rparr>, rc1)))"

text \<open>The two operations return the request, the cache, the allocator and (the first) the free slots.\<close>

definition cache_finished_req ::
  "(nat \<Rightarrow> int) \<Rightarrow> (int list \<Rightarrow> 'a \<Rightarrow> 'a) \<Rightarrow> bool \<Rightarrow> req \<Rightarrow> radix_cache \<Rightarrow> 'a \<Rightarrow> int list \<Rightarrow>
   (exn + req \<times> radix_cache \<times> 'a \<times> int list) option" where
  "cache_finished_req clk fr is_insert r rc a slots =
     (case pop_committed_kv_cache r of
        (Inl x, _) \<Rightarrow> Some (Inl x)
      | (Inr committed, r') \<Rightarrow>
          if rc_disable rc then
            Some (Inr (r', rc, fr (take committed (kv_row r)) a, req_pool_free (req_pool_idx r) slots))
          else
            let tokens = take committed (origin_input_ids r @ output_ids r);
                kv_indices = take (length tokens) (kv_row r);
                keys = page_align (rc_page_size rc) (fill_ids r);
                vals = take (length keys) kv_indices;
                finish = (\<lambda>rc a. Some (Inr (r', snd (dec_lock_ref (node_ref r (last_node r)) rc),
                                            fr (drop (length keys) kv_indices) a, req_pool_free (req_pool_idx r) slots)))
            in if is_insert \<and> \<not> disable_finished_insert rc then
                 Option.bind (insert_cache clk \<lparr>token_ids = keys, extra_key = req_extra_key r\<rparr> vals (req_priority r) rc)
                   (\<lambda>(res, rc1). case res of
                      Inl x \<Rightarrow> Some (Inl x)
                    | Inr new_prefix_len \<Rightarrow> finish rc1 (fr (slice (cache_protected_len r) new_prefix_len kv_indices) a))
               else finish rc (fr (slice (cache_protected_len r) (length keys) kv_indices) a))"

text \<open>\<open>free\<close> gets the slots as values. In the code it gets a view of the row, which is read at once outside a
  free group; inside one it is read when the group ends, after the row has been overwritten here.\<close>

definition cache_unfinished_req ::
  "(nat \<Rightarrow> int) \<Rightarrow> (nat \<Rightarrow> int) \<Rightarrow> (int list \<Rightarrow> 'a \<Rightarrow> 'a) \<Rightarrow> req \<Rightarrow> radix_cache \<Rightarrow> 'a \<Rightarrow>
   (exn + req \<times> radix_cache \<times> 'a) option" where
  "cache_unfinished_req clk clk' fr r rc a =
     (if rc_disable rc then Some (Inr (r, rc, a))
      else
        let kv_indices = take (length (fill_ids r)) (kv_row r);
            keys = page_align (rc_page_size rc) (fill_ids r);
            key = \<lparr>token_ids = keys, extra_key = req_extra_key r\<rparr>;
            vals = take (length keys) kv_indices
        in Option.bind (insert_cache clk key vals (req_priority r) rc)
          (\<lambda>(res, rc1). case res of
             Inl x \<Rightarrow> Some (Inl x)
           | Inr new_prefix_len \<Rightarrow>
               let a1 = fr (slice (cache_protected_len r) new_prefix_len kv_indices) a
               in Some (case match_prefix clk' key rc1 of
                    (Inl x, _) \<Rightarrow> Inl x
                  | (Inr (new_indices, new_last_node), rc2) \<Rightarrow>
                      if length new_indices \<noteq> length keys then Inl AssertionError
                      else
                        let rc3 = snd (inc_lock_ref (node_ref r new_last_node) (snd (dec_lock_ref (node_ref r (last_node r)) rc2)));
                            row = take (cache_protected_len r) (kv_row r) @ drop (cache_protected_len r) new_indices
                                    @ drop (max (cache_protected_len r) (length new_indices)) (kv_row r)
                        in Inr (r\<lparr>kv_row := row, cache_protected_len := length new_indices, last_node := new_last_node,
                                  prefix_indices := (if length new_indices < length kv_indices
                                                     then new_indices @ drop (length new_indices) kv_indices else new_indices)\<rparr>,
                                rc3, a1))))"


subsection \<open>Allocation with eviction\<close>

text \<open>The helpers of \<open>common.py\<close> over a radix cache and the token allocator, in the branch for an
  allocator with one pool.\<close>

definition evict_from_tree_cache ::
  "(heap_key list \<Rightarrow> nat) \<Rightarrow> nat \<Rightarrow> radix_cache \<Rightarrow> allocator \<Rightarrow> (exn + radix_cache \<times> allocator) option" where
  "evict_from_tree_cache pick num_tokens rc a =
     (if available_size a < int num_tokens then
        Option.bind (evict pick token_free num_tokens rc a)
          (\<lambda>r. Some (case r of Inl x \<Rightarrow> Inl x | Inr (n, rc', a') \<Rightarrow> Inr (rc', a')))
      else Some (Inr (rc, a)))"

definition alloc_token_slots ::
  "(heap_key list \<Rightarrow> nat) \<Rightarrow> nat \<Rightarrow> radix_cache \<Rightarrow> allocator \<Rightarrow> (exn + int list \<times> radix_cache \<times> allocator) option" where
  "alloc_token_slots pick num_tokens rc a =
     Option.bind (evict_from_tree_cache pick num_tokens rc a)
       (\<lambda>r. Some (case r of
          Inl x \<Rightarrow> Inl x
        | Inr (rc', a1) \<Rightarrow>
            (case token_alloc num_tokens a1 of
               (None, a2) \<Rightarrow> Inl RuntimeError
             | (Some out_cache_loc, a2) \<Rightarrow> Inr (out_cache_loc, rc', a2))))"

end
