(* ===== verification/RadixInv.thy ===== *)
theory RadixInv
  imports RadixTree "HOL-Library.Multiset"
begin

section \<open>The invariant of the radix cache\<close>

text \<open>
  The length \<open>cpl\<close> of the longest common run of whole pages, which is what both key matches compute;
  the well-formed trees \<open>tree_ok\<close>; and the three observations of a tree the operations are specified by:
  \<open>lookup\<close> (the slots of the longest cached prefix of a key), \<open>tree_sum\<close> (sums over the nodes, from which
  the sizes and the multiset of the slots come) and \<open>held\<close> (the references to a node that are locked).
\<close>

subsection \<open>Matching keys\<close>

definition cpl :: "nat \<Rightarrow> int list \<Rightarrow> int list \<Rightarrow> nat" where
  "cpl ps xs ys = match_pages ps xs ys 0"

lemma dvd_step: "(i::nat) < n \<Longrightarrow> ps dvd i \<Longrightarrow> ps dvd n \<Longrightarrow> i + ps \<le> n"
  by (metis add.commute dvd_diff_nat dvd_imp_le le_diff_conv2 less_imp_le_nat zero_less_diff)

lemma match_pages_spec:
  assumes "0 < ps" "ps dvd length xs" "ps dvd length ys" "ps dvd i" "i \<le> length xs" "i \<le> length ys" "take i xs = take i ys"
  shows "ps dvd match_pages ps xs ys i \<and> match_pages ps xs ys i \<le> length xs \<and> match_pages ps xs ys i \<le> length ys
    \<and> take (match_pages ps xs ys i) xs = take (match_pages ps xs ys i) ys
    \<and> (\<forall>n. ps dvd n \<longrightarrow> n \<le> length xs \<longrightarrow> n \<le> length ys \<longrightarrow> take n xs = take n ys \<longrightarrow> n \<le> match_pages ps xs ys i)"
  using assms
proof (induction ps xs ys i rule: match_pages.induct)
  case (1 ps xs ys i)
  consider (stop) "\<not> i < min (length xs) (length ys)"
    | (differ) "i < min (length xs) (length ys)" "take ps (drop i xs) \<noteq> take ps (drop i ys)"
    | (page) "i < min (length xs) (length ys)" "take ps (drop i xs) = take ps (drop i ys)"
    by blast
  then show ?case
  proof cases
    case stop
    then have "match_pages ps xs ys i = i" by (subst match_pages.simps) auto
    then show ?thesis using 1 stop by auto
  next
    case differ
    then have m: "match_pages ps xs ys i = i" by (subst match_pages.simps) simp
    have "n \<le> i" if n: "ps dvd n" "take n xs = take n ys" for n
    proof (rule ccontr)
      assume "\<not> n \<le> i"
      then have "i + ps \<le> n" using dvd_step [of i n ps] n(1) 1(5) by simp
      then have "take ps (drop i xs) = take ps (drop i ys)"
        using n(2) by (metis add.commute min.absorb1 take_drop take_take)
      then show False using differ(2) by simp
    qed
    then show ?thesis using 1 m by auto
  next
    case page
    then have m: "match_pages ps xs ys i = match_pages ps xs ys (i + ps)" using 1(2) by (subst match_pages.simps) simp
    have "take (i + ps) xs = take (i + ps) ys" using 1(8) page(2) by (simp add: take_add)
    moreover have "i + ps \<le> length xs" "i + ps \<le> length ys" using dvd_step 1(3-5) page(1) by simp_all
    ultimately show ?thesis using 1(1) [OF _ _ 1(2-4)] page 1(2,5) m by simp
  qed
qed

lemma cpl_spec:
  assumes "0 < ps" "ps dvd length xs" "ps dvd length ys"
  shows "ps dvd cpl ps xs ys" "cpl ps xs ys \<le> length xs" "cpl ps xs ys \<le> length ys"
    and "take (cpl ps xs ys) xs = take (cpl ps xs ys) ys"
    and "ps dvd n \<Longrightarrow> n \<le> length xs \<Longrightarrow> n \<le> length ys \<Longrightarrow> n \<le> cpl ps xs ys \<longleftrightarrow> take n xs = take n ys"
proof -
  note s = match_pages_spec [OF assms dvd_0_right, simplified, folded cpl_def]
  show "ps dvd cpl ps xs ys" "cpl ps xs ys \<le> length xs" "cpl ps xs ys \<le> length ys"
    and eq: "take (cpl ps xs ys) xs = take (cpl ps xs ys) ys" using s by simp_all
  show "n \<le> cpl ps xs ys \<longleftrightarrow> take n xs = take n ys" if "ps dvd n" "n \<le> length xs" "n \<le> length ys"
    using s that eq by (metis min.absorb1 take_take)
qed

lemma cpl_eqI:
  assumes "0 < ps" "ps dvd length xs" "ps dvd length ys" "ps dvd m" "m \<le> length xs" "m \<le> length ys"
    and "\<And>n. ps dvd n \<Longrightarrow> n \<le> length xs \<Longrightarrow> n \<le> length ys \<Longrightarrow> n \<le> m \<longleftrightarrow> take n xs = take n ys"
  shows "cpl ps xs ys = m"
proof (rule le_antisym)
  note c = cpl_spec [OF assms(1-3)]
  show "cpl ps xs ys \<le> m" using assms(7) [OF c(1-3)] c(4) by simp
  show "m \<le> cpl ps xs ys" using c(5) [OF assms(4-6)] assms(7) [OF assms(4-6)] by simp
qed

lemma cpl_take:
  assumes "0 < ps" "ps dvd length xs" "ps dvd length ys" "ps dvd p" "p \<le> length xs"
  shows "cpl ps (take p xs) ys = min p (cpl ps xs ys)"
proof (rule cpl_eqI)
  note c = cpl_spec [OF assms(1-3)]
  show "ps dvd min p (cpl ps xs ys)" using c(1) assms(4) by (simp add: min_def)
  show "min p (cpl ps xs ys) \<le> length (take p xs)" "min p (cpl ps xs ys) \<le> length ys" using c(2,3) assms(5) by simp_all
  show "n \<le> min p (cpl ps xs ys) \<longleftrightarrow> take n (take p xs) = take n ys"
    if "ps dvd n" "n \<le> length (take p xs)" "n \<le> length ys" for n
    using c(5) [of n] that by (simp add: min_absorb1)
qed (use assms in simp_all)

lemma cpl_drop:
  assumes "0 < ps" "ps dvd length xs" "ps dvd length ys" "ps dvd p" "p \<le> cpl ps xs ys"
  shows "cpl ps (drop p xs) (drop p ys) = cpl ps xs ys - p"
proof (rule cpl_eqI)
  note c = cpl_spec [OF assms(1-3)]
  have le: "p \<le> length xs" "p \<le> length ys" using c(2,3) assms(5) by linarith+
  show "ps dvd length (drop p xs)" "ps dvd length (drop p ys)" "ps dvd cpl ps xs ys - p" using assms c(1) by simp_all
  show "cpl ps xs ys - p \<le> length (drop p xs)" "cpl ps xs ys - p \<le> length (drop p ys)" using c(2,3) by simp_all
  have eq: "take p xs = take p ys" using c(5) [OF assms(4) le] assms(5) by simp
  show "n \<le> cpl ps xs ys - p \<longleftrightarrow> take n (drop p xs) = take n (drop p ys)"
    if n: "ps dvd n" "n \<le> length (drop p xs)" "n \<le> length (drop p ys)" for n
  proof -
    have "n \<le> cpl ps xs ys - p \<longleftrightarrow> p + n \<le> cpl ps xs ys" using assms(5) by linarith
    also have "\<dots> \<longleftrightarrow> take (p + n) xs = take (p + n) ys" by (rule c(5)) (use n assms(4) le in auto)
    also have "\<dots> \<longleftrightarrow> take n (drop p xs) = take n (drop p ys)" by (simp add: take_add eq)
    finally show ?thesis .
  qed
qed (use assms in simp)

lemma cpl_commute:
  "0 < ps \<Longrightarrow> ps dvd length xs \<Longrightarrow> ps dvd length ys \<Longrightarrow> cpl ps xs ys = cpl ps ys xs"
  using cpl_spec [of ps ys xs] by (intro cpl_eqI) (simp_all add: eq_commute)

lemma cpl_self: "0 < ps \<Longrightarrow> ps dvd length xs \<Longrightarrow> cpl ps xs xs = length xs"
  by (rule cpl_eqI) auto

text \<open>The first page decides whether anything matches.\<close>

lemma cpl_pos:
  assumes "0 < ps" "ps dvd length xs" "ps dvd length ys" "xs \<noteq> []" "ys \<noteq> []"
  shows "0 < cpl ps xs ys \<longleftrightarrow> take ps xs = take ps ys"
proof -
  have "ps \<le> length xs" "ps \<le> length ys" using assms by (auto intro: dvd_imp_le)
  then have "ps \<le> cpl ps xs ys \<longleftrightarrow> take ps xs = take ps ys" using cpl_spec(5) [OF assms(1-3)] by simp
  then show ?thesis using cpl_spec(1) [OF assms(1-3)] assms(1) by (metis dvd_imp_le leD not_less not_gr0)
qed

lemma match_tokens_spec:
  "match_tokens xs ys \<le> length xs \<and> match_tokens xs ys \<le> length ys \<and>
   (n \<le> length xs \<longrightarrow> n \<le> length ys \<longrightarrow> (n \<le> match_tokens xs ys \<longleftrightarrow> take n xs = take n ys))"
  by (induction xs ys arbitrary: n rule: match_tokens.induct) (auto simp: take_Cons split: nat.splits)

lemma match_tokens_cpl: "match_tokens xs ys = cpl 1 xs ys"
  by (rule cpl_eqI [symmetric]) (use match_tokens_spec in \<open>auto\<close>)

lemma key_match_eq:
  "key_match ps k0 k1 = (if extra_key k0 \<noteq> extra_key k1 then Inl ValueError else Inr (cpl ps (token_ids k0) (token_ids k1)))"
  by (simp add: key_match_def match_tokens_cpl cpl_def)

lemma rk_simps [simp]:
  "token_ids (rk_take n k) = take n (token_ids k)" "extra_key (rk_take n k) = extra_key k"
  "token_ids (rk_drop n k) = drop n (token_ids k)" "extra_key (rk_drop n k) = extra_key k"
  "rk_drop 0 k = k" "rk_len (rk_drop n k) = rk_len k - n" "rk_drop m (rk_drop n k) = rk_drop (m + n) k"
  by (simp_all add: rk_take_def rk_drop_def rk_len_def)

lemma get_child_key_eq:
  "get_child_key ps k = get_child_key ps k' \<longleftrightarrow> extra_key k = extra_key k' \<and> take ps (token_ids k) = take ps (token_ids k')"
  by (simp add: get_child_key_def)


subsection \<open>Observations of a tree\<close>

definition find_child :: "nat \<Rightarrow> node \<Rightarrow> radix_key \<Rightarrow> node option" where
  "find_child ps n key = (if token_ids key = [] then None else od_get (children n) (get_child_key ps key))"

lemma find_child_size: "find_child ps n key = Some c \<Longrightarrow> size c < size n"
  by (cases n) (auto simp: find_child_def dest: child_size split: if_splits)

function lookup :: "nat \<Rightarrow> node \<Rightarrow> radix_key \<Rightarrow> int list" where
  "lookup ps n key =
     (case find_child ps n key of
        None \<Rightarrow> []
      | Some c \<Rightarrow>
          let p = cpl ps (token_ids (nkey (info c))) (token_ids key)
          in if p < rk_len (nkey (info c)) then take p (nvalue (info c))
             else nvalue (info c) @ lookup ps c (rk_drop (rk_len (nkey (info c))) key))"
  by pat_completeness auto
termination
  by (relation "measure (\<lambda>(ps, n, key). size n)") (auto dest: find_child_size)

text \<open>The references to a node that are not references to one of its descendants.\<close>

definition kid_locks :: "(child_key \<times> node) list \<Rightarrow> int" where
  "kid_locks cs = sum_list (map (\<lambda>p. lock_ref (info (snd p))) cs)"

definition direct :: "node \<Rightarrow> int" where
  "direct n = lock_ref (info n) - kid_locks (children n)"

function node_at :: "nat \<Rightarrow> node \<Rightarrow> radix_key \<Rightarrow> node option" where
  "node_at ps n path =
     (if token_ids path = [] then Some n
      else case find_child ps n path of
        None \<Rightarrow> None
      | Some c \<Rightarrow>
          if take (rk_len (nkey (info c))) (token_ids path) = token_ids (nkey (info c))
          then node_at ps c (rk_drop (rk_len (nkey (info c))) path) else None)"
  by pat_completeness auto
termination
  by (relation "measure (\<lambda>(ps, n, key). size n)") (auto dest: find_child_size)

declare lookup.simps [simp del] node_at.simps [simp del]

definition held :: "nat \<Rightarrow> node \<Rightarrow> radix_key \<Rightarrow> int" where
  "held ps n path = (case node_at ps n path of None \<Rightarrow> 0 | Some m \<Rightarrow> direct m)"

definition meas :: "(radix_key \<Rightarrow> int list \<Rightarrow> int \<Rightarrow> 'a) \<Rightarrow> node_info \<Rightarrow> 'a" where
  "meas g i = g (nkey i) (nvalue i) (lock_ref i)"

function tree_sum :: "(radix_key \<Rightarrow> int list \<Rightarrow> int \<Rightarrow> 'a::comm_monoid_add) \<Rightarrow> node \<Rightarrow> 'a" where
  "tree_sum g (Node i cs) = meas g i + sum_list (map (\<lambda>p. tree_sum g (snd p)) cs)"
  by pat_completeness auto
termination
  by (relation "measure (\<lambda>(g, n). size n)") (auto dest!: child_size_mem)


subsection \<open>Well-formed trees\<close>

definition info_ok :: "nat \<Rightarrow> node_info \<Rightarrow> bool" where
  "info_ok ps i \<longleftrightarrow> token_ids (nkey i) \<noteq> [] \<and> ps dvd rk_len (nkey i) \<and> length (nvalue i) = rk_len (nkey i) \<and> 0 \<le> lock_ref i"

text \<open>\<open>up\<close> is the node above, or None below the root, whose children have any extra key and whose
  own lock is fixed.\<close>

definition kid_ok :: "nat \<Rightarrow> bool \<Rightarrow> node_info \<Rightarrow> child_key \<Rightarrow> node_info \<Rightarrow> bool" where
  "kid_ok ps is_root up k i \<longleftrightarrow>
     k = get_child_key ps (nkey i) \<and> info_ok ps i \<and> (is_root \<or> extra_key (nkey i) = extra_key (nkey up))"

function tree_ok :: "nat \<Rightarrow> bool \<Rightarrow> node \<Rightarrow> bool" where
  "tree_ok ps is_root (Node i cs) \<longleftrightarrow>
     distinct (od_keys cs) \<and> (is_root \<or> kid_locks cs \<le> lock_ref i)
     \<and> (\<forall>p \<in> set cs. kid_ok ps is_root i (fst p) (info (snd p)) \<and> tree_ok ps False (snd p))"
  by pat_completeness auto
termination
  by (relation "measure (\<lambda>(ps, is_root, n). size n)") (auto dest!: child_size_mem)

declare tree_ok.simps [simp del]

lemma tree_ok_iff:
  "tree_ok ps is_root n \<longleftrightarrow> distinct (od_keys (children n)) \<and> (is_root \<or> 0 \<le> direct n)
     \<and> (\<forall>k c. od_get (children n) k = Some c \<longrightarrow> kid_ok ps is_root (info n) k (info c) \<and> tree_ok ps False c)"
proof (cases n)
  case (Node i cs)
  have "(\<forall>p \<in> set cs. P (fst p) (snd p)) \<longleftrightarrow> (\<forall>k c. od_get cs k = Some c \<longrightarrow> P k c)" if "distinct (od_keys cs)" for P
    using that by (fastforce dest: map_of_SomeD)
  from this [of "\<lambda>k c. kid_ok ps is_root i k (info c) \<and> tree_ok ps False c"] show ?thesis
    by (cases "distinct (od_keys cs)") (simp_all add: Node tree_ok.simps direct_def)
qed

lemma od_set_Cons:
  assumes "distinct (od_keys (p # d))"
  shows "od_set k v (p # d) = (if fst p = k then (k, v) # d else p # od_set k v d)"
proof -
  have "map (\<lambda>q. if fst q = fst p then (fst p, v) else q) d = d"
    using assms by (intro map_idI) (auto simp: image_iff)
  then show ?thesis by (auto simp: od_set_def od_mem_def)
qed

lemma od_sum_set:
  fixes f :: "'v \<Rightarrow> 'a::comm_monoid_add"
  assumes "distinct (od_keys d)"
  shows "sum_list (map (\<lambda>p. f (snd p)) (od_set k v d)) + (case od_get d k of None \<Rightarrow> 0 | Some w \<Rightarrow> f w)
    = sum_list (map (\<lambda>p. f (snd p)) d) + f v"
  using assms
proof (induction d)
  case (Cons p d)
  then have IH: "sum_list (map (\<lambda>p. f (snd p)) (od_set k v d)) + (case od_get d k of None \<Rightarrow> 0 | Some w \<Rightarrow> f w)
    = sum_list (map (\<lambda>p. f (snd p)) d) + f v" by simp
  show ?case
  proof (cases "fst p = k")
    case True
    then show ?thesis by (simp add: od_set_Cons [OF Cons.prems] ac_simps)
  next
    case False
    then show ?thesis by (simp add: od_set_Cons [OF Cons.prems] add.assoc IH)
  qed
qed (simp add: od_set_def od_mem_def)

lemma od_sum_pop:
  fixes f :: "'v \<Rightarrow> 'a::comm_monoid_add"
  assumes "distinct (od_keys d)" "od_get d k = Some w"
  shows "sum_list (map (\<lambda>p. f (snd p)) (od_pop k d)) + f w = sum_list (map (\<lambda>p. f (snd p)) d)"
  using assms
proof (induction d)
  case (Cons p d)
  have "filter (\<lambda>q. fst q \<noteq> fst p) d = d" using Cons.prems(1) by (auto simp: filter_id_conv image_iff)
  moreover have "fst p \<noteq> k \<Longrightarrow> sum_list (map (\<lambda>p. f (snd p)) (od_pop k d)) + f w = sum_list (map (\<lambda>p. f (snd p)) d)"
    using Cons by (simp split: if_splits)
  ultimately show ?case using Cons.prems(2) by (cases "fst p = k") (auto simp: od_pop_def add.assoc intro: add.commute)
qed simp

lemma kid_locks_set:
  "distinct (od_keys cs) \<Longrightarrow>
   kid_locks (od_set k c cs) = kid_locks cs + lock_ref (info c) - (case od_get cs k of None \<Rightarrow> 0 | Some c \<Rightarrow> lock_ref (info c))"
  using od_sum_set [of cs "\<lambda>c. lock_ref (info c)" k c] by (simp add: kid_locks_def algebra_simps)

lemma tree_sum_set:
  "distinct (od_keys cs) \<Longrightarrow>
   tree_sum g (Node i (od_set k c cs)) + (case od_get cs k of None \<Rightarrow> 0 | Some c \<Rightarrow> tree_sum g c) = tree_sum g (Node i cs) + tree_sum g c"
  using od_sum_set [of cs "tree_sum g" k c] by (simp add: add.assoc)

lemma tree_ok_set:
  assumes "tree_ok ps r n" "kid_ok ps r (info n) k (info c)" "tree_ok ps False c"
    and "lock_ref (info c) \<le> (case od_get (children n) k of None \<Rightarrow> 0 | Some c \<Rightarrow> lock_ref (info c))"
  shows "tree_ok ps r (Node (info n) (od_set k c (children n)))"
  using assms kid_locks_set [of "children n" k c] unfolding tree_ok_iff [of ps r] by (auto simp: od_simps direct_def)

lemma tree_ok_child:
  "tree_ok ps r n \<Longrightarrow> find_child ps n q = Some c \<Longrightarrow>
   kid_ok ps r (info n) (get_child_key ps q) (info c) \<and> tree_ok ps False c \<and> od_get (children n) (get_child_key ps q) = Some c"
  by (simp add: find_child_def tree_ok_iff [of ps r] del: split_paired_All split: if_splits)

lemma find_child_set:
  "find_child ps (Node i (od_set k c cs)) q
     = (if token_ids q \<noteq> [] \<and> get_child_key ps q = k then Some c else find_child ps (Node j cs) q)"
  by (simp add: find_child_def od_simps)

text \<open>The observations below a node that a key has reached.\<close>

definition enter :: "nat \<Rightarrow> node \<Rightarrow> radix_key \<Rightarrow> int list" where
  "enter ps c q =
     (let p = cpl ps (token_ids (nkey (info c))) (token_ids q)
      in if p < rk_len (nkey (info c)) then take p (nvalue (info c))
         else nvalue (info c) @ lookup ps c (rk_drop (rk_len (nkey (info c))) q))"

definition at_in :: "nat \<Rightarrow> node \<Rightarrow> radix_key \<Rightarrow> node option" where
  "at_in ps c q =
     (if take (rk_len (nkey (info c))) (token_ids q) = token_ids (nkey (info c))
      then node_at ps c (rk_drop (rk_len (nkey (info c))) q) else None)"

definition held_in :: "nat \<Rightarrow> node \<Rightarrow> radix_key \<Rightarrow> int" where
  "held_in ps c q = (case at_in ps c q of None \<Rightarrow> 0 | Some m \<Rightarrow> direct m)"

lemma lookup_enter: "lookup ps n q = (case find_child ps n q of None \<Rightarrow> [] | Some c \<Rightarrow> enter ps c q)"
  by (subst lookup.simps) (simp add: enter_def cong: option.case_cong)

lemma node_at_in: "node_at ps n q = (if token_ids q = [] then Some n else Option.bind (find_child ps n q) (\<lambda>c. at_in ps c q))"
  by (subst node_at.simps) (auto simp: at_in_def split: option.splits)

lemma held_held_in: "token_ids q \<noteq> [] \<Longrightarrow> held ps n q = (case find_child ps n q of None \<Rightarrow> 0 | Some c \<Rightarrow> held_in ps c q)"
  by (simp add: held_def node_at_in held_in_def split: option.splits)

lemma held_in_held:
  "held_in ps c q = (if take (rk_len (nkey (info c))) (token_ids q) = token_ids (nkey (info c))
     then held ps c (rk_drop (rk_len (nkey (info c))) q) else 0)"
  by (simp add: held_in_def at_in_def held_def)

lemma held_here: "token_ids q = [] \<Longrightarrow> held ps n q = direct n"
  by (simp add: held_def node_at_in)

lemma lookup_cong: "children n = children n' \<Longrightarrow> lookup ps n q = lookup ps n' q"
  by (simp add: lookup_enter find_child_def)

lemma held_cong: "children n = children n' \<Longrightarrow> lock_ref (info n) = lock_ref (info n') \<Longrightarrow> held ps n q = held ps n' q"
  by (cases "token_ids q = []") (simp_all add: held_here held_held_in direct_def find_child_def)

text \<open>A node that differs only in its times, its hits and its priority.\<close>

definition same_node :: "node \<Rightarrow> node \<Rightarrow> bool" where
  "same_node n n' \<longleftrightarrow> children n' = children n \<and> nkey (info n') = nkey (info n) \<and> nvalue (info n') = nvalue (info n)
     \<and> lock_ref (info n') = lock_ref (info n)"

lemma same_node_views:
  assumes "same_node n n'"
  shows "tree_ok ps r n' = tree_ok ps r n" "enter ps n' q = enter ps n q" "held_in ps n' q = held_in ps n q"
    and "tree_sum g n' = tree_sum g n" "kid_ok ps r u k (info n') = kid_ok ps r u k (info n)" "kid_ok ps r (info n') k u = kid_ok ps r (info n) k u"
proof -
  note s = assms [unfolded same_node_def]
  show k: "kid_ok ps r u k (info n') = kid_ok ps r u k (info n)" "kid_ok ps r (info n') k u = kid_ok ps r (info n) k u" for u k
    using s by (simp_all add: kid_ok_def info_ok_def)
  show "tree_ok ps r n' = tree_ok ps r n" using s by (simp add: tree_ok_iff [of ps r] direct_def k)
  show "enter ps n' q = enter ps n q" using s lookup_cong [of n' n] by (simp add: enter_def Let_def)
  show "held_in ps n' q = held_in ps n q" using s held_cong [of n' n] by (simp add: held_in_held)
  show "tree_sum g n' = tree_sum g n" using s by (cases n; cases n') (simp add: meas_def)
qed

lemma same_node_simps [simp]:
  "same_node n n" "same_node n (touch t n)" "same_node n (raise_priority p n)" "same_node n (raise_priority p (touch t n))"
  by (simp_all add: same_node_def touch_def raise_priority_def with_info_def)

end
