(* ===== verification/RadixOps.thy ===== *)
theory RadixOps
  imports RadixInv
begin

section \<open>Splitting, matching and inserting\<close>

text \<open>
  A split changes no observation of the tree. So a match only reads, and an insertion adds to \<open>lookup\<close>
  the part of the new key that was missing and nothing else; it ends on every well-formed tree. The
  locale \<open>node_measure\<close> is what a quantity summed over the nodes needs for these operations to keep it.
\<close>

subsection \<open>Splits\<close>

locale node_measure =
  fixes g :: "radix_key \<Rightarrow> int list \<Rightarrow> int \<Rightarrow> 'a::cancel_comm_monoid_add"
  assumes additive: "p \<le> rk_len k \<Longrightarrow> length v = rk_len k \<Longrightarrow>
    g (rk_take p k) (take p v) l + g (rk_drop p k) (drop p v) l = g k v l"

lemma split_children: "children (split_node ps clk c p) =
  [(get_child_key ps (rk_drop p (nkey (info c))),
    with_info (\<lambda>i. i\<lparr>nkey := rk_drop p (nkey i), nvalue := drop p (nvalue i)\<rparr>) c)]"
  by (simp add: split_node_def Let_def with_info_def)

lemma split_info:
  "nkey (info (split_node ps clk c p)) = rk_take p (nkey (info c))" "nvalue (info (split_node ps clk c p)) = take p (nvalue (info c))"
  "lock_ref (info (split_node ps clk c p)) = lock_ref (info c)"
  by (simp_all add: split_node_def Let_def new_info_def)

definition lower_part :: "nat \<Rightarrow> node \<Rightarrow> node" where
  "lower_part p c = with_info (\<lambda>i. i\<lparr>nkey := rk_drop p (nkey i), nvalue := drop p (nvalue i)\<rparr>) c"

lemma lower_part_simps [simp]:
  "children (lower_part p c) = children c" "nkey (info (lower_part p c)) = rk_drop p (nkey (info c))"
  "nvalue (info (lower_part p c)) = drop p (nvalue (info c))" "lock_ref (info (lower_part p c)) = lock_ref (info c)"
  by (simp_all add: lower_part_def with_info_def)

lemmas split_simps = split_children [folded lower_part_def] split_info

text \<open>A place inside the key of a node, on a page boundary.\<close>

definition cut_ok :: "nat \<Rightarrow> node \<Rightarrow> nat \<Rightarrow> bool" where
  "cut_ok ps c p \<longleftrightarrow> 0 < ps \<and> info_ok ps (info c) \<and> ps dvd p \<and> 0 < p \<and> p < rk_len (nkey (info c))"

lemma cut_page: "cut_ok ps c p \<Longrightarrow> ps \<le> p \<and> p + ps \<le> rk_len (nkey (info c))"
  by (auto simp: cut_ok_def info_ok_def dvd_step dvd_imp_le)

lemma split_ok:
  assumes "cut_ok ps c p" "tree_ok ps False c" "kid_ok ps r u k (info c)"
  shows "tree_ok ps False (split_node ps clk c p)" "kid_ok ps r u k (info (split_node ps clk c p))"
proof -
  let ?s = "split_node ps clk c p"
  note cut = assms(1) [unfolded cut_ok_def info_ok_def]
  have "take ps (take p (token_ids (nkey (info c)))) = take ps (token_ids (nkey (info c)))" using cut_page [OF assms(1)] by simp
  then show "kid_ok ps r u k (info ?s)" using cut assms(3) by (auto simp: kid_ok_def info_ok_def split_simps get_child_key_def rk_len_def)
  have "tree_ok ps False (lower_part p c)" using assms(2) unfolding tree_ok_iff [of ps False c] tree_ok_iff [of ps False "lower_part p c"] by (simp add: direct_def kid_ok_def)
  moreover have "kid_ok ps False (info ?s) (get_child_key ps (rk_drop p (nkey (info c)))) (info (lower_part p c))"
    using cut by (simp add: kid_ok_def info_ok_def split_simps rk_len_def)
  ultimately show "tree_ok ps False ?s"
    unfolding tree_ok_iff [of ps False ?s] by (simp add: split_simps direct_def kid_locks_def)
qed

lemma find_in_split:
  assumes "cut_ok ps c p" "extra_key q = extra_key (nkey (info c))" "token_ids q \<noteq> []"
  shows "find_child ps (split_node ps clk c p) q
    = (if take ps (token_ids q) = take ps (drop p (token_ids (nkey (info c)))) then Some (lower_part p c) else None)"
  using assms by (simp add: find_child_def split_simps get_child_key_def)

lemma enter_split:
  assumes cut: "cut_ok ps c p" and q: "extra_key q = extra_key (nkey (info c))" "ps dvd rk_len q"
  shows "enter ps (split_node ps clk c p) q = enter ps c q"
proof -
  let ?k = "token_ids (nkey (info c))" and ?t = "token_ids q" and ?s = "split_node ps clk c p"
  define cp where "cp = cpl ps ?k ?t"
  note c = cut [unfolded cut_ok_def info_ok_def rk_len_def]
  have al: "0 < ps" "ps dvd length ?k" "ps dvd length ?t" "ps dvd p" "p < length ?k" using c q by (simp_all add: rk_len_def)
  note sp = cpl_spec [OF al(1-3), folded cp_def]
  have min: "cpl ps (take p ?k) ?t = min p cp" unfolding cp_def by (rule cpl_take) (use al in simp_all)
  have rest: "cpl ps (drop p ?k) (drop p ?t) = cp - p" if "p \<le> cp" unfolding cp_def by (rule cpl_drop) (use al that cp_def in simp_all)
  have low: "lookup ps ?s (rk_drop p q) = (if cp = p then [] else enter ps (lower_part p c) (rk_drop p q))" if "p \<le> cp"
  proof (cases "drop p ?t = []")
    case True
    then have "cp = p" using sp(3) that by simp
    with True show ?thesis by (simp add: lookup_enter find_child_def)
  next
    case False
    have "0 < cp - p \<longleftrightarrow> take ps (drop p ?k) = take ps (drop p ?t)"
      unfolding rest [OF that, symmetric] by (rule cpl_pos) (use al False in simp_all)
    then show ?thesis using find_in_split [OF cut, of "rk_drop p q" clk] False q(1) that by (auto simp: lookup_enter)
  qed
  have "enter ps ?s q = (if cp < p then take cp (nvalue (info c)) else take p (nvalue (info c)) @ lookup ps ?s (rk_drop p q))"
    using al by (simp add: enter_def Let_def split_simps min rk_len_def min_absorb2)
  moreover have "enter ps (lower_part p c) (rk_drop p q) = (if cp < length ?k then take (cp - p) (drop p (nvalue (info c)))
      else drop p (nvalue (info c)) @ lookup ps c (rk_drop (length ?k) q))" if "p \<le> cp"
  proof -
    have "cp - p < length ?k - p \<longleftrightarrow> cp < length ?k" using al(5) that by linarith
    then show ?thesis using al rest [OF that] lookup_cong [of "lower_part p c" c] by (simp add: enter_def Let_def rk_len_def)
  qed
  moreover have "enter ps c q = (if cp < length ?k then take cp (nvalue (info c)) else nvalue (info c) @ lookup ps c (rk_drop (length ?k) q))"
    by (simp add: enter_def Let_def rk_len_def cp_def)
  moreover have "take p v @ take (cp - p) (drop p v) = take cp v" if "p \<le> cp" for v :: "int list"
    using that take_add [of p "cp - p" v] by simp
  moreover have "take p v @ drop p v @ w = v @ w" for v w :: "int list" by (metis append_assoc append_take_drop_id)
  ultimately show ?thesis using low al(5) by (cases "p \<le> cp"; cases "cp = p"; cases "cp < length ?k") simp_all
qed

lemma held_in_split:
  assumes cut: "cut_ok ps c p" and q: "extra_key q = extra_key (nkey (info c))"
  shows "held_in ps (split_node ps clk c p) q = held_in ps c q"
proof -
  let ?k = "token_ids (nkey (info c))" and ?t = "token_ids q" and ?s = "split_node ps clk c p"
  have p: "p < length ?k" "ps \<le> length ?k - p" using cut_page [OF cut] cut by (auto simp: cut_ok_def rk_len_def)
  have split: "take (length ?k) ?t = ?k \<longleftrightarrow> take p ?t = take p ?k \<and> take (length ?k - p) (drop p ?t) = drop p ?k"
  proof -
    have t: "take (length ?k) ?t = take p ?t @ take (length ?k - p) (drop p ?t)" using p(1) take_add [of p "length ?k - p" ?t] by simp
    have "take p ?k = take p ?t \<and> drop p ?k = take (length ?k - p) (drop p ?t)" if eq: "take (length ?k) ?t = ?k"
    proof -
      have "take p ?k = take p (take (length ?k) ?t)" "drop p ?k = drop p (take (length ?k) ?t)" using eq by simp_all
      then show ?thesis using p(1) by (simp add: drop_take min_absorb1)
    qed
    then show ?thesis using t by auto
  qed
  have s: "held_in ps ?s q = (if take p ?t = take p ?k then held ps ?s (rk_drop p q) else 0)"
    using p(1) by (simp add: held_in_held split_simps rk_len_def min_absorb2)
  have c: "held_in ps c q = (if take (length ?k) ?t = ?k then held ps c (rk_drop (length ?k) q) else 0)"
    by (simp add: held_in_held rk_len_def)
  show ?thesis
  proof (cases "drop p ?t = []")
    case True
    then have "length (take (length ?k) ?t) < length ?k" using p(1) by simp
    then have "take (length ?k) ?t \<noteq> ?k" by (metis less_irrefl)
    moreover have "held ps ?s (rk_drop p q) = 0" using True by (simp add: held_here direct_def kid_locks_def split_simps)
    ultimately show ?thesis using s c by simp
  next
    case False
    have page: "take ps (drop p ?t) = take ps (drop p ?k)" if "take (length ?k - p) (drop p ?t) = drop p ?k"
    proof -
      have "take ps (drop p ?k) = take ps (take (length ?k - p) (drop p ?t))" using that by simp
      also have "\<dots> = take ps (drop p ?t)" using p(2) by (simp add: min_absorb1)
      finally show ?thesis by simp
    qed
    have "held ps ?s (rk_drop p q) = (if take ps (drop p ?t) = take ps (drop p ?k) then held_in ps (lower_part p c) (rk_drop p q) else 0)"
      using find_in_split [OF cut, of "rk_drop p q" clk] False q by (simp add: held_held_in)
    moreover have "held_in ps (lower_part p c) (rk_drop p q)
        = (if take (length ?k - p) (drop p ?t) = drop p ?k then held ps c (rk_drop (length ?k) q) else 0)"
      using p(1) held_cong [of "lower_part p c" c] by (simp add: held_in_held rk_len_def)
    ultimately show ?thesis unfolding s c split using page by simp
  qed
qed

context node_measure
begin

lemma sum_split:
  assumes "cut_ok ps c p"
  shows "tree_sum g (split_node ps clk c p) = tree_sum g c"
proof -
  have "tree_sum g (lower_part p c) = g (rk_drop p (nkey (info c))) (drop p (nvalue (info c))) (lock_ref (info c))
      + sum_list (map (\<lambda>q. tree_sum g (snd q)) (children c))"
    by (simp add: lower_part_def with_info_def meas_def)
  moreover have "tree_sum g (split_node ps clk c p) = g (rk_take p (nkey (info c))) (take p (nvalue (info c))) (lock_ref (info c)) + tree_sum g (lower_part p c)"
    using split_simps [of ps clk c p] by (cases "split_node ps clk c p") (simp add: meas_def)
  moreover have "tree_sum g c = g (nkey (info c)) (nvalue (info c)) (lock_ref (info c)) + sum_list (map (\<lambda>q. tree_sum g (snd q)) (children c))"
    by (cases c) (simp add: meas_def)
  ultimately show ?thesis using additive [of p "nkey (info c)" "nvalue (info c)"] assms
    by (simp add: cut_ok_def info_ok_def add.assoc [symmetric])
qed

end


subsection \<open>Following a key\<close>

lemma reach:
  assumes "0 < ps" "tree_ok ps r n" "find_child ps n key = Some c" "ps dvd rk_len key"
  defines "p \<equiv> cpl ps (token_ids (nkey (info c))) (token_ids key)"
  shows "key_match ps (nkey (info c)) key = Inr p" "0 < p" "p \<le> rk_len key" "ps dvd p" "p \<le> rk_len (nkey (info c))"
    and "take p (token_ids (nkey (info c))) = take p (token_ids key)" "extra_key (nkey (info c)) = extra_key key"
    and "get_child_key ps (nkey (info c)) = get_child_key ps key" "p < rk_len (nkey (info c)) \<Longrightarrow> cut_ok ps c p"
proof -
  have k: "kid_ok ps r (info n) (get_child_key ps key) (info c)" "token_ids key \<noteq> []"
    using tree_ok_child [OF assms(2,3)] assms(3) by (auto simp: find_child_def split: if_splits)
  then have i: "info_ok ps (info c)" "extra_key (nkey (info c)) = extra_key key"
    "take ps (token_ids (nkey (info c))) = take ps (token_ids key)"
    by (auto simp: kid_ok_def get_child_key_def)
  have al: "ps dvd length (token_ids (nkey (info c)))" "ps dvd length (token_ids key)" "token_ids (nkey (info c)) \<noteq> []"
    using i(1) assms(4) by (simp_all add: info_ok_def rk_len_def)
  note sp = cpl_spec [OF assms(1) al(1,2), folded p_def]
  show "key_match ps (nkey (info c)) key = Inr p" using i(2) by (simp add: key_match_eq p_def)
  show pos: "0 < p" using cpl_pos [OF assms(1) al k(2)] i(3) by (simp add: p_def)
  show "p \<le> rk_len key" "ps dvd p" "p \<le> rk_len (nkey (info c))" "take p (token_ids (nkey (info c))) = take p (token_ids key)"
    using sp(1-4) by (simp_all add: rk_len_def)
  show "extra_key (nkey (info c)) = extra_key key" by (rule i(2))
  show "get_child_key ps (nkey (info c)) = get_child_key ps key" using i by (simp add: get_child_key_def)
  show "p < rk_len (nkey (info c)) \<Longrightarrow> cut_ok ps c p" using i(1) pos sp(1) assms(1) by (simp add: cut_ok_def)
qed

text \<open>The node a key reaches, split where the key leaves it.\<close>

definition reached :: "nat \<Rightarrow> (nat \<Rightarrow> int) \<Rightarrow> node \<Rightarrow> nat \<Rightarrow> node" where
  "reached ps clk c p =
     (if p < rk_len (nkey (info c)) then split_node ps clk (touch (clk 0) c) p else touch (clk 0) c)"

lemma cut_same: "same_node c c' \<Longrightarrow> cut_ok ps c' p = cut_ok ps c p"
  by (simp add: same_node_def cut_ok_def info_ok_def)

lemma reached_ok:
  assumes "0 < ps" "tree_ok ps r n" "find_child ps n key = Some c" "ps dvd rk_len key"
  defines "p \<equiv> cpl ps (token_ids (nkey (info c))) (token_ids key)"
  shows "tree_ok ps False (reached ps clk c p)" "kid_ok ps r (info n) (get_child_key ps key) (info (reached ps clk c p))"
    and "lock_ref (info (reached ps clk c p)) = lock_ref (info c)" "token_ids (nkey (info (reached ps clk c p))) = take p (token_ids key)"
    and "extra_key (nkey (info (reached ps clk c p))) = extra_key key" "rk_len (nkey (info (reached ps clk c p))) = p"
    and "length (nvalue (info (reached ps clk c p))) = p"
    and "extra_key q = extra_key key \<Longrightarrow> ps dvd rk_len q \<Longrightarrow> enter ps (reached ps clk c p) q = enter ps c q"
    and "extra_key q = extra_key key \<Longrightarrow> held_in ps (reached ps clk c p) q = held_in ps c q"
proof -
  let ?t = "touch (clk 0) c"
  note re = reach [OF assms(1-4), folded p_def] and ch = tree_ok_child [OF assms(2,3)]
  have same: "same_node c ?t" by simp
  note sv = same_node_views [OF same]
  have i: "nkey (info ?t) = nkey (info c)" "nvalue (info ?t) = nvalue (info c)" "lock_ref (info ?t) = lock_ref (info c)"
    using same by (simp_all add: same_node_def)
  have cut: "cut_ok ps ?t p" if "p < rk_len (nkey (info c))" using re(9) [OF that] cut_same [OF same] by simp
  note sp = split_ok [OF cut, of r "info n" "get_child_key ps key" clk, unfolded sv]
  show "tree_ok ps False (reached ps clk c p)" "kid_ok ps r (info n) (get_child_key ps key) (info (reached ps clk c p))"
    using sp ch by (simp_all add: reached_def sv)
  show "lock_ref (info (reached ps clk c p)) = lock_ref (info c)" "extra_key (nkey (info (reached ps clk c p))) = extra_key key"
    using re(7) by (simp_all add: reached_def split_simps i)
  show tk: "token_ids (nkey (info (reached ps clk c p))) = take p (token_ids key)"
    using re(5,6) by (auto simp: reached_def split_simps i rk_len_def)
  show len: "rk_len (nkey (info (reached ps clk c p))) = p" using tk re(3) by (simp add: rk_len_def)
  then show "length (nvalue (info (reached ps clk c p))) = p"
    using \<open>kid_ok ps r (info n) (get_child_key ps key) (info (reached ps clk c p))\<close> by (simp add: kid_ok_def info_ok_def)
  show "enter ps (reached ps clk c p) q = enter ps c q" if "extra_key q = extra_key key" "ps dvd rk_len q"
    using enter_split [OF cut, of q clk] that re(7) by (simp add: reached_def sv i)
  show "held_in ps (reached ps clk c p) q = held_in ps c q" if "extra_key q = extra_key key"
    using held_in_split [OF cut, of q clk] that re(7) by (simp add: reached_def sv i)
qed

text \<open>Two keys that leave a node by different children share no page.\<close>

definition shared :: "nat \<Rightarrow> radix_key \<Rightarrow> radix_key \<Rightarrow> nat" where
  "shared ps key q = (if extra_key key = extra_key q then cpl ps (token_ids key) (token_ids q) else 0)"

lemma shared_other:
  assumes "0 < ps" "ps dvd rk_len key" "ps dvd rk_len q"
    and "token_ids key = [] \<or> token_ids q = [] \<or> get_child_key ps q \<noteq> get_child_key ps key"
  shows "shared ps key q = 0"
proof -
  have al: "ps dvd length (token_ids key)" "ps dvd length (token_ids q)" using assms by (simp_all add: rk_len_def)
  show ?thesis using cpl_spec(2,3) [OF assms(1) al] cpl_pos [OF assms(1) al] assms(4)
    by (cases "token_ids key = []"; cases "token_ids q = []") (auto simp: shared_def get_child_key_def)
qed

lemma shared_drop:
  assumes "0 < ps" "ps dvd rk_len key" "ps dvd rk_len q" "ps dvd p" "p \<le> shared ps key q" "extra_key key = extra_key q"
  shows "shared ps (rk_drop p key) (rk_drop p q) = shared ps key q - p"
  using cpl_drop [of ps "token_ids key" "token_ids q" p] assms by (simp add: shared_def rk_len_def)

lemma enter_reached:
  assumes "0 < ps" "token_ids (nkey (info x)) = take p (token_ids key)" "p \<le> rk_len key" "ps dvd p" "length (nvalue (info x)) = p"
    and "extra_key q = extra_key key" "ps dvd rk_len key" "ps dvd rk_len q"
  shows "enter ps x q = (if shared ps key q < p then take (shared ps key q) (nvalue (info x)) else nvalue (info x) @ lookup ps x (rk_drop p q))"
proof -
  have "cpl ps (take p (token_ids key)) (token_ids q) = min p (shared ps key q)"
    unfolding shared_def using cpl_take [of ps "token_ids key" "token_ids q" p] assms by (simp add: rk_len_def)
  moreover have "rk_len (nkey (info x)) = p" using assms(2,3) by (simp add: rk_len_def)
  ultimately show ?thesis using assms(2) by (simp add: enter_def Let_def)
qed

lemma enter_key: 
  assumes "0 < ps" "token_ids (nkey (info x)) = take p (token_ids key)" "p \<le> rk_len key" "ps dvd p" "length (nvalue (info x)) = p"
    and "ps dvd rk_len key"
  shows "enter ps x key = nvalue (info x) @ lookup ps x (rk_drop p key)"
  using enter_reached [OF assms(1-5) refl assms(6,6)] cpl_self [of ps "token_ids key"] assms by (simp add: shared_def rk_len_def)


text \<open>Lookups are whole pages, no longer than the key, and agree where the keys do.\<close>

lemma lookup_len:
  assumes "0 < ps" "tree_ok ps r n" "ps dvd rk_len q"
  shows "length (lookup ps n q) \<le> rk_len q \<and> ps dvd length (lookup ps n q)"
  using assms
proof (induction ps n q arbitrary: r rule: lookup.induct)
  case (1 ps n q)
  show ?case
  proof (cases "find_child ps n q")
    case (Some c)
    let ?p = "cpl ps (token_ids (nkey (info c))) (token_ids q)" and ?l = "rk_len (nkey (info c))"
    note re = reach [OF 1(2,3) Some 1(4)] and ch = tree_ok_child [OF 1(3) Some]
    have v: "length (nvalue (info c)) = ?l" "ps dvd ?l" using ch by (simp_all add: kid_ok_def info_ok_def)
    show ?thesis
    proof (cases "?p < ?l")
      case True
      then show ?thesis using Some v re(3,4) by (simp add: lookup_enter enter_def)
    next
      case False
      then show ?thesis using 1(1) [OF Some refl False 1(2), of False] ch 1(4) v re(3,5) Some
        by (auto simp: lookup_enter [of ps n] enter_def)
    qed
  qed (simp add: lookup_enter)
qed

lemma cpl_agree:
  assumes "0 < ps" "ps dvd length xs" "ps dvd length ys" "ps dvd length k"
  shows "min (cpl ps xs ys) (cpl ps k xs) = min (cpl ps xs ys) (cpl ps k ys)"
proof -
  note c = cpl_spec [OF assms(1-3)]
  have "min (cpl ps xs ys) (cpl ps xs k) = cpl ps (take (cpl ps xs ys) xs) k" by (rule cpl_take [symmetric]) (use assms c(1,2) in simp_all)
  also have "\<dots> = min (cpl ps xs ys) (cpl ps ys k)" unfolding c(4) by (rule cpl_take) (use assms c(1,3) in simp_all)
  finally show ?thesis using cpl_commute [OF assms(1,4)] assms(2,3) by simp
qed

lemma lookup_shared:
  assumes "0 < ps" "tree_ok ps r n" "ps dvd rk_len q" "ps dvd rk_len q'"
  shows "take (shared ps q q') (lookup ps n q) = take (shared ps q q') (lookup ps n q')"
  using assms
proof (induction ps n q arbitrary: r q' rule: lookup.induct)
  case (1 ps n q)
  show ?case
  proof (cases "shared ps q q' = 0")
    case False
    then have k: "token_ids q \<noteq> []" "token_ids q' \<noteq> []" "get_child_key ps q' = get_child_key ps q" "extra_key q = extra_key q'"
      using shared_other [OF 1(2,4,5)] by (auto simp: shared_def split: if_splits)
    then have fc: "find_child ps n q' = find_child ps n q" by (simp add: find_child_def)
    show ?thesis
    proof (cases "find_child ps n q")
      case (Some c)
      let ?k = "token_ids (nkey (info c))" and ?l = "rk_len (nkey (info c))" and ?m = "shared ps q q'"
      note re = reach [OF 1(2,3) Some 1(4)] and re' = reach [OF 1(2,3) Some [folded fc] 1(5)] and ch = tree_ok_child [OF 1(3) Some]
      have v: "length (nvalue (info c)) = ?l" "ps dvd ?l" using ch by (simp_all add: kid_ok_def info_ok_def)
      have agree: "min ?m (cpl ps ?k (token_ids q)) = min ?m (cpl ps ?k (token_ids q'))"
        using cpl_agree [of ps "token_ids q" "token_ids q'" ?k] 1(2,4,5) v(2) k(4) by (simp add: shared_def rk_len_def)
      have IH: "take (?m - ?l) (lookup ps c (rk_drop ?l q)) = take (?m - ?l) (lookup ps c (rk_drop ?l q'))"
        if "\<not> cpl ps ?k (token_ids q) < ?l" "?l \<le> ?m"
        using 1(1) [OF Some refl that(1) 1(2), of False "rk_drop ?l q'"] ch 1(4,5) v(2) shared_drop [OF 1(2,4,5) v(2) that(2) k(4)] by simp
      have "take ?m (enter ps c q) = take ?m (enter ps c q')"
        using agree IH v(1) re(5) re'(5) by (auto simp: enter_def Let_def min_def not_less split: if_splits)
      then show ?thesis by (simp add: lookup_enter [of ps n] fc Some)
    qed (simp add: lookup_enter fc)
  qed simp
qed


text \<open>The path to a node is cached as a whole.\<close>

lemma node_full:
  assumes "0 < ps" "tree_ok ps r n" "ps dvd rk_len path" "node_at ps n path \<noteq> None"
  shows "length (lookup ps n path) = rk_len path"
  using assms
proof (induction ps n path arbitrary: r rule: node_at.induct)
  case (1 ps n path)
  show ?case
  proof (cases "token_ids path = []")
    case True
    then show ?thesis by (simp add: lookup_enter find_child_def rk_len_def)
  next
    case False
    then obtain c where c: "find_child ps n path = Some c" "at_in ps c path \<noteq> None" using 1(5) by (auto simp: node_at_in bind_eq_None_conv)
    let ?l = "rk_len (nkey (info c))"
    have at: "take ?l (token_ids path) = token_ids (nkey (info c))" "node_at ps c (rk_drop ?l path) \<noteq> None"
      using c(2) by (auto simp: at_in_def split: if_splits)
    note re = reach [OF 1(2,3) c(1) 1(4)] and ch = tree_ok_child [OF 1(3) c(1)]
    have v: "length (nvalue (info c)) = ?l" "ps dvd ?l" using ch by (simp_all add: kid_ok_def info_ok_def)
    have l: "?l \<le> rk_len path" using arg_cong [OF at(1), of length] by (simp add: rk_len_def)
    have "?l \<le> cpl ps (token_ids (nkey (info c))) (token_ids path)"
      using cpl_spec(5) [of ps "token_ids (nkey (info c))" "token_ids path" ?l] 1(2,4) v(2) l at(1) by (simp add: rk_len_def)
    then show ?thesis using 1(1) [OF False c(1) at(1) 1(2), of False] ch at(2) 1(4) v l c(1)
      by (simp add: lookup_enter [of ps n] enter_def Let_def)
  qed
qed

text \<open>What a lookup returns belongs to a node of the tree: one whose path shares exactly that much
  with the key.\<close>

lemma lookup_node:
  assumes "0 < ps" "tree_ok ps r n" "ps dvd rk_len q"
  shows "\<exists>path. node_at ps n path \<noteq> None \<and> ps dvd rk_len path \<and> extra_key path = extra_key q \<and> shared ps path q = length (lookup ps n q)"
  using assms
proof (induction ps n q arbitrary: r rule: lookup.induct)
  case (1 ps n q)
  show ?case
  proof (cases "find_child ps n q")
    case None
    then show ?thesis using shared_other [OF 1(2) _ 1(4), of "rk_take 0 q"]
      by (intro exI [of _ "rk_take 0 q"]) (simp add: lookup_enter node_at_in rk_len_def)
  next
    case (Some c)
    let ?k = "token_ids (nkey (info c))" and ?l = "rk_len (nkey (info c))" and ?p = "cpl ps (token_ids (nkey (info c))) (token_ids q)"
    note re = reach [OF 1(2,3) Some 1(4)] and ch = tree_ok_child [OF 1(3) Some]
    have v: "length (nvalue (info c)) = ?l" "ps dvd ?l" "?k \<noteq> []" using ch by (simp_all add: kid_ok_def info_ok_def)
    have q: "token_ids q \<noteq> []" using Some by (auto simp: find_child_def split: if_splits)
    have child: "find_child ps n path = Some c" if "token_ids path = ?k @ xs" "extra_key path = extra_key q" for path xs
    proof -
      have "ps \<le> ?l" using v by (auto simp: rk_len_def intro: dvd_imp_le)
      then have "get_child_key ps path = get_child_key ps q" using that re(8) by (simp add: get_child_key_def rk_len_def)
      then show ?thesis using Some q that(1) v(3) by (simp add: find_child_def)
    qed
    show ?thesis
    proof (cases "?p < ?l")
      case True
      let ?path = "q\<lparr>token_ids := ?k\<rparr>"
      have "node_at ps n ?path \<noteq> None" using child [of ?path "[]"] v(3) by (simp add: node_at_in at_in_def rk_len_def)
      moreover have "shared ps ?path q = length (lookup ps n q)" using True Some v(1) by (simp add: shared_def lookup_enter enter_def)
      ultimately show ?thesis using v(2) by (intro exI [of _ ?path]) (simp add: rk_len_def)
    next
      case False
      have "ps dvd rk_len (rk_drop ?l q)" using 1(4) v(2) by simp
      then obtain p1 where p1: "node_at ps c p1 \<noteq> None" "ps dvd rk_len p1" "extra_key p1 = extra_key q"
          "shared ps p1 (rk_drop ?l q) = length (lookup ps c (rk_drop ?l q))"
        using 1(1) [OF Some refl False 1(2), of False] ch by auto
      let ?path = "q\<lparr>token_ids := ?k @ token_ids p1\<rparr>"
      have dr: "rk_drop ?l ?path = p1" using p1(3) by (simp add: rk_drop_def rk_len_def)
      have "node_at ps n ?path \<noteq> None" using child [of ?path "token_ids p1"] v(3) p1(1) dr by (simp add: node_at_in at_in_def rk_len_def)
      moreover have path: "ps dvd rk_len ?path" using v(2) p1(2) by (simp add: rk_len_def)
      moreover have "?l \<le> shared ps ?path q"
        using False re(3,5,6) cpl_spec(5) [OF 1(2) path [unfolded rk_len_def] 1(4) [unfolded rk_len_def], of ?l] v(2) by (simp add: shared_def rk_len_def)
      with shared_drop [OF 1(2) path 1(4) v(2)] dr p1(4) have "shared ps ?path q = ?l + length (lookup ps c (rk_drop ?l q))" by simp
      moreover have "length (lookup ps n q) = ?l + length (lookup ps c (rk_drop ?l q))"
        using False Some v(1) by (simp add: lookup_enter [of ps n] enter_def)
      ultimately show ?thesis by (intro exI [of _ ?path]) simp
    qed
  qed
qed


subsection \<open>Insertion\<close>

text \<open>What a lookup returns after an insertion: the slots it returned before, and for the rest of what the
  two keys share the new ones.\<close>

definition inserted :: "nat \<Rightarrow> radix_key \<Rightarrow> int list \<Rightarrow> (radix_key \<Rightarrow> int list) \<Rightarrow> radix_key \<Rightarrow> int list" where
  "inserted ps key val f q = f q @ drop (length (f q)) (take (shared ps key q) val)"

text \<open>The contract of the insertion of \<open>key\<close> below \<open>n\<close>, whose result is \<open>n'\<close>.\<close>

definition inserts :: "(radix_key \<Rightarrow> int list \<Rightarrow> int \<Rightarrow> 'a::cancel_comm_monoid_add) \<Rightarrow> nat \<Rightarrow> bool \<Rightarrow> radix_key \<Rightarrow> int list \<Rightarrow> node \<Rightarrow> node \<Rightarrow> bool" where
  "inserts g ps r key val n n' \<longleftrightarrow>
     info n' = info n \<and> tree_ok ps r n'
     \<and> (\<forall>q. ps dvd rk_len q \<longrightarrow> lookup ps n' q = inserted ps key val (lookup ps n) q)
     \<and> (\<forall>q. held ps n' q = held ps n q)
     \<and> (let l = length (lookup ps n key)
        in tree_sum g n' = tree_sum g n + (if l < rk_len key then g (rk_drop l key) (drop l val) 0 else 0))"

lemma inserts_nothing:
  assumes "0 < ps" "tree_ok ps r n" "token_ids key = []"
  shows "inserts g ps r key val n n"
  using assms by (simp add: inserts_def inserted_def shared_other rk_len_def)

lemma inserts_leaf:
  fixes g :: "radix_key \<Rightarrow> int list \<Rightarrow> int \<Rightarrow> 'a::cancel_comm_monoid_add"
  assumes "0 < ps" "tree_ok ps r n" "token_ids key \<noteq> []" "find_child ps n key = None" "ps dvd rk_len key" "length val = rk_len key"
    and "r \<or> extra_key key = extra_key (nkey (info n))"
    and leaf_def: "leaf = Node (new_info t t' prio key val) []"
  shows "inserts g ps r key val n (Node (info n) (od_set (get_child_key ps key) leaf (children n)))"
    (is "inserts _ _ _ _ _ _ ?n")
proof -
  let ?ck = "get_child_key ps key"
  have none: "od_get (children n) ?ck = None" using assms(3,4) by (simp add: find_child_def)
  have i: "nkey (info leaf) = key" "nvalue (info leaf) = val" "lock_ref (info leaf) = 0" "children leaf = []" by (simp_all add: leaf_def new_info_def)
  have dist: "distinct (od_keys (children n))" using assms(2) by (simp add: tree_ok_iff [of ps r])
  have fc: "find_child ps ?n q = (if token_ids q \<noteq> [] \<and> get_child_key ps q = ?ck then Some leaf else find_child ps n q)" for q
    by (simp add: find_child_def od_simps)
  have old: "find_child ps n q = None" if "get_child_key ps q = ?ck" for q using none that by (simp add: find_child_def)
  have "tree_ok ps False leaf" by (simp add: tree_ok_iff [of ps False leaf] i direct_def kid_locks_def)
  then have ok: "tree_ok ps r ?n"
    by (intro tree_ok_set [OF assms(2)]) (use assms none i in \<open>simp_all add: kid_ok_def info_ok_def\<close>)
  have "lookup ps ?n q = inserted ps key val (lookup ps n) q" if q: "ps dvd rk_len q" for q
  proof (cases "token_ids q \<noteq> [] \<and> get_child_key ps q = ?ck")
    case True
    then have "extra_key key = extra_key q" by (simp add: get_child_key_def)
    then have "enter ps leaf q = take (shared ps key q) val"
      using assms(6) by (simp add: enter_def i Let_def shared_def lookup_enter [of ps leaf] find_child_def)
    then show ?thesis using True old [of q] by (simp add: lookup_enter fc inserted_def)
  next
    case False
    then have "shared ps key q = 0" using shared_other [OF assms(1,5) q] by auto
    then show ?thesis using False by (auto simp: lookup_enter fc inserted_def)
  qed
  moreover have "held ps ?n q = held ps n q" for q
  proof (cases "token_ids q = []")
    case True
    then show ?thesis using kid_locks_set [OF dist, of ?ck leaf] by (simp add: held_here direct_def none i)
  next
    case False
    have "held ps leaf x = 0" for x
      by (cases "token_ids x = []") (simp_all add: i held_here held_held_in direct_def kid_locks_def find_child_def)
    then have "held_in ps leaf q = 0" by (simp add: held_in_held)
    then show ?thesis using False old [of q] by (simp add: held_held_in fc)
  qed
  moreover have "tree_sum g ?n = tree_sum g n + g key val 0"
    using tree_sum_set [OF dist, of g "info n" ?ck leaf] none by (simp add: leaf_def meas_def new_info_def)
  moreover have "lookup ps n key = []" using assms(4) by (simp add: lookup_enter)
  ultimately show ?thesis using ok assms(3) by (simp add: inserts_def rk_len_def)
qed

text \<open>From the contract below the reached node to the one above it.\<close>

lemma inserted_below:
  assumes x: "0 < ps" "token_ids (nkey (info x)) = take p (token_ids key)" "p \<le> rk_len key" "ps dvd p" "length (nvalue (info x)) = p"
    and q: "extra_key q = extra_key key" "ps dvd rk_len key" "ps dvd rk_len q"
    and x': "info x' = info x" "lookup ps x' (rk_drop p q) = inserted ps (rk_drop p key) (drop p val) (lookup ps x) (rk_drop p q)"
  shows "enter ps x' q = enter ps x q @ drop (length (enter ps x q)) (take (shared ps key q) val)"
proof -
  define m where "m = shared ps key q"
  have e: "enter ps x q = (if m < p then take m (nvalue (info x)) else nvalue (info x) @ lookup ps x (rk_drop p q))"
    "enter ps x' q = (if m < p then take m (nvalue (info x)) else nvalue (info x) @ lookup ps x' (rk_drop p q))"
    using enter_reached [OF x q] enter_reached [of ps x' p key q, unfolded x'(1), OF x q] by (simp_all add: m_def)
  have "shared ps (rk_drop p key) (rk_drop p q) = m - p" if "\<not> m < p"
    using shared_drop [OF x(1) q(2,3) x(4)] that q(1) by (simp add: m_def)
  moreover have "drop (p + k) (take m val) = drop k (take (m - p) (drop p val))" for k
    unfolding drop_take [of p m val, symmetric] by (simp add: add.commute)
  ultimately show ?thesis unfolding m_def [symmetric] e x'(2) inserted_def using x(5) by (cases "m < p") simp_all
qed

context node_measure
begin

lemma inserts_below:
  assumes n: "0 < ps" "tree_ok ps r n" "find_child ps n key = Some c" "ps dvd rk_len key" "length val = rk_len key"
  defines "p \<equiv> cpl ps (token_ids (nkey (info c))) (token_ids key)"
  assumes x: "same_node (reached ps clk c p) x" and x': "inserts g ps False (rk_drop p key) (drop p val) x x'"
  shows "inserts g ps r key val n (Node (info n) (od_set (get_child_key ps key) x' (children n)))" (is "inserts _ _ _ _ _ _ ?n")
    and "length (lookup ps n key) = p + length (lookup ps x (rk_drop p key))"
proof -
  let ?ck = "get_child_key ps key"
  note re = reach [OF n(1-4), folded p_def] and ro = reached_ok [OF n(1-4), folded p_def, where clk = clk]
  note sv = same_node_views [OF x] and ch = tree_ok_child [OF n(2,3)]
  note ins = x' [unfolded inserts_def Let_def]
  have i: "info x' = info x" "nkey (info x) = nkey (info (reached ps clk c p))" "nvalue (info x) = nvalue (info (reached ps clk c p))"
    "lock_ref (info x) = lock_ref (info c)" using ins x ro(3) by (simp_all add: same_node_def)
  have dist: "distinct (od_keys (children n))" using n(2) by (simp add: tree_ok_iff [of ps r])
  have kx: "kid_ok ps r (info n) ?ck (info x')" using ro(2) sv(5) by (simp add: i(1))
  have xa: "token_ids (nkey (info x)) = take p (token_ids key)" "length (nvalue (info x)) = p" using ro(4,7) by (simp_all add: i)
  have fc: "find_child ps ?n q = (if token_ids q \<noteq> [] \<and> get_child_key ps q = ?ck then Some x' else find_child ps n q)" for q
    by (simp add: find_child_def od_simps)
  have old: "find_child ps n q = Some c" "extra_key q = extra_key key" if "token_ids q \<noteq> []" "get_child_key ps q = ?ck" for q
    using that ch by (simp_all add: find_child_def get_child_key_def)
  have lk: "enter ps c key = nvalue (info x) @ lookup ps x (rk_drop p key)"
    using enter_key [OF n(1) xa(1) re(3,4) xa(2) n(4)] ro(8) [OF refl n(4)] sv(2) by simp
  then show len: "length (lookup ps n key) = p + length (lookup ps x (rk_drop p key))"
    using n(3) xa(2) by (simp add: lookup_enter [of ps n])
  have ok: "tree_ok ps r ?n" by (intro tree_ok_set [OF n(2) kx]) (use ins ch i in simp_all)
  have "lookup ps ?n q = inserted ps key val (lookup ps n) q" if q: "ps dvd rk_len q" for q
  proof (cases "token_ids q \<noteq> [] \<and> get_child_key ps q = ?ck")
    case True
    note o = old [OF conjunct1 [OF True] conjunct2 [OF True]]
    have "ps dvd rk_len (rk_drop p q)" using q re(4) by simp
    then have "enter ps x' q = enter ps x q @ drop (length (enter ps x q)) (take (shared ps key q) val)"
      by (intro inserted_below [OF n(1) xa(1) re(3,4) xa(2) o(2) n(4) q i(1)]) (use ins in simp)
    then show ?thesis using True o ro(8) [OF o(2) q] sv(2) by (simp add: lookup_enter fc inserted_def)
  next
    case False
    then have "shared ps key q = 0" using shared_other [OF n(1,4) q] by auto
    then show ?thesis using False by (auto simp: lookup_enter fc inserted_def)
  qed
  moreover have "held ps ?n q = held ps n q" for q
  proof (cases "token_ids q = []")
    case True
    then show ?thesis using kid_locks_set [OF dist, of ?ck x'] ch i by (simp add: held_here direct_def)
  next
    case False
    have "held_in ps x' q = held_in ps x q" using ins by (simp add: held_in_held i(1))
    then show ?thesis using False old [of q] ro(9) [of q] sv(3) [of ps q] by (auto simp: held_held_in fc)
  qed
  moreover have "tree_sum g ?n = tree_sum g n + (if length (lookup ps n key) < rk_len key
      then g (rk_drop (length (lookup ps n key)) key) (drop (length (lookup ps n key)) val) 0 else 0)" (is "_ = _ + ?d")
  proof -
    have "tree_sum g (reached ps clk c p) = tree_sum g c"
      using sum_split [of ps "touch (clk 0) c" p clk] re(9) cut_same [of c "touch (clk 0) c"] same_node_views(4) [of c "touch (clk 0) c" g]
      by (simp add: reached_def)
    then have "tree_sum g x' = tree_sum g c + ?d" using ins re(3) sv(4) [of g] by (auto simp: len less_diff_conv2 add.commute)
    moreover have "tree_sum g ?n + tree_sum g c = tree_sum g n + tree_sum g x'"
      using tree_sum_set [OF dist, of g "info n" ?ck x'] ch by simp
    ultimately have "tree_sum g ?n + tree_sum g c = tree_sum g n + ?d + tree_sum g c" by (simp only: ac_simps)
    then show ?thesis by (rule add_right_imp_eq)
  qed
  ultimately show "inserts g ps r key val n ?n" using ok by (simp add: inserts_def Let_def)
qed

end

context node_measure
begin

theorem insert_loop_ok:
  assumes "0 < ps" "tree_ok ps r n" "ps dvd rk_len key" "length val = rk_len key" "r \<or> extra_key key = extra_key (nkey (info n))"
  shows "\<exists>n'. insert_loop ps clk prio n key val
      = Some (Inr (length (lookup ps n key), rk_len key - length (lookup ps n key), n')) \<and> inserts g ps r key val n n'"
  using assms
proof (induction "rk_len key" arbitrary: r n key val rule: less_induct)
  case less
  show ?case
  proof (cases "token_ids key = []")
    case True
    then have "insert_loop ps clk prio n key val = Some (Inr (0, 0, n))" "lookup ps n key = []" "rk_len key = 0"
      by (simp_all add: insert_loop.simps lookup_enter find_child_def rk_len_def)
    then show ?thesis using inserts_nothing [OF less.prems(1,2) True] by simp
  next
    case False
    show ?thesis
    proof (cases "find_child ps n key")
      case None
      then have "lookup ps n key = []" "insert_loop ps clk prio n key val = Some (Inr (0, rk_len key,
          Node (info n) (od_set (get_child_key ps key) (Node (new_info (clk 3) (clk 4) prio key val) []) (children n))))"
        using False by (simp_all add: lookup_enter find_child_def insert_loop.simps [of ps clk prio n])
      then show ?thesis using inserts_leaf [OF less.prems(1,2) False None less.prems(3,4,5) refl] by auto
    next
      case (Some c)
      let ?p = "cpl ps (token_ids (nkey (info c))) (token_ids key)"
      let ?x = "raise_priority prio (reached ps clk c ?p)"
      note re = reach [OF less.prems(1,2) Some less.prems(3)]
        and ro = reached_ok [OF less.prems(1,2) Some less.prems(3), where clk = clk]
      have x: "same_node (reached ps clk c ?p) ?x" by simp
      have "rk_len (rk_drop ?p key) < rk_len key" using re(2,3) by simp
      moreover have "tree_ok ps False ?x" using ro(1) same_node_views(1) [OF x] by simp
      moreover have "extra_key (nkey (info ?x)) = extra_key key" using ro(5) x by (simp add: same_node_def)
      ultimately obtain x' where x': "insert_loop ps clk prio ?x (rk_drop ?p key) (drop ?p val)
            = Some (Inr (length (lookup ps ?x (rk_drop ?p key)), rk_len (rk_drop ?p key) - length (lookup ps ?x (rk_drop ?p key)), x'))"
          "inserts g ps False (rk_drop ?p key) (drop ?p val) ?x x'"
        using less.hyps [of "rk_drop ?p key" False ?x "drop ?p val"] less.prems re(4) by auto
      have "od_get (children n) (get_child_key ps key) = Some c" using Some False by (simp add: find_child_def)
      then have "insert_loop ps clk prio n key val = Some (Inr (?p + length (lookup ps ?x (rk_drop ?p key)),
          rk_len (rk_drop ?p key) - length (lookup ps ?x (rk_drop ?p key)), Node (info n) (od_set (get_child_key ps key) x' (children n))))"
        using x'(1) False re(1,8)
        by (cases "?p < rk_len (nkey (info c))") (simp_all add: insert_loop.simps [of ps clk prio n] reached_def Let_def)
      then show ?thesis
        using inserts_below [OF less.prems(1,2) Some less.prems(3,4) x x'(2)] by auto
    qed
  qed
qed

end


subsection \<open>Matching\<close>

text \<open>The contract of a match: the slots are the lookup, the node returned ends where they end, and the
  tree looks as before.\<close>

definition reads :: "(radix_key \<Rightarrow> int list \<Rightarrow> int \<Rightarrow> 'a::cancel_comm_monoid_add) \<Rightarrow> nat \<Rightarrow> bool \<Rightarrow> radix_key \<Rightarrow> node \<Rightarrow> int list \<Rightarrow> node \<Rightarrow> bool" where
  "reads g ps r key n v n' \<longleftrightarrow>
     v = lookup ps n key \<and> same_node n (Node (info n') (children n)) \<and> tree_ok ps r n'
     \<and> (\<forall>q. ps dvd rk_len q \<longrightarrow> lookup ps n' q = lookup ps n q) \<and> (\<forall>q. held ps n' q = held ps n q)
     \<and> tree_sum g n' = tree_sum g n \<and> node_at ps n' (rk_take (length v) key) \<noteq> None"

lemma reads_nothing:
  assumes "tree_ok ps r n" "find_child ps n key = None"
  shows "reads g ps r key n [] (touch t n)"
proof -
  have s: "same_node n (touch t n)" by simp
  then have "lookup ps (touch t n) q = lookup ps n q" "held ps (touch t n) q = held ps n q" for q
    by (auto intro!: lookup_cong held_cong simp: same_node_def)
  then show ?thesis using assms same_node_views(1,4) [OF s] s
    by (simp add: reads_def lookup_enter [of ps n] node_at_in same_node_def)
qed

lemma reads_below:
  fixes g :: "radix_key \<Rightarrow> int list \<Rightarrow> int \<Rightarrow> 'a::cancel_comm_monoid_add"
  assumes n: "tree_ok ps r n" "find_child ps n key = Some c" "same_node n (Node i (children n))"
    and x: "tree_ok ps False x" "kid_ok ps r (info n) (get_child_key ps key) (info x)" "lock_ref (info x) = lock_ref (info c)"
      "\<And>q. extra_key q = extra_key key \<Longrightarrow> ps dvd rk_len q \<Longrightarrow> enter ps x q = enter ps c q"
      "\<And>q. extra_key q = extra_key key \<Longrightarrow> held_in ps x q = held_in ps c q" "tree_sum g x = tree_sum g c"
    and v: "v = enter ps c key" "at_in ps x (rk_take (length v) key) \<noteq> None" "0 < ps" "ps \<le> length v"
  shows "reads g ps r key n v (Node i (od_set (get_child_key ps key) x (children n)))" (is "reads _ _ _ _ _ _ ?n")
proof -
  let ?ck = "get_child_key ps key"
  note ch = tree_ok_child [OF n(1,2)]
  have same: "same_node (Node (info n) cs) (Node i cs)" for cs using n(3) by (simp add: same_node_def)
  have key: "token_ids key \<noteq> []" using n(2) by (simp add: find_child_def split: if_splits)
  have dist: "distinct (od_keys (children n))" using n(1) by (simp add: tree_ok_iff [of ps r])
  have fc: "find_child ps ?n q = (if token_ids q \<noteq> [] \<and> get_child_key ps q = ?ck then Some x else find_child ps n q)" for q
    by (simp add: find_child_def od_simps)
  have old: "find_child ps n q = Some c" "extra_key q = extra_key key" if "token_ids q \<noteq> []" "get_child_key ps q = ?ck" for q
    using that ch by (simp_all add: find_child_def get_child_key_def)
  have "tree_ok ps r ?n"
    using same_node_views(1) [OF same] tree_ok_set [OF n(1) x(2,1)] ch x(3) by simp
  moreover have "lookup ps ?n q = lookup ps n q" if "ps dvd rk_len q" for q
    using old [of q] x(4) that by (auto simp: lookup_enter fc)
  moreover have "held ps ?n q = held ps n q" for q
  proof (cases "token_ids q = []")
    case True
    then show ?thesis using kid_locks_set [OF dist, of ?ck x] ch x(3) n(3) by (simp add: held_here direct_def same_node_def)
  qed (use old [of q] x(5) in \<open>auto simp: held_held_in fc\<close>)
  moreover have "tree_sum g ?n = tree_sum g n"
  proof -
    have "tree_sum g (Node (info n) (od_set ?ck x (children n))) = tree_sum g n"
      using tree_sum_set [OF dist, of g "info n" ?ck x] ch x(6) by simp
    then show ?thesis using same_node_views(4) [OF same] by metis
  qed
  moreover have "node_at ps ?n (rk_take (length v) key) \<noteq> None"
  proof -
    have "get_child_key ps (rk_take (length v) key) = ?ck" using v(4) by (simp add: get_child_key_def min_absorb1)
    moreover have "token_ids (rk_take (length v) key) \<noteq> []" using v(3,4) key by auto
    ultimately show ?thesis using v(2) by (simp add: node_at_in fc)
  qed
  moreover have "v = lookup ps n key" using v(1) n(2) by (simp add: lookup_enter)
  ultimately show ?thesis using n(3) by (simp add: reads_def)
qed

lemma rk_drop_take: "rk_drop m (rk_take (m + l) k) = rk_take l (rk_drop m k)"
  by (simp add: rk_take_def rk_drop_def drop_take)

lemma reads_unsplit:
  fixes g :: "radix_key \<Rightarrow> int list \<Rightarrow> int \<Rightarrow> 'a::cancel_comm_monoid_add"
  assumes n: "0 < ps" "tree_ok ps r n" "ps dvd rk_len key" "find_child ps n key = Some c" "same_node n (Node i (children n))"
  defines "p \<equiv> cpl ps (token_ids (nkey (info c))) (token_ids key)"
  assumes whole: "\<not> p < rk_len (nkey (info c))" and c': "reads g ps False (rk_drop p key) c (lookup ps c (rk_drop p key)) c'"
  shows "reads g ps r key n (enter ps c key) (Node i (od_set (get_child_key ps key) c' (children n)))"
proof (rule reads_below [OF n(2,4,5)])
  note re = reach [OF n(1,2,4,3), folded p_def] and ch = tree_ok_child [OF n(2,4)] and rd = c' [unfolded reads_def]
  have p: "p = rk_len (nkey (info c))" using whole re(5) by simp
  have i: "nkey (info c') = nkey (info c)" "nvalue (info c') = nvalue (info c)" "lock_ref (info c') = lock_ref (info c)"
    using rd by (simp_all add: same_node_def)
  show "tree_ok ps False c'" "lock_ref (info c') = lock_ref (info c)" "tree_sum g c' = tree_sum g c" using rd i by simp_all
  show "kid_ok ps r (info n) (get_child_key ps key) (info c')" using ch i by (simp add: kid_ok_def info_ok_def)
  show "held_in ps c' q = held_in ps c q" for q using rd i by (simp add: held_in_held)
  show "enter ps c' q = enter ps c q" if "ps dvd rk_len q" for q
    using rd i that re(4) p by (simp add: enter_def Let_def)
  have v: "enter ps c key = nvalue (info c) @ lookup ps c (rk_drop p key)" using p by (simp add: enter_def Let_def flip: p_def)
  have len: "length (nvalue (info c)) = p" "take p (token_ids key) = token_ids (nkey (info c))"
    using ch re(6) p by (simp_all add: kid_ok_def info_ok_def rk_len_def)
  then have "take p (take (p + l) (token_ids key)) = token_ids (nkey (info c))" for l by simp
  moreover have "node_at ps c' (rk_take (length (lookup ps c (rk_drop p key))) (rk_drop p key)) \<noteq> None" using rd by simp
  ultimately show "at_in ps c' (rk_take (length (enter ps c key)) key) \<noteq> None"
    using rk_drop_take [of p "length (lookup ps c (rk_drop p key))" key] by (simp add: v at_in_def i len(1) flip: p)
  show "0 < ps" "ps \<le> length (enter ps c key)" using n(1) re(2,4) dvd_imp_le [of ps p] by (simp_all add: v len(1))
qed simp

context node_measure
begin

theorem match_helper_ok:
  assumes "0 < ps" "tree_ok ps r n" "ps dvd rk_len key"
  shows "\<exists>n'. match_prefix_helper ps clk n key = Inr (lookup ps n key, take (length (lookup ps n key)) (token_ids key), n')
    \<and> reads g ps r key n (lookup ps n key) n'"
  using assms
proof (induction ps clk n key arbitrary: r rule: match_prefix_helper.induct)
  case (1 ps clk i cs key)
  let ?n = "Node i cs" and ?ck = "get_child_key ps key" and ?i = "i\<lparr>last_access_time := clk 0\<rparr>"
  have same: "same_node ?n (Node ?i (children ?n))" by (simp add: same_node_def)
  show ?case
  proof (cases "find_child ps ?n key")
    case None
    then have "match_prefix_helper ps clk ?n key = Inr ([], [], Node ?i cs)" "lookup ps ?n key = []"
      by (auto simp: Let_def find_child_def lookup_enter split: if_splits)
    then show ?thesis using reads_nothing [OF 1(3) None, of g "clk 0"] by (simp add: touch_def with_info_def)
  next
    case (Some c)
    let ?p = "cpl ps (token_ids (nkey (info c))) (token_ids key)"
    note re = reach [OF 1(2,3) Some 1(4)] and ro = reached_ok [OF 1(2,3) Some 1(4), where clk = clk]
    have get: "token_ids key \<noteq> []" "od_get cs ?ck = Some c" "(if token_ids key = [] then None else od_get cs ?ck) = Some c"
      using Some by (auto simp: find_child_def split: if_splits)
    have page: "ps \<le> ?p" using re(2,4) by (simp add: dvd_imp_le)
    have lk: "lookup ps ?n key = enter ps c key" using Some by (simp add: lookup_enter)
    show ?thesis
    proof (cases "?p < rk_len (nkey (info c))")
      case True
      let ?x = "split_node ps clk (touch (clk 0) c) ?p"
      have x: "reached ps clk c ?p = ?x" using True by (simp add: reached_def)
      have v: "enter ps c key = nvalue (info ?x)"
        using True by (simp add: enter_def split_simps touch_def with_info_def)
      have "tree_sum g ?x = tree_sum g c"
        using sum_split [of ps "touch (clk 0) c" ?p clk] re(9) [OF True] cut_same [of c "touch (clk 0) c"] same_node_views(4) [of c "touch (clk 0) c" g]
        by simp
      moreover have "at_in ps ?x (rk_take (length (nvalue (info ?x))) key) \<noteq> None"
        using ro(4,6,7) re(3) by (simp add: x at_in_def node_at_in rk_len_def)
      ultimately have "reads g ps r key ?n (nvalue (info ?x)) (Node ?i (od_set ?ck ?x (children ?n)))"
        using ro(1-3,7-9) page 1(2) unfolding x by (intro reads_below [OF 1(3) Some same]) (simp_all add: v)
      moreover have "token_ids (nkey (info ?x)) = take (length (nvalue (info ?x))) (token_ids key)" using ro(4,7) by (simp add: x)
      ultimately show ?thesis using get re(1,8) True by (simp add: Let_def lk v)
    next
      case False
      then have p: "?p = rk_len (nkey (info c))" using re(5) by simp
      have x: "reached ps clk c ?p = touch (clk 0) c" using False by (simp add: reached_def)
      obtain c' where c': "match_prefix_helper ps clk c (rk_drop ?p key) = Inr (lookup ps c (rk_drop ?p key),
            take (length (lookup ps c (rk_drop ?p key))) (token_ids (rk_drop ?p key)), c')"
          "reads g ps False (rk_drop ?p key) c (lookup ps c (rk_drop ?p key)) c'"
        using 1(1) [OF refl refl get(3) re(1) False 1(2), of False] tree_ok_child [OF 1(3) Some] 1(4) re(4) by auto
      have v: "enter ps c key = nvalue (info c) @ lookup ps c (rk_drop ?p key)" using False p by (simp add: enter_def Let_def)
      have len: "length (nvalue (info c)) = ?p" "take ?p (token_ids key) = token_ids (nkey (info c))"
        using ro(7) re(5,6) p x by (simp_all add: touch_def with_info_def rk_len_def)
      have "reads g ps r key ?n (enter ps c key) (Node ?i (od_set ?ck c' (children ?n)))"
        by (rule reads_unsplit [OF 1(2-4) Some same _ c'(2)]) (use False in simp)
      then show ?thesis using get re(1) False c'(1) len
        by (simp add: Let_def lk v take_add add.commute [of _ ?p])
    qed
  qed
qed

end

end
