(* ===== verification/RadixLocks.thy ===== *)
theory RadixLocks
  imports RadixOps
begin

section \<open>Locks and eviction\<close>

text \<open>
  Locking a node adds one to \<open>held\<close> at that node and to nothing else, and moves the newly locked keys from
  the evictable to the protected size. Eviction is a sequence of steps, each of which removes an
  unlocked leaf of least priority; it leaves what is held as it is.
\<close>

subsection \<open>Locks\<close>

definition unlocked_len :: "radix_key \<Rightarrow> int list \<Rightarrow> int \<Rightarrow> int" where
  "unlocked_len k v l = (if l = 0 then int (rk_len k) else 0)"

definition locked_len :: "radix_key \<Rightarrow> int list \<Rightarrow> int \<Rightarrow> int" where
  "locked_len k v l = (if l = 0 then 0 else int (rk_len k))"

definition slots_of :: "radix_key \<Rightarrow> int list \<Rightarrow> int \<Rightarrow> int multiset" where
  "slots_of k v l = mset v"

lemma rk_len_take [simp]: "rk_len (rk_take n k) = min n (rk_len k)"
  by (simp add: rk_take_def rk_len_def)

interpretation unlocked: node_measure unlocked_len
  by unfold_locales (simp add: unlocked_len_def)

interpretation locked: node_measure locked_len
  by unfold_locales (simp add: locked_len_def)

interpretation slots: node_measure slots_of
  by unfold_locales (simp add: slots_of_def flip: mset_append)

definition bump :: "int \<Rightarrow> node \<Rightarrow> node" where
  "bump d n = with_info (\<lambda>i. i\<lparr>lock_ref := lock_ref i + d\<rparr>) n"

lemma bump_simps [simp]:
  "children (bump d n) = children n" "nkey (info (bump d n)) = nkey (info n)" "nvalue (info (bump d n)) = nvalue (info n)"
  "lock_ref (info (bump d n)) = lock_ref (info n) + d" "direct (bump d n) = direct n + d"
  by (simp_all add: bump_def with_info_def direct_def)

lemma member_le_sum_int: "(\<And>x. x \<in> set xs \<Longrightarrow> 0 \<le> x) \<Longrightarrow> y \<in> set xs \<Longrightarrow> y \<le> sum_list (xs :: int list)"
  by (induction xs) (auto simp: sum_list_nonneg add_increasing)

lemma kid_le_locks:
  assumes "tree_ok ps r n" "od_get (children n) k = Some c"
  shows "lock_ref (info c) \<le> kid_locks (children n)"
proof -
  have "0 \<le> lock_ref (info (snd p))" if "p \<in> set (children n)" for p
    using assms(1) that by (cases n) (auto simp: tree_ok.simps kid_ok_def info_ok_def)
  moreover have "(k, c) \<in> set (children n)" using assms(2) by (rule map_of_SomeD)
  ultimately show ?thesis unfolding kid_locks_def by (intro member_le_sum_int) force+
qed

lemma locks_down:
  assumes "tree_ok ps False n" "node_at ps n q = Some m"
  shows "lock_ref (info m) \<le> lock_ref (info n) \<and> direct m \<le> lock_ref (info m)"
  using assms
proof (induction ps n q rule: node_at.induct)
  case (1 ps n q)
  show ?case
  proof (cases "token_ids q = []")
    case True
    then have m: "m = n" using 1(3) by (simp add: node_at_in)
    have "0 \<le> lock_ref (info (snd p))" if "p \<in> set (children n)" for p
      using 1(2) that by (cases n) (auto simp: tree_ok.simps kid_ok_def info_ok_def)
    then have "0 \<le> kid_locks (children n)" unfolding kid_locks_def by (intro sum_list_nonneg) auto
    then show ?thesis by (simp add: m direct_def)
  next
    case False
    then obtain c where c: "find_child ps n q = Some c" "at_in ps c q = Some m" using 1(3) by (auto simp: node_at_in bind_eq_Some_conv)
    note ch = tree_ok_child [OF 1(2) c(1)]
    have "lock_ref (info c) \<le> lock_ref (info n)"
      using kid_le_locks [OF 1(2)] ch 1(2) tree_ok_iff [of ps False n] by (fastforce simp: direct_def)
    then show ?thesis using 1(1) [OF False c(1)] c(2) ch by (fastforce simp: at_in_def split: if_splits)
  qed
qed

definition lock_delta :: "int \<Rightarrow> node_info \<Rightarrow> int" where
  "lock_delta d i = (if d = 1 then if lock_ref i = 0 then - int (rk_len (nkey i)) else 0
     else if lock_ref i = 1 then int (rk_len (nkey i)) else 0)"

lemma lock_path_eq:
  "lock_path ps d n path =
     (case find_child ps n path of
        None \<Rightarrow> (0, n)
      | Some c \<Rightarrow>
          let (delta, c') = lock_path ps d c (rk_drop (rk_len (nkey (info c))) path)
          in (lock_delta d (info c) + delta,
              Node (info n) (od_set (get_child_key ps path) (with_info (\<lambda>j. j\<lparr>lock_ref := lock_ref (info c) + d\<rparr>) c') (children n))))"
  by (cases n) (auto simp: find_child_def lock_delta_def Let_def split: option.splits prod.splits)

text \<open>The contract; \<open>bump d\<close> is what the caller still does to the node itself.\<close>

definition relocks :: "nat \<Rightarrow> bool \<Rightarrow> int \<Rightarrow> radix_key \<Rightarrow> node \<Rightarrow> int \<Rightarrow> node \<Rightarrow> bool" where
  "relocks ps r d path n delta n' \<longleftrightarrow>
     info n' = info n \<and> tree_ok ps r (bump d n') \<and> (\<forall>q. lookup ps n' q = lookup ps n q)
     \<and> (\<forall>q. node_at ps n' q = None \<longleftrightarrow> node_at ps n q = None)
     \<and> (\<forall>q. extra_key q = extra_key path \<longrightarrow> held ps (bump d n') q = held ps n q + (if token_ids q = token_ids path then d else 0))
     \<and> (\<forall>q. extra_key q \<noteq> extra_key path \<longrightarrow> token_ids q \<noteq> [] \<longrightarrow> held ps n' q = held ps n q)
     \<and> tree_sum unlocked_len n' = tree_sum unlocked_len n + delta \<and> tree_sum locked_len n' = tree_sum locked_len n - delta
     \<and> tree_sum slots_of n' = tree_sum slots_of n"

lemma tree_sum_bump:
  "tree_sum g (bump d n) + meas g (info n) = tree_sum g n + meas g (info (bump d n))"
  by (cases n) (simp add: bump_def with_info_def ac_simps)

lemma relocks_here:
  assumes "tree_ok ps r n" "token_ids path = []" "r \<or> 0 \<le> direct n + d"
  shows "relocks ps r d path n 0 n"
proof -
  have "tree_ok ps r (bump d n)" using assms unfolding tree_ok_iff [of ps r n] tree_ok_iff [of ps r "bump d n"] by (simp add: kid_ok_def)
  moreover have "held ps (bump d n) q = held ps n q + (if token_ids q = [] then d else 0)" for q
    by (cases "token_ids q = []") (simp_all add: held_here held_held_in find_child_def)
  ultimately show ?thesis using assms(2) by (simp add: relocks_def)
qed

lemma node_at_kids: "children n = children n' \<Longrightarrow> node_at ps n q = None \<longleftrightarrow> node_at ps n' q = None"
  by (simp add: node_at_in find_child_def)

lemma take_drop_eq: "take n xs = take n ys \<Longrightarrow> xs = ys \<longleftrightarrow> drop n xs = drop n ys"
  by (metis append_take_drop_id)

lemma relocks_below:
  assumes n: "tree_ok ps r n" "find_child ps n path = Some c" "take (rk_len (nkey (info c))) (token_ids path) = token_ids (nkey (info c))"
    and d: "d = 1 \<or> d = - 1" "0 \<le> lock_ref (info c) + d"
    and c': "relocks ps False d (rk_drop (rk_len (nkey (info c))) path) c delta c'"
  shows "relocks ps r d path n (lock_delta d (info c) + delta) (Node (info n) (od_set (get_child_key ps path) (bump d c') (children n)))"
    (is "relocks _ _ _ _ _ _ ?n")
proof -
  let ?ck = "get_child_key ps path" and ?x = "bump d c'" and ?l = "rk_len (nkey (info c))"
  note ch = tree_ok_child [OF n(1,2)] and re = c' [unfolded relocks_def]
  have i: "info c' = info c" using re by simp
  have path: "token_ids path \<noteq> []" using n(2) by (simp add: find_child_def split: if_splits)
  have dist: "distinct (od_keys (children n))" using n(1) by (simp add: tree_ok_iff [of ps r])
  have fc: "find_child ps ?n q = (if token_ids q \<noteq> [] \<and> get_child_key ps q = ?ck then Some ?x else find_child ps n q)"
    "find_child ps (bump d ?n) q = (if token_ids q \<noteq> [] \<and> get_child_key ps q = ?ck then Some ?x else find_child ps n q)" for q
    by (simp_all add: find_child_def od_simps)
  have old: "find_child ps n q = Some c" if "token_ids q \<noteq> []" "get_child_key ps q = ?ck" for q
    using that ch by (simp add: find_child_def)
  have kids: "children (bump d ?n) = children ?n" "children ?x = children c'" by simp_all
  have dir: "direct (bump d ?n) = direct n" using kid_locks_set [OF dist, of ?ck ?x] ch i by (simp add: direct_def)
  have "kid_ok ps r (info n) ?ck (info ?x)" using ch d(2) by (simp add: kid_ok_def info_ok_def i)
  moreover have "tree_ok ps False ?x" using re by simp
  ultimately have ok: "tree_ok ps r (bump d ?n)"
    using n(1) dir unfolding tree_ok_iff [of ps r n] tree_ok_iff [of ps r "bump d ?n"]
    by (auto simp: od_simps kid_ok_def simp del: split_paired_All)
  have "enter ps ?x q = enter ps c q" for q
    using re lookup_cong [OF kids(2)] by (simp add: enter_def Let_def i)
  then have "lookup ps ?n q = lookup ps n q" for q using old [of q] by (auto simp: lookup_enter fc)
  moreover have "node_at ps ?n q = None \<longleftrightarrow> node_at ps n q = None" for q
  proof -
    have "at_in ps ?x q = None \<longleftrightarrow> at_in ps c q = None" using re node_at_kids [OF kids(2)] by (simp add: at_in_def i)
    then show ?thesis using old [of q] by (cases "token_ids q = []") (auto simp: node_at_in fc)
  qed
  moreover have "held ps (bump d ?n) q = held ps n q + (if token_ids q = token_ids path then d else 0)" if q: "extra_key q = extra_key path" for q
  proof (cases "token_ids q \<noteq> [] \<and> get_child_key ps q = ?ck")
    case True
    have "token_ids q = token_ids path \<longleftrightarrow> take ?l (token_ids q) = token_ids (nkey (info c)) \<and> drop ?l (token_ids q) = drop ?l (token_ids path)"
      using n(3) take_drop_eq [of ?l "token_ids q" "token_ids path"] by auto
    then have "held_in ps ?x q = held_in ps c q + (if token_ids q = token_ids path then d else 0)"
      using re q by (simp add: held_in_held i)
    then show ?thesis using True old [of q] by (simp add: held_held_in fc)
  next
    case False
    then have "token_ids q \<noteq> token_ids path" using path q by (auto simp: get_child_key_def)
    then show ?thesis using False dir by (cases "token_ids q = []") (auto simp: held_here held_held_in fc)
  qed
  moreover have "held ps ?n q = held ps n q" if "extra_key q \<noteq> extra_key path" "token_ids q \<noteq> []" for q
  proof -
    have "get_child_key ps q \<noteq> ?ck" using that(1) by (simp add: get_child_key_def)
    then show ?thesis using that(2) by (simp add: held_held_in fc)
  qed
  moreover have sum: "tree_sum g ?n + tree_sum g c + meas g (info c) = tree_sum g n + tree_sum g c' + meas g (info ?x)"
    for g :: "radix_key \<Rightarrow> int list \<Rightarrow> int \<Rightarrow> 'a::cancel_comm_monoid_add"
    using tree_sum_set [OF dist, of g "info n" ?ck ?x] ch tree_sum_bump [of g d c'] by (simp add: i ac_simps)
  moreover have "meas unlocked_len (info ?x) = meas unlocked_len (info c) + lock_delta d (info c)"
    "meas locked_len (info ?x) = meas locked_len (info c) - lock_delta d (info c)" "meas slots_of (info ?x) = meas slots_of (info c)"
    using d ch by (auto simp: meas_def unlocked_len_def locked_len_def slots_of_def lock_delta_def i kid_ok_def info_ok_def)
  ultimately show ?thesis using ok re sum [of unlocked_len] sum [of locked_len] sum [of slots_of] unfolding relocks_def
    by simp
qed

theorem lock_path_ok:
  assumes "tree_ok ps r n" "node_at ps n path \<noteq> None" "d = 1 \<or> d = - 1" "d = - 1 \<Longrightarrow> r \<and> token_ids path = [] \<or> 0 < held ps n path"
  shows "case lock_path ps d n path of (delta, n') \<Rightarrow> relocks ps r d path n delta n'"
  using assms
proof (induction ps n path arbitrary: r rule: node_at.induct)
  case (1 ps n path)
  show ?case
  proof (cases "token_ids path = []")
    case True
    then have "r \<or> 0 \<le> direct n + d" using 1(2,4,5) by (auto simp: tree_ok_iff [of ps r n] held_here)
    moreover have "lock_path ps d n path = (0, n)" using True by (simp add: lock_path_eq [of ps d n] find_child_def)
    ultimately show ?thesis using relocks_here [OF 1(2) True] by simp
  next
    case False
    then obtain c where c: "find_child ps n path = Some c" "at_in ps c path \<noteq> None"
      using 1(3) by (auto simp: node_at_in bind_eq_None_conv)
    let ?l = "rk_len (nkey (info c))"
    have at: "take ?l (token_ids path) = token_ids (nkey (info c))" "node_at ps c (rk_drop ?l path) \<noteq> None"
      using c(2) by (auto simp: at_in_def split: if_splits)
    note ch = tree_ok_child [OF 1(2) c(1)]
    have held: "held ps n path = held ps c (rk_drop ?l path)" using False c(1) at(1) by (simp add: held_held_in held_in_held)
    have lock: "0 \<le> lock_ref (info c) + d"
    proof (cases "d = 1")
      case True
      then show ?thesis using ch by (simp add: kid_ok_def info_ok_def)
    next
      case d: False
      obtain m where m: "node_at ps c (rk_drop ?l path) = Some m" using at(2) by blast
      have "0 < held ps n path" using 1(4,5) d False by auto
      then have "0 < direct m" unfolding held by (simp add: held_def m)
      then show ?thesis using locks_down [of ps c _ m] m ch d 1(4) by fastforce
    qed
    obtain delta c' where c': "lock_path ps d c (rk_drop ?l path) = (delta, c')" by fastforce
    have "relocks ps False d (rk_drop ?l path) c delta c'"
      using 1(1) [OF False c(1) at(1), of False] ch at(2) 1(4,5) held False c' by auto
    moreover from this have "with_info (\<lambda>j. j\<lparr>lock_ref := lock_ref (info c) + d\<rparr>) c' = bump d c'"
      by (simp add: relocks_def bump_def with_info_def)
    ultimately show ?thesis using relocks_below [OF 1(2) c(1) at(1) 1(4) lock] c(1) c' by (simp add: lock_path_eq [of ps d n])
  qed
qed


subsection \<open>Removing a leaf\<close>

definition mset_option :: "'a option \<Rightarrow> 'a multiset" where
  "mset_option x = (case x of None \<Rightarrow> {#} | Some y \<Rightarrow> {#y#})"

lemma leaves_in:
  assumes "0 < ps" "tree_ok ps r n" "(ref, j) \<in> set (leaves_below pre n)"
  shows "\<exists>q m. token_ids ref = pre @ token_ids (nkey (info n)) @ token_ids q \<and> extra_key q = extra_key ref \<and> node_at ps n q = Some m
    \<and> info m = j \<and> children m = [] \<and> lock_ref j = 0 \<and> ref = (nkey j)\<lparr>token_ids := token_ids ref\<rparr> \<and> (r \<or> extra_key ref = extra_key (nkey (info n)))"
  using assms
proof (induction pre n arbitrary: r rule: leaves_below.induct)
  case (1 pre i cs)
  show ?case
  proof (cases "cs = []")
    case True
    then have "ref = (nkey i)\<lparr>token_ids := pre @ token_ids (nkey i)\<rparr>" "j = i" "lock_ref i = 0"
      using 1(4) by (auto split: if_splits)
    then show ?thesis using True by (intro exI [of _ "\<lparr>token_ids = [], extra_key = extra_key ref\<rparr>"] exI [of _ "Node i cs"]) (simp add: node_at_in)
  next
    case False
    then obtain k c where kc: "(k, c) \<in> set cs" "(ref, j) \<in> set (leaves_below (pre @ token_ids (nkey i)) c)" using 1(4) by auto
    have get: "od_get cs k = Some c" using 1(3) kc(1) by (simp add: tree_ok.simps)
    then have ok: "kid_ok ps r i k (info c)" "tree_ok ps False c" using 1(3) by (simp_all add: tree_ok_iff [of ps r] del: split_paired_All)
    obtain q m where q: "token_ids ref = (pre @ token_ids (nkey i)) @ token_ids (nkey (info c)) @ token_ids q" "extra_key q = extra_key ref"
        "node_at ps c q = Some m" "info m = j" "children m = []" "lock_ref j = 0" "ref = (nkey j)\<lparr>token_ids := token_ids ref\<rparr>"
        "extra_key ref = extra_key (nkey (info c))"
      using 1(1) [OF refl False kc(1) 1(2), of False] ok(2) kc(2) by auto
    let ?q = "q\<lparr>token_ids := token_ids (nkey (info c)) @ token_ids q\<rparr>"
    have "ps \<le> length (token_ids (nkey (info c)))" "token_ids (nkey (info c)) \<noteq> []" "k = get_child_key ps (nkey (info c))"
      using ok(1) by (auto simp: kid_ok_def info_ok_def rk_len_def dvd_imp_le)
    then have "find_child ps (Node i cs) ?q = Some c" using get q(2,8) by (simp add: find_child_def get_child_key_def)
    moreover have "at_in ps c ?q = Some m" using q(3) by (simp add: at_in_def rk_drop_def rk_len_def)
    ultimately have "node_at ps (Node i cs) ?q = Some m" using \<open>token_ids (nkey (info c)) \<noteq> []\<close> by (simp add: node_at_in)
    then show ?thesis using q ok(1) by (intro exI [of _ ?q] exI [of _ m]) (auto simp: kid_ok_def)
  qed
qed

text \<open>The contract of a removal; \<open>par\<close> is the parent when it has become an unlocked leaf.\<close>

definition removes ::
  "(radix_key \<Rightarrow> int list \<Rightarrow> int \<Rightarrow> 'a::cancel_comm_monoid_add) \<Rightarrow> nat \<Rightarrow> bool \<Rightarrow> int list \<Rightarrow> radix_key \<Rightarrow> node_info \<Rightarrow>
   (radix_key \<times> node_info) option \<Rightarrow> node \<Rightarrow> node \<Rightarrow> bool" where
  "removes g ps r pre q j par n n' \<longleftrightarrow>
     info n' = info n \<and> tree_ok ps r n' \<and> (\<forall>q. held ps n' q = held ps n q)
     \<and> (\<forall>q. \<exists>rest. lookup ps n q = lookup ps n' q @ rest)
     \<and> (\<forall>q m. node_at ps n q = Some m \<longrightarrow> 0 < lock_ref (info m) \<longrightarrow> lookup ps n' q = lookup ps n q)
     \<and> tree_sum g n' + meas g j = tree_sum g n
     \<and> mset (leaves_below pre n') + {#((nkey j)\<lparr>token_ids := pre @ token_ids (nkey (info n)) @ token_ids q\<rparr>, j)#}
         = mset (leaves_below pre n) + mset_option par"

lemma mset_leaves:
  "mset (leaves_below pre (Node i cs)) =
     (if cs = [] then if lock_ref i = 0 then {#((nkey i)\<lparr>token_ids := pre @ token_ids (nkey i)\<rparr>, i)#} else {#}
      else sum_list (map (\<lambda>p. mset (leaves_below (pre @ token_ids (nkey i)) (snd p))) cs))"
  by (simp add: Let_def mset_concat comp_def)

lemma removes_here:
  assumes n: "tree_ok ps r n" "find_child ps n q = Some c" "children c = []" "lock_ref (info c) = 0" "token_ids q = token_ids (nkey (info c))"
  shows "removes g ps r pre q (info c)
    (if od_pop (get_child_key ps q) (children n) = [] \<and> lock_ref (info n) = 0 then Some ((nkey (info n))\<lparr>token_ids := pre @ token_ids (nkey (info n))\<rparr>, info n) else None)
    n (Node (info n) (od_pop (get_child_key ps q) (children n)))" (is "removes _ _ _ _ _ _ ?par _ ?n")
proof -
  let ?ck = "get_child_key ps q" and ?cs = "od_pop (get_child_key ps q) (children n)"
  note ch = tree_ok_child [OF n(1,2)]
  have dist: "distinct (od_keys (children n))" using n(1) by (simp add: tree_ok_iff [of ps r])
  have pop: "sum_list (map (\<lambda>p. f (snd p)) ?cs) + f c = sum_list (map (\<lambda>p. f (snd p)) (children n))"
    for f :: "node \<Rightarrow> 'b::comm_monoid_add" using od_sum_pop [OF dist, of ?ck c f] ch by simp
  have dir: "direct ?n = direct n" using pop [of "\<lambda>c. lock_ref (info c)"] n(4) by (simp add: direct_def kid_locks_def)
  have fc: "find_child ps ?n x = (if get_child_key ps x = ?ck then None else find_child ps n x)" for x
    by (simp add: find_child_def od_simps)
  have old: "find_child ps n x = Some c" if "get_child_key ps x = ?ck" "token_ids x \<noteq> []" for x using that ch by (simp add: find_child_def)
  have leaf: "node_at ps c x = (if token_ids x = [] then Some c else None)" "held ps c x = 0" for x
    using n(3,4) by (simp_all add: node_at_in find_child_def held_def direct_def kid_locks_def)
  have "tree_ok ps r ?n"
    using n(1) dir unfolding tree_ok_iff [of ps r n] tree_ok_iff [of ps r ?n] by (auto simp: od_simps simp del: split_paired_All)
  moreover have "held ps ?n x = held ps n x" for x
    using dir old [of x] leaf(2) by (cases "token_ids x = []") (auto simp: held_here held_held_in fc held_in_held)
  moreover have "\<exists>rest. lookup ps n x = lookup ps ?n x @ rest" for x by (auto simp: lookup_enter fc)
  moreover have "lookup ps ?n x = lookup ps n x" if "node_at ps n x = Some m" "0 < lock_ref (info m)" for x m
  proof (cases "token_ids x \<noteq> [] \<and> get_child_key ps x = ?ck")
    case True
    then have "at_in ps c x = Some m" using that(1) old [of x] by (simp add: node_at_in)
    then show ?thesis using leaf(1) that(2) n(4) by (auto simp: at_in_def split: if_splits)
  next
    case False
    then show ?thesis by (auto simp: lookup_enter fc find_child_def od_simps)
  qed
  moreover have "tree_sum g ?n + meas g (info c) = tree_sum g n"
    using pop [of "tree_sum g"] n(3) by (cases n; cases c) (simp add: add.assoc)
  moreover have "mset (leaves_below pre ?n) + {#((nkey (info c))\<lparr>token_ids := pre @ token_ids (nkey (info n)) @ token_ids q\<rparr>, info c)#}
      = mset (leaves_below pre n) + mset_option ?par"
  proof -
    have "mset (leaves_below (pre @ token_ids (nkey (info n))) c) = {#((nkey (info c))\<lparr>token_ids := pre @ token_ids (nkey (info n)) @ token_ids q\<rparr>, info c)#}"
      using n(3-5) by (cases c) (simp add: mset_leaves)
    moreover have "children n \<noteq> []" using ch by auto
    ultimately show ?thesis using pop [of "\<lambda>c. mset (leaves_below (pre @ token_ids (nkey (info n))) c)"]
      by (cases n) (auto simp: mset_leaves mset_option_def simp del: leaves_below.simps)
  qed
  ultimately show ?thesis by (simp add: removes_def)
qed

lemma swap_sum':
  fixes s :: "'a::cancel_comm_monoid_add"
  assumes "s' + c = s + c'" "c' + x = c + y"
  shows "s' + x = s + y"
proof -
  have "(s' + x) + c = (s' + c) + x" by (simp only: ac_simps)
  also have "\<dots> = s + (c' + x)" by (simp only: assms(1) add.assoc)
  also have "\<dots> = (s + y) + c" unfolding assms(2) by (simp only: ac_simps)
  finally show ?thesis by (rule add_right_imp_eq)
qed

lemma swap_sum: "s' + c = s + c' \<Longrightarrow> c' + x = c \<Longrightarrow> s' + x = (s :: 'a::cancel_comm_monoid_add)"
  using swap_sum' [of s' c s c' x 0] by simp

lemma removes_below:
  assumes n: "tree_ok ps r n" "find_child ps n q = Some c" "take (rk_len (nkey (info c))) (token_ids q) = token_ids (nkey (info c))"
    and c': "removes g ps False (pre @ token_ids (nkey (info n))) (rk_drop (rk_len (nkey (info c))) q) j par c c'"
  shows "removes g ps r pre q j par n (Node (info n) (od_set (get_child_key ps q) c' (children n)))" (is "removes _ _ _ _ _ _ _ _ ?n")
proof -
  let ?ck = "get_child_key ps q" and ?l = "rk_len (nkey (info c))"
  note ch = tree_ok_child [OF n(1,2)] and re = c' [unfolded removes_def]
  have i: "info c' = info c" using re by simp
  have dist: "distinct (od_keys (children n))" using n(1) by (simp add: tree_ok_iff [of ps r])
  have sum: "sum_list (map (\<lambda>p. f (snd p)) (od_set ?ck c' (children n))) + f c = sum_list (map (\<lambda>p. f (snd p)) (children n)) + f c'"
    for f :: "node \<Rightarrow> 'b::comm_monoid_add" using od_sum_set [OF dist, of f ?ck c'] ch by simp
  have fc: "find_child ps ?n x = (if token_ids x \<noteq> [] \<and> get_child_key ps x = ?ck then Some c' else find_child ps n x)" for x
    by (simp add: find_child_def od_simps)
  have old: "find_child ps n x = Some c" if "token_ids x \<noteq> []" "get_child_key ps x = ?ck" for x using that ch by (simp add: find_child_def)
  have "tree_ok ps r ?n" using ch re by (intro tree_ok_set [OF n(1)]) (simp_all add: i)
  moreover have "held ps ?n x = held ps n x" for x
  proof (cases "token_ids x = []")
    case True
    then show ?thesis using kid_locks_set [OF dist, of ?ck c'] ch by (simp add: held_here direct_def i)
  next
    case False
    have "held_in ps c' x = held_in ps c x" using re by (simp add: held_in_held i)
    then show ?thesis using False old [of x] by (auto simp: held_held_in fc)
  qed
  moreover have "\<exists>rest. lookup ps n x = lookup ps ?n x @ rest" for x
  proof -
    have "\<exists>rest. enter ps c x = enter ps c' x @ rest" using re by (simp add: enter_def Let_def i)
    then show ?thesis using old [of x] by (auto simp: lookup_enter fc)
  qed
  moreover have "lookup ps ?n x = lookup ps n x" if "node_at ps n x = Some m" "0 < lock_ref (info m)" for x m
  proof (cases "token_ids x \<noteq> [] \<and> get_child_key ps x = ?ck")
    case True
    then have "at_in ps c x = Some m" using that(1) old [of x] by (simp add: node_at_in)
    then have "lookup ps c' (rk_drop ?l x) = lookup ps c (rk_drop ?l x)" using re that(2) by (simp add: at_in_def split: if_splits)
    then show ?thesis using True old [of x] by (simp add: lookup_enter [of ps n] lookup_enter [of ps ?n] fc enter_def Let_def i)
  next
    case False
    then show ?thesis by (auto simp: lookup_enter fc)
  qed
  moreover have "tree_sum g ?n + meas g j = tree_sum g n"
  proof (rule swap_sum)
    show "tree_sum g ?n + tree_sum g c = tree_sum g n + tree_sum g c'"
      using tree_sum_set [OF dist, of g "info n" ?ck c'] ch by simp
    show "tree_sum g c' + meas g j = tree_sum g c" using re by blast
  qed
  moreover have "mset (leaves_below pre ?n) + {#((nkey j)\<lparr>token_ids := pre @ token_ids (nkey (info n)) @ token_ids q\<rparr>, j)#}
      = mset (leaves_below pre n) + mset_option par"
  proof -
    let ?f = "\<lambda>c. mset (leaves_below (pre @ token_ids (nkey (info n))) c)"
    have ne: "children n \<noteq> []" "od_set ?ck c' (children n) \<noteq> []" using ch by (auto simp: od_set_def)
    have q: "token_ids (nkey (info c)) @ drop ?l (token_ids q) = token_ids q" using n(3) by (metis append_take_drop_id)
    have eq: "mset (leaves_below pre ?n) = sum_list (map (\<lambda>p. ?f (snd p)) (od_set ?ck c' (children n)))"
      "mset (leaves_below pre n) = sum_list (map (\<lambda>p. ?f (snd p)) (children n))"
      using ne mset_leaves [of pre "info n" "children n"] mset_leaves [of pre "info n" "od_set ?ck c' (children n)"] by simp_all
    have "?f c' + {#((nkey j)\<lparr>token_ids := pre @ token_ids (nkey (info n)) @ token_ids q\<rparr>, j)#} = ?f c + mset_option par"
      using conjunct2 [OF conjunct2 [OF conjunct2 [OF conjunct2 [OF conjunct2 [OF conjunct2 [OF re]]]]]] by (simp add: q)
    then show ?thesis unfolding eq by (rule swap_sum' [OF sum [of ?f]])
  qed
  ultimately show ?thesis by (simp add: removes_def)
qed

theorem delete_leaf_ok:
  assumes "tree_ok ps r n" "node_at ps n q = Some m" "token_ids q \<noteq> []" "children m = []" "lock_ref (info m) = 0"
  shows "\<exists>par n'. delete_leaf ps (pre @ token_ids (nkey (info n))) n q = Some (info m, par, n') \<and> removes g ps r pre q (info m) par n n'"
  using assms
proof (induction ps n q arbitrary: r pre rule: node_at.induct)
  case (1 ps n q)
  obtain c where c: "find_child ps n q = Some c" "at_in ps c q = Some m" using 1(3,4) by (auto simp: node_at_in bind_eq_Some_conv)
  let ?l = "rk_len (nkey (info c))" and ?ck = "get_child_key ps q" and ?pre = "pre @ token_ids (nkey (info n))"
  have at: "take ?l (token_ids q) = token_ids (nkey (info c))" "node_at ps c (rk_drop ?l q) = Some m"
    using c(2) by (auto simp: at_in_def split: if_splits)
  have get: "od_get (children n) ?ck = Some c" using c(1) 1(4) by (simp add: find_child_def)
  show ?case
  proof (cases "rk_len q \<le> ?l")
    case True
    then have m: "c = m" "token_ids q = token_ids (nkey (info c))" using at by (simp_all add: node_at_in rk_len_def)
    then show ?thesis
      using removes_here [OF 1(2) c(1), of g pre] 1(5,6) True get by (cases n) (auto simp: Let_def rk_len_def split: if_splits)
  next
    case False
    then have "token_ids (rk_drop ?l q) \<noteq> []" by (simp add: rk_len_def)
    then obtain par c' where c': "delete_leaf ps (?pre @ token_ids (nkey (info c))) c (rk_drop ?l q) = Some (info m, par, c')"
        "removes g ps False ?pre (rk_drop ?l q) (info m) par c c'"
      using 1(1) [OF 1(4) c(1) at(1), of False ?pre] tree_ok_child [OF 1(2) c(1)] at(2) 1(5,6) by auto
    show ?thesis using removes_below [OF 1(2) c(1) at(1) c'(2)] c'(1) False get by (cases n) (simp add: Let_def)
  qed
qed

text \<open>With no unlocked leaf left every node is locked.\<close>

lemma no_leaf_locked:
  assumes "tree_ok ps r n" "leaves_below pre n = []" "r \<longrightarrow> lock_ref (info n) \<noteq> 0"
  shows "tree_sum unlocked_len n = 0 \<and> lock_ref (info n) \<noteq> 0"
  using assms
proof (induction pre n arbitrary: r rule: leaves_below.induct)
  case (1 pre i cs)
  have kids: "tree_sum unlocked_len (snd p) = 0 \<and> 0 < lock_ref (info (snd p))" if p: "p \<in> set cs" for p
  proof -
    have "cs \<noteq> []" using p by auto
    moreover have "tree_ok ps False (snd p)" "0 \<le> lock_ref (info (snd p))"
      using 1(2) p by (auto simp: tree_ok.simps [of ps r] kid_ok_def info_ok_def)
    ultimately show ?thesis using 1(1) [OF refl _ p, of False] 1(3) p by fastforce
  qed
  have "lock_ref i \<noteq> 0"
  proof (cases cs)
    case (Cons p cs')
    then have "lock_ref (info (snd p)) \<le> kid_locks cs"
      unfolding kid_locks_def
    proof (intro member_le_sum_int)
      fix x assume "x \<in> set (map (\<lambda>p. lock_ref (info (snd p))) cs)"
      then obtain p where "p \<in> set cs" "x = lock_ref (info (snd p))" by auto
      then show "0 \<le> x" using kids [of p] by simp
    qed simp
    then show ?thesis using kids [of p] 1(2,4) Cons by (auto simp: tree_ok.simps [of ps r])
  qed (use 1(3) in \<open>auto split: if_splits\<close>)
  moreover have "sum_list (map (\<lambda>p. tree_sum unlocked_len (snd p)) cs) = 0"
    using kids by (metis (no_types, lifting) map_eq_conv sum_list_0)
  moreover have "meas unlocked_len i = 0" if "lock_ref i \<noteq> 0" using that by (simp add: meas_def unlocked_len_def)
  ultimately show ?case by simp
qed


subsection \<open>Eviction as steps\<close>

definition root_ok :: "nat \<Rightarrow> node \<Rightarrow> bool" where
  "root_ok ps n \<longleftrightarrow> 0 < ps \<and> tree_ok ps True n \<and> token_ids (nkey (info n)) = [] \<and> nvalue (info n) = [] \<and> lock_ref (info n) = 1"

text \<open>The order of the heap's tuples, and what is known of \<open>heappop\<close>.\<close>

definition heap_le :: "heap_key \<Rightarrow> heap_key \<Rightarrow> bool" where
  "heap_le k k' \<longleftrightarrow> fst (fst k) < fst (fst k')
     \<or> fst (fst k) = fst (fst k') \<and> (snd (fst k) < snd (fst k') \<or> snd (fst k) = snd (fst k') \<and> snd k \<le> snd k')"

definition pick_ok :: "(heap_key list \<Rightarrow> nat) \<Rightarrow> bool" where
  "pick_ok pick \<longleftrightarrow> (\<forall>ks. ks \<noteq> [] \<longrightarrow> pick ks < length ks \<and> (\<forall>k \<in> set ks. heap_le (ks ! pick ks) k))"

fun first_least :: "heap_key list \<Rightarrow> nat" where
  "first_least [] = 0"
| "first_least (k # ks) = (if ks = [] \<or> heap_le k (ks ! first_least ks) then 0 else Suc (first_least ks))"

lemma heap_le_order: "heap_le k k" "heap_le k k' \<or> heap_le k' k" "heap_le k k' \<Longrightarrow> heap_le k' k'' \<Longrightarrow> heap_le k k''"
  by (auto simp: heap_le_def)

lemma first_least_ok: "pick_ok first_least"
proof -
  have "first_least ks < length ks \<and> (\<forall>k \<in> set ks. heap_le (ks ! first_least ks) k)" if "ks \<noteq> []" for ks
    using that
  proof (induction ks)
    case (Cons k ks)
    show ?case
    proof (cases "ks = [] \<or> heap_le k (ks ! first_least ks)")
      case True
      then show ?thesis using Cons.IH heap_le_order(1) heap_le_order(3) [of k "ks ! first_least ks"] by (cases "ks = []") auto
    next
      case False
      then show ?thesis using Cons.IH heap_le_order(2) [of k "ks ! first_least ks"] by auto
    qed
  qed simp
  then show ?thesis by (simp add: pick_ok_def)
qed

definition evict_step :: "nat \<Rightarrow> policy \<Rightarrow> node \<Rightarrow> node_info \<Rightarrow> node \<Rightarrow> bool" where
  "evict_step ps pol root x root' \<longleftrightarrow>
     (\<exists>ref par. (ref, x) \<in> set (collect_leaves root) \<and> delete_leaf ps [] root ref = Some (x, par, root')
        \<and> (\<forall>y \<in> set (collect_leaves root). heap_le (fst (heap_entry pol (ref, x))) (fst (heap_entry pol y))))"

inductive evict_steps :: "nat \<Rightarrow> policy \<Rightarrow> node \<Rightarrow> node_info list \<Rightarrow> node \<Rightarrow> bool" for ps pol where
  evicted_none: "evict_steps ps pol root [] root"
| evicted_more: "evict_step ps pol root x root1 \<Longrightarrow> evict_steps ps pol root1 xs root2 \<Longrightarrow> evict_steps ps pol root (x # xs) root2"

lemma collect_leaves_eq: "root_ok ps n \<Longrightarrow> collect_leaves n = leaves_below [] n"
  by (cases n) (auto simp: root_ok_def collect_leaves_def Let_def)

lemma node_info_ok:
  assumes "tree_ok ps r n" "node_at ps n q = Some m" "token_ids q \<noteq> []"
  shows "info_ok ps (info m)"
  using assms
proof (induction ps n q arbitrary: r rule: node_at.induct)
  case (1 ps n q)
  then obtain c where c: "find_child ps n q = Some c" "at_in ps c q = Some m" by (auto simp: node_at_in bind_eq_Some_conv)
  note ch = tree_ok_child [OF 1(2) c(1)]
  have at: "take (rk_len (nkey (info c))) (token_ids q) = token_ids (nkey (info c))" "node_at ps c (rk_drop (rk_len (nkey (info c))) q) = Some m"
    using c(2) by (auto simp: at_in_def split: if_splits)
  show ?case
  proof (cases "token_ids (rk_drop (rk_len (nkey (info c))) q) = []")
    case True
    then show ?thesis using at(2) ch by (simp add: node_at_in kid_ok_def)
  next
    case False
    then show ?thesis using 1(1) [OF 1(4) c(1) at(1) _ at(2), of False] ch by simp
  qed
qed

lemma leaf_deleted:
  assumes "root_ok ps n" "(ref, x) \<in> set (collect_leaves n)"
  shows "\<exists>par n'. delete_leaf ps [] n ref = Some (x, par, n') \<and> removes g ps True [] ref x par n n' \<and> root_ok ps n'
    \<and> ref = (nkey x)\<lparr>token_ids := token_ids ref\<rparr> \<and> lock_ref x = 0 \<and> info_ok ps x"
proof -
  note r = assms(1) [unfolded root_ok_def]
  obtain q m where q: "token_ids ref = token_ids q" "extra_key q = extra_key ref" "node_at ps n q = Some m" "info m = x" "children m = []"
      "lock_ref x = 0" "ref = (nkey x)\<lparr>token_ids := token_ids ref\<rparr>"
    using leaves_in [of ps True n ref x "[]"] r assms(2) collect_leaves_eq [OF assms(1)] by auto
  have ref: "ref = q" using q(1,2) by (simp add: radix_key.equality)
  have ne: "token_ids q \<noteq> []" using q(3,4,6) r by (auto simp: node_at_in split: if_splits)
  then have "info_ok ps x" using node_info_ok [OF _ q(3), of True] q(4) r by simp
  with ne delete_leaf_ok [OF _ q(3) ne q(5), of True "[]" g] r q ref show ?thesis by (auto simp: root_ok_def removes_def)
qed

lemma step_removes:
  assumes "root_ok ps n" "evict_step ps pol n x n'"
  shows "root_ok ps n' \<and> (\<exists>ref par. removes g ps True [] ref x par n n') \<and> lock_ref x = 0 \<and> info_ok ps x"
proof -
  obtain ref par where e: "(ref, x) \<in> set (collect_leaves n)" "delete_leaf ps [] n ref = Some (x, par, n')"
    using assms(2) by (auto simp: evict_step_def)
  from leaf_deleted [OF assms(1) e(1), of g] e(2) show ?thesis by auto
qed

lemma held_locked:
  assumes "tree_ok ps True n" "token_ids q \<noteq> []" "0 < held ps n q"
  shows "\<exists>m. node_at ps n q = Some m \<and> 0 < lock_ref (info m)"
proof -
  obtain c where c: "find_child ps n q = Some c" "0 < held_in ps c q" using assms(2,3) by (auto simp: held_held_in split: option.splits)
  then obtain m where m: "at_in ps c q = Some m" "0 < direct m" by (auto simp: held_in_def split: option.splits)
  then have "direct m \<le> lock_ref (info m)"
    using locks_down [of ps c] tree_ok_child [OF assms(1) c(1)] by (auto simp: at_in_def split: if_splits)
  then show ?thesis using m c(1) assms(2) by (auto simp: node_at_in)
qed

text \<open>What a run of steps keeps.\<close>

lemma steps_keep:
  fixes g :: "radix_key \<Rightarrow> int list \<Rightarrow> int \<Rightarrow> 'a::cancel_comm_monoid_add"
  assumes "evict_steps ps pol n xs n'" "root_ok ps n"
  shows "root_ok ps n'" "held ps n' q = held ps n q" "tree_sum g n' + sum_list (map (meas g) xs) = tree_sum g n"
    and "token_ids q \<noteq> [] \<Longrightarrow> 0 < held ps n q \<Longrightarrow> lookup ps n' q = lookup ps n q" "\<exists>rest. lookup ps n q = lookup ps n' q @ rest"
proof -
  have "root_ok ps n' \<and> held ps n' q = held ps n q \<and> tree_sum g n' + sum_list (map (meas g) xs) = tree_sum g n
    \<and> (token_ids q \<noteq> [] \<longrightarrow> 0 < held ps n q \<longrightarrow> lookup ps n' q = lookup ps n q) \<and> (\<exists>rest. lookup ps n q = lookup ps n' q @ rest)"
    using assms
  proof (induction rule: evict_steps.induct)
    case (evicted_more n x n1 xs n2)
    obtain ref par where r: "root_ok ps n1" "removes g ps True [] ref x par n n1" using step_removes [OF evicted_more(4,1)] by blast
    note re = r(2) [unfolded removes_def]
    have IH: "root_ok ps n2" "held ps n2 q = held ps n1 q" "tree_sum g n2 + sum_list (map (meas g) xs) = tree_sum g n1"
      "token_ids q \<noteq> [] \<longrightarrow> 0 < held ps n1 q \<longrightarrow> lookup ps n2 q = lookup ps n1 q" "\<exists>rest. lookup ps n1 q = lookup ps n2 q @ rest"
      using evicted_more.IH [OF r(1)] by blast+
    have "tree_sum g n2 + sum_list (map (meas g) (x # xs)) = tree_sum g n" using IH(3) re by (simp add: ac_simps)
    moreover have "\<exists>rest. lookup ps n q = lookup ps n2 q @ rest" using IH(5) re by (metis append_assoc)
    moreover have "lookup ps n1 q = lookup ps n q" if "token_ids q \<noteq> []" "0 < held ps n q"
      using held_locked [of ps n q] that evicted_more(4) re by (auto simp: root_ok_def)
    ultimately show ?case using IH re by auto
  qed simp
  then show "root_ok ps n'" "held ps n' q = held ps n q" "tree_sum g n' + sum_list (map (meas g) xs) = tree_sum g n"
    "token_ids q \<noteq> [] \<Longrightarrow> 0 < held ps n q \<Longrightarrow> lookup ps n' q = lookup ps n q" "\<exists>rest. lookup ps n q = lookup ps n' q @ rest"
    by blast+
qed

lemma steps_evict:
  assumes "evict_steps ps pol n xs n'" "root_ok ps n" "x \<in> set xs"
  shows "lock_ref x = 0 \<and> info_ok ps x"
  using assms
proof (induction rule: evict_steps.induct)
  case (evicted_more n y n1 xs n2)
  then show ?case using step_removes [of ps n pol y n1 slots_of] by auto
qed simp

lemma mset_pick: "j < length xs \<Longrightarrow> mset (take j xs @ drop (Suc j) xs) + {#xs ! j#} = mset xs"
  using arg_cong [OF id_take_nth_drop [of j xs], of mset] by simp

text \<open>The heap holds exactly the unlocked leaves, so the loop removes one at every turn.\<close>

lemma pick_step:
  assumes n: "root_ok ps n" and pick: "pick_ok pick" and heap: "mset heap = mset (map (heap_entry pol) (collect_leaves n))" "heap \<noteq> []"
  defines "j \<equiv> pick (map fst heap)"
  shows "\<exists>x par n'. delete_leaf ps [] n (snd (heap ! j)) = Some (x, par, n') \<and> evict_step ps pol n x n'
    \<and> mset ((take j heap @ drop (Suc j) heap) @ (case par of None \<Rightarrow> [] | Some p \<Rightarrow> [heap_entry pol p]))
        = mset (map (heap_entry pol) (collect_leaves n'))"
proof -
  have "map fst heap \<noteq> []" using heap(2) by simp
  note p = pick [unfolded pick_ok_def, THEN spec, THEN mp, OF this, folded j_def]
  have j: "j < length heap" using p by simp
  then have least: "\<forall>h \<in> set heap. heap_le (fst (heap ! j)) (fst h)" using p by simp
  have set: "set heap = heap_entry pol ` set (collect_leaves n)" using heap(1) by (metis list.set_map set_mset_mset)
  then obtain ref x where x: "heap ! j = heap_entry pol (ref, x)" "(ref, x) \<in> set (collect_leaves n)" using nth_mem [OF j] by auto
  have snd: "snd (heap ! j) = ref" using x(1) by (simp add: heap_entry_def)
  obtain par n' where d: "delete_leaf ps [] n ref = Some (x, par, n')" "removes slots_of ps True [] ref x par n n'" "root_ok ps n'"
      "ref = (nkey x)\<lparr>token_ids := token_ids ref\<rparr>"
    using leaf_deleted [OF n x(2), of slots_of] by blast
  have "evict_step ps pol n x n'"
    unfolding evict_step_def using x d(1) least by (intro exI [of _ ref] exI [of _ par]) (simp add: set)
  moreover have "mset (collect_leaves n') + {#(ref, x)#} = mset (collect_leaves n) + mset_option par"
    using d(2,4) n collect_leaves_eq [OF n] collect_leaves_eq [OF d(3)] by (simp add: removes_def root_ok_def)
  then have "image_mset (heap_entry pol) (mset (collect_leaves n') + {#(ref, x)#}) = image_mset (heap_entry pol) (mset (collect_leaves n) + mset_option par)"
    by simp
  then have "mset (map (heap_entry pol) (collect_leaves n')) + {#heap ! j#} = mset heap + mset (case par of None \<Rightarrow> [] | Some p \<Rightarrow> [heap_entry pol p])"
    using heap(1) x(1) by (simp add: mset_option_def split: option.splits)
  then have "mset (map (heap_entry pol) (collect_leaves n')) = mset (take j heap @ drop (Suc j) heap) + mset (case par of None \<Rightarrow> [] | Some p \<Rightarrow> [heap_entry pol p])"
    unfolding mset_pick [OF j, symmetric] by simp
  ultimately show ?thesis using d(1) snd by (intro exI [of _ x] exI [of _ par] exI [of _ n']) simp
qed

theorem evict_loop_ok:
  assumes "root_ok ps n" "pick_ok pick" "mset heap = mset (map (heap_entry pol) (collect_leaves n))"
  shows "\<exists>xs n'. evict_loop ps pol pick fr num heap ne kl n a
      = Some (Inr (ne + sum_list (map (\<lambda>x. length (nvalue x)) xs), kl + sum_list (map (\<lambda>x. rk_len (nkey x)) xs), n', fold (\<lambda>x. fr (nvalue x)) xs a))
    \<and> evict_steps ps pol n xs n' \<and> (num \<le> ne + sum_list (map (\<lambda>x. length (nvalue x)) xs) \<or> collect_leaves n' = [])"
  using assms(1,3)
proof (induction "tree_sum (\<lambda>_ _ _. 1 :: nat) n" arbitrary: n heap ne kl a rule: less_induct)
  case less
  show ?case
  proof (cases "ne < num \<and> heap \<noteq> []")
    case False
    then have "evict_loop ps pol pick fr num heap ne kl n a = Some (Inr (ne, kl, n, a))" by (subst evict_loop.simps) auto
    moreover have "num \<le> ne \<or> collect_leaves n = []" using False less(3) by auto
    ultimately show ?thesis using evicted_none [of ps pol n] by (intro exI [of _ "[]"] exI [of _ n]) simp
  next
    case True
    let ?j = "pick (map fst heap)"
    obtain x par n1 where d: "delete_leaf ps [] n (snd (heap ! ?j)) = Some (x, par, n1)" "evict_step ps pol n x n1"
        "mset ((take ?j heap @ drop (Suc ?j) heap) @ (case par of None \<Rightarrow> [] | Some p \<Rightarrow> [heap_entry pol p])) = mset (map (heap_entry pol) (collect_leaves n1))"
      using pick_step [OF less(2) assms(2) less(3)] True by blast
    let ?heap = "(take ?j heap @ drop (Suc ?j) heap) @ (case par of None \<Rightarrow> [] | Some p \<Rightarrow> [heap_entry pol p])"
    have n1: "root_ok ps n1" "tree_sum (\<lambda>_ _ _. 1 :: nat) n1 < tree_sum (\<lambda>_ _ _. 1 :: nat) n"
      using step_removes [OF less(2) d(2), of "\<lambda>_ _ _. 1 :: nat"] by (auto simp: removes_def meas_def)
    obtain xs n' where r: "evict_loop ps pol pick fr num ?heap (ne + length (nvalue x)) (kl + rk_len (nkey x)) n1 (fr (nvalue x) a)
          = Some (Inr (ne + length (nvalue x) + sum_list (map (\<lambda>x. length (nvalue x)) xs), kl + rk_len (nkey x) + sum_list (map (\<lambda>x. rk_len (nkey x)) xs),
              n', fold (\<lambda>x. fr (nvalue x)) xs (fr (nvalue x) a)))"
        "evict_steps ps pol n1 xs n'" "num \<le> ne + length (nvalue x) + sum_list (map (\<lambda>x. length (nvalue x)) xs) \<or> collect_leaves n' = []"
      using less(1) [OF n1(2,1) d(3)] by blast
    have "evict_loop ps pol pick fr num heap ne kl n a
        = evict_loop ps pol pick fr num ?heap (ne + length (nvalue x)) (kl + rk_len (nkey x)) n1 (fr (nvalue x) a)"
      using True d(1) by (subst evict_loop.simps) (auto simp: Let_def split: option.splits)
    then show ?thesis using r evicted_more [OF d(2) r(2)] by (intro exI [of _ "x # xs"] exI [of _ n']) (simp add: add.assoc)
  qed
qed

end
