(* ===== verification/RadixProps.thy ===== *)
theory RadixProps
  imports RadixLocks AllocRun
begin

section \<open>Properties of the radix cache\<close>

text \<open>
  The operations of the cache against three observations of it: \<open>cached\<close>, the slots of the longest cached
  prefix of a key; \<open>locks\<close>, the references held to a node; \<open>slots\<close>, the multiset of the slots in the tree.
  Then the requests that use it and, with the token allocator, the allocation that evicts first.
\<close>

subsection \<open>The cache\<close>

definition cached :: "radix_cache \<Rightarrow> radix_key \<Rightarrow> int list" where
  "cached rc key = lookup (rc_page_size rc) (root_node rc) key"

definition locks :: "radix_cache \<Rightarrow> radix_key \<Rightarrow> int" where
  "locks rc path = held (rc_page_size rc) (root_node rc) path"

definition slots :: "radix_cache \<Rightarrow> int multiset" where
  "slots rc = tree_sum slots_of (root_node rc)"

definition is_node :: "radix_cache \<Rightarrow> radix_key \<Rightarrow> bool" where
  "is_node rc path \<longleftrightarrow> node_at (rc_page_size rc) (root_node rc) path \<noteq> None"

definition key_ok :: "radix_cache \<Rightarrow> radix_key \<Rightarrow> bool" where
  "key_ok rc key \<longleftrightarrow> rc_page_size rc dvd rk_len key"

definition cache_inv :: "radix_cache \<Rightarrow> bool" where
  "cache_inv rc \<longleftrightarrow> root_ok (rc_page_size rc) (root_node rc)
     \<and> evictable_size rc = tree_sum unlocked_len (root_node rc) \<and> protected_size rc = tree_sum locked_len (root_node rc)"

definition aligned_key :: "radix_cache \<Rightarrow> radix_key \<Rightarrow> radix_key" where
  "aligned_key rc key = key\<lparr>token_ids := page_align (rc_page_size rc) (token_ids key)\<rparr>"

text \<open>Two caches that differ only in their tree and its sizes.\<close>

definition same_config :: "radix_cache \<Rightarrow> radix_cache \<Rightarrow> bool" where
  "same_config rc rc' \<longleftrightarrow> rc_page_size rc' = rc_page_size rc \<and> rc_disable rc' = rc_disable rc
     \<and> eviction_policy rc' = eviction_policy rc \<and> disable_finished_insert rc' = disable_finished_insert rc"

lemma page_align_dvd: "ps dvd length (page_align ps ids)" "length (page_align ps ids) \<le> length ids" "page_align ps [] = []"
  by (simp_all add: page_align_def min_absorb2 div_times_less_eq_dividend)

lemma page_align_take: "n \<le> length (page_align ps ids) \<Longrightarrow> take n (page_align ps ids) = take n ids"
  by (auto simp: page_align_def min_absorb1)

lemma page_align_id: "ps dvd length ids \<Longrightarrow> page_align ps ids = ids"
  by (simp add: page_align_def)

lemma match_prefix_ok:
  assumes "cache_inv rc" "\<not> rc_disable rc" and key1_def: "key1 = aligned_key rc key"
  shows "\<exists>rc'. match_prefix clk key rc = (Inr (cached rc key1, take (length (cached rc key1)) (token_ids key)), rc') \<and> cache_inv rc'
    \<and> same_config rc rc' \<and> (\<forall>q. key_ok rc q \<longrightarrow> cached rc' q = cached rc q) \<and> (\<forall>q. locks rc' q = locks rc q) \<and> slots rc' = slots rc
    \<and> is_node rc' (rk_take (length (cached rc key1)) key1)"
proof -
  let ?ps = "rc_page_size rc" and ?n = "root_node rc"
  note inv = assms(1) [unfolded cache_inv_def root_ok_def]
  have key1: "?ps dvd rk_len key1" "token_ids key1 = page_align ?ps (token_ids key)" using page_align_dvd by (simp_all add: key1_def aligned_key_def rk_len_def)
  show ?thesis
  proof (cases "token_ids key1 = []")
    case True
    then have "cached rc key1 = []" "is_node rc (rk_take 0 key1)" by (simp_all add: cached_def lookup_enter find_child_def is_node_def node_at_in)
    moreover have "match_prefix clk key rc = (Inr ([], []), rc)" using True key1(2) by (simp add: match_prefix_def key1_def aligned_key_def)
    ultimately show ?thesis using assms(1) by (auto simp: same_config_def)
  next
    case False
    let ?v = "lookup ?ps ?n key1"
    from inv have ok: "0 < ?ps" "tree_ok ?ps True ?n" by simp_all
    obtain n' where m: "match_prefix_helper ?ps clk ?n key1 = Inr (?v, take (length ?v) (token_ids key1), n')"
        "reads slots_of ?ps True key1 ?n ?v n'"
      using slots.match_helper_ok [OF ok key1(1)] by blast
    have sums: "tree_sum unlocked_len n' = tree_sum unlocked_len ?n" "tree_sum locked_len n' = tree_sum locked_len ?n"
      using unlocked.match_helper_ok [OF ok key1(1), of clk] locked.match_helper_ok [OF ok key1(1), of clk] m(1) by (auto simp: reads_def)
    note re = m(2) [unfolded reads_def]
    have len: "length ?v \<le> length (token_ids key1)" using lookup_len [OF ok key1(1)] by (simp add: rk_len_def)
    have "token_ids key \<noteq> []" using False key1(2) page_align_dvd(3) by fastforce
    moreover have "take (length ?v) (token_ids key1) = take (length ?v) (token_ids key)"
      using len page_align_take by (simp add: key1(2))
    ultimately have "match_prefix clk key rc = (Inr (?v, take (length ?v) (token_ids key)), rc\<lparr>root_node := n'\<rparr>)"
      using assms(2) False m(1) by (simp add: match_prefix_def Let_def key1_def aligned_key_def)
    moreover have "cache_inv (rc\<lparr>root_node := n'\<rparr>)" using inv re sums by (auto simp: cache_inv_def root_ok_def same_node_def)
    ultimately show ?thesis using re
      by (intro exI [of _ "rc\<lparr>root_node := n'\<rparr>"]) (simp add: cached_def locks_def slots_def is_node_def key_ok_def same_config_def)
  qed
qed

lemma insert_cache_ok:
  assumes "cache_inv rc" "\<not> rc_disable rc" "key_ok rc key" "length val = rk_len key"
  shows "\<exists>rc'. insert_cache clk key val prio rc = Some (Inr (length (cached rc key)), rc') \<and> cache_inv rc' \<and> same_config rc rc'
    \<and> (\<forall>q. key_ok rc q \<longrightarrow> cached rc' q = inserted (rc_page_size rc) key val (cached rc) q) \<and> (\<forall>q. locks rc' q = locks rc q)
    \<and> slots rc' = slots rc + mset (drop (length (cached rc key)) val)"
proof -
  let ?ps = "rc_page_size rc"
  let ?n = "raise_priority prio (touch (clk 0) (root_node rc))" and ?l = "length (lookup (rc_page_size rc) (root_node rc) key)"
  note inv = assms(1) [unfolded cache_inv_def root_ok_def]
  have same: "same_node (root_node rc) ?n" by simp
  then have v: "lookup ?ps ?n q = lookup ?ps (root_node rc) q" "held ?ps ?n q = held ?ps (root_node rc) q" for q
    by (auto intro!: lookup_cong held_cong simp: same_node_def)
  have ok: "0 < ?ps" "tree_ok ?ps True ?n" "?ps dvd rk_len key" using inv same_node_views(1) [OF same] assms(3) by (simp_all add: key_ok_def)
  have lv: "inserted ?ps key val (lookup ?ps ?n) = inserted ?ps key val (lookup ?ps (root_node rc))" by (simp add: inserted_def v fun_eq_iff)
  obtain n' where i: "insert_loop ?ps clk prio ?n key val = Some (Inr (?l, rk_len key - ?l, n'))" "inserts slots_of ?ps True key val ?n n'"
    using slots.insert_loop_ok [OF ok assms(4)] by (auto simp: v)
  have sums: "inserts unlocked_len ?ps True key val ?n n'" "inserts locked_len ?ps True key val ?n n'"
    using unlocked.insert_loop_ok [OF ok assms(4), of clk prio] locked.insert_loop_ok [OF ok assms(4), of clk prio] i(1) by auto
  note t = same_node_views(4) [OF same] and len = lookup_len [OF ok(1) _ ok(3), of True "root_node rc"]
  have "tree_sum unlocked_len n' = tree_sum unlocked_len (root_node rc) + int (rk_len key - ?l)"
    using sums(1) unfolding inserts_def t v by (auto simp: Let_def unlocked_len_def)
  moreover have "tree_sum locked_len n' = tree_sum locked_len (root_node rc)"
    using sums(2) unfolding inserts_def t v by (auto simp: Let_def locked_len_def)
  moreover have "tree_sum slots_of n' = tree_sum slots_of (root_node rc) + mset (drop ?l val)"
    using i(2) assms(4) unfolding inserts_def t v by (auto simp: Let_def slots_of_def)
  moreover have "cached rc = lookup ?ps (root_node rc)" by (simp add: cached_def fun_eq_iff)
  ultimately show ?thesis
    using i inv assms(2) same
    by (intro exI [of _ "rc\<lparr>root_node := n', evictable_size := evictable_size rc + int (rk_len key - ?l)\<rparr>"])
      (simp add: insert_cache_def insert_helper_def inserts_def cached_def locks_def slots_def cache_inv_def root_ok_def same_config_def
         key_ok_def same_node_def v lv)
qed

lemma change_lock_ok:
  assumes "cache_inv rc" "\<not> rc_disable rc" "is_node rc path" "d = 1 \<or> d = - 1" "d = - 1 \<Longrightarrow> token_ids path = [] \<or> 0 < locks rc path"
  shows "\<exists>delta rc'. change_lock d path rc = (delta, rc') \<and> cache_inv rc' \<and> same_config rc rc' \<and> (\<forall>q. cached rc' q = cached rc q)
    \<and> (\<forall>q. token_ids q \<noteq> [] \<longrightarrow> locks rc' q = locks rc q + (if q = path then d else 0)) \<and> slots rc' = slots rc
    \<and> (\<forall>q. is_node rc' q = is_node rc q)"
proof -
  let ?ps = "rc_page_size rc" and ?n = "root_node rc"
  note inv = assms(1) [unfolded cache_inv_def root_ok_def]
  obtain delta n' where l: "lock_path ?ps d ?n path = (delta, n')" by fastforce
  have "case lock_path ?ps d ?n path of (delta, n') \<Rightarrow> relocks ?ps True d path ?n delta n'"
    by (rule lock_path_ok) (use inv assms(3-5) in \<open>auto simp: is_node_def locks_def\<close>)
  then have re: "relocks ?ps True d path ?n delta n'" by (simp add: l)
  have ok: "tree_ok ?ps True n'"
    using re unfolding relocks_def tree_ok_iff [of ?ps True n'] tree_ok_iff [of ?ps True "bump d n'"] by (simp add: kid_ok_def)
  have held: "held ?ps n' q = held ?ps ?n q + (if q = path then d else 0)" if "token_ids q \<noteq> []" for q
  proof (cases "extra_key q = extra_key path")
    case True
    then have "q = path \<longleftrightarrow> token_ids q = token_ids path" by (auto intro: radix_key.equality)
    moreover have "held ?ps n' q = held ?ps (bump d n') q" using that by (simp add: held_held_in find_child_def)
    ultimately show ?thesis using re True by (simp add: relocks_def)
  next
    case False
    then show ?thesis using re that by (auto simp: relocks_def)
  qed
  show ?thesis
    using re inv ok held assms(2) l
    by (intro exI [of _ delta] exI [of _ "rc\<lparr>root_node := n', evictable_size := evictable_size rc + delta, protected_size := protected_size rc - delta\<rparr>"])
      (simp add: change_lock_def relocks_def cached_def locks_def slots_def is_node_def cache_inv_def root_ok_def same_config_def)
qed

lemma sum_meas:
  assumes "\<And>x. x \<in> set xs \<Longrightarrow> lock_ref x = 0 \<and> info_ok ps x"
  shows "sum_list (map (meas unlocked_len) xs) = int (sum_list (map (\<lambda>x. rk_len (nkey x)) xs))"
    "sum_list (map (meas locked_len) xs) = 0" "sum_list (map (meas slots_of) xs) = mset (concat (map nvalue xs))"
    "length (concat (map nvalue xs)) = sum_list (map (\<lambda>x. rk_len (nkey x)) xs)"
    "sum_list (map (\<lambda>x. length (nvalue x)) xs) = length (concat (map nvalue xs))"
  using assms by (induction xs) (auto simp: meas_def unlocked_len_def locked_len_def slots_of_def info_ok_def)

lemma evict_ok:
  assumes "cache_inv rc" "\<not> rc_disable rc" "pick_ok pick"
  shows "\<exists>xs rc'. evict pick fr num rc a = Some (Inr (length (concat (map nvalue xs)), rc', fold (\<lambda>x. fr (nvalue x)) xs a))
    \<and> evict_steps (rc_page_size rc) (eviction_policy rc) (root_node rc) xs (root_node rc') \<and> cache_inv rc' \<and> same_config rc rc'
    \<and> (\<forall>q. locks rc' q = locks rc q) \<and> (\<forall>q. \<exists>rest. cached rc q = cached rc' q @ rest)
    \<and> (\<forall>q. token_ids q \<noteq> [] \<longrightarrow> 0 < locks rc q \<longrightarrow> cached rc' q = cached rc q)
    \<and> slots rc' + mset (concat (map nvalue xs)) = slots rc
    \<and> evictable_size rc' = evictable_size rc - int (length (concat (map nvalue xs))) \<and> protected_size rc' = protected_size rc
    \<and> (num \<le> length (concat (map nvalue xs)) \<or> evictable_size rc' = 0)"
proof -
  let ?ps = "rc_page_size rc" and ?n = "root_node rc" and ?pol = "eviction_policy rc"
  note inv = assms(1) [unfolded cache_inv_def]
  have root: "root_ok ?ps ?n" using inv by simp
  obtain xs n' where e: "evict_loop ?ps ?pol pick fr num (map (heap_entry ?pol) (collect_leaves ?n)) 0 0 ?n a
        = Some (Inr (0 + sum_list (map (\<lambda>x. length (nvalue x)) xs), 0 + sum_list (map (\<lambda>x. rk_len (nkey x)) xs), n', fold (\<lambda>x. fr (nvalue x)) xs a))"
      "evict_steps ?ps ?pol ?n xs n'" "num \<le> 0 + sum_list (map (\<lambda>x. length (nvalue x)) xs) \<or> collect_leaves n' = []"
    using evict_loop_ok [OF root assms(3) refl, where pol = ?pol and fr = fr and num = num and ne = 0 and kl = 0 and a = a] by blast
  note keep = steps_keep [OF e(2) root] and sums = sum_meas [OF steps_evict [OF e(2) root]]
  let ?rc = "rc\<lparr>root_node := n', evictable_size := evictable_size rc - int (length (concat (map nvalue xs)))\<rparr>"
  have inv': "cache_inv ?rc"
    using inv keep(1) keep(3) [of unlocked_len] keep(3) [of locked_len] sums by (simp add: cache_inv_def)
  have "evictable_size ?rc = 0" if "collect_leaves n' = []"
    using no_leaf_locked [of ?ps True n' "[]"] keep(1) that collect_leaves_eq [OF keep(1)] inv' by (simp add: root_ok_def cache_inv_def)
  then show ?thesis using e sums keep keep(3) [of slots_of] inv' assms(2)
    by (intro exI [of _ xs] exI [of _ ?rc])
      (auto simp: evict_def same_config_def locks_def cached_def slots_def)
qed

lemma meas_eqs:
  "meas unlocked_len i = (if lock_ref i = 0 then int (rk_len (nkey i)) else 0)"
  "meas locked_len i = (if lock_ref i = 0 then 0 else int (rk_len (nkey i)))" "meas slots_of i = mset (nvalue i)"
  by (simp_all add: meas_def unlocked_len_def locked_len_def slots_of_def)

lemma values_sum: "mset (values_below n) = tree_sum slots_of n"
proof (induction n rule: values_below.induct)
  case (1 i cs)
  have "map (\<lambda>p. mset (values_below (snd p))) cs = map (\<lambda>p. tree_sum slots_of (snd p)) cs" using 1 by simp
  then have "sum_list (map (\<lambda>p. mset (values_below (snd p))) cs) = sum_list (map (\<lambda>p. tree_sum slots_of (snd p)) cs)" by (rule arg_cong)
  then show ?case by (simp add: mset_concat meas_eqs comp_def)
qed

lemma sizes_sum:
  assumes "tree_ok ps r n" "length (nvalue (info n)) = rk_len (nkey (info n))"
  shows "tree_sum unlocked_len n + tree_sum locked_len n = int (length (values_below n))"
    and "0 \<le> tree_sum unlocked_len n" "0 \<le> tree_sum locked_len n"
proof -
  have "tree_sum unlocked_len n + tree_sum locked_len n = int (length (values_below n)) \<and> 0 \<le> tree_sum unlocked_len n \<and> 0 \<le> tree_sum locked_len n"
    using assms
  proof (induction n arbitrary: r rule: values_below.induct)
    case (1 i cs)
    let ?u = "\<lambda>p. tree_sum unlocked_len (snd p)" and ?k = "\<lambda>p. tree_sum locked_len (snd p)" and ?v = "\<lambda>p. values_below (snd p)"
    have kid: "?u p + ?k p = int (length (?v p)) \<and> 0 \<le> ?u p \<and> 0 \<le> ?k p" if "p \<in> set cs" for p
      using 1(1) [OF that, of False] 1(2) that by (auto simp: tree_ok.simps [of ps r] kid_ok_def info_ok_def)
    have "(\<forall>p \<in> set cs'. ?u p + ?k p = int (length (?v p)) \<and> 0 \<le> ?u p \<and> 0 \<le> ?k p) \<Longrightarrow>
        sum_list (map ?u cs') + sum_list (map ?k cs') = int (length (concat (map ?v cs'))) \<and> 0 \<le> sum_list (map ?u cs') \<and> 0 \<le> sum_list (map ?k cs')" for cs'
      by (induction cs') auto
    from this [of cs] kid show ?case using 1(3) by (simp add: meas_eqs)
  qed
  then show "tree_sum unlocked_len n + tree_sum locked_len n = int (length (values_below n))"
    "0 \<le> tree_sum unlocked_len n" "0 \<le> tree_sum locked_len n" by blast+
qed


text \<open>A cache with pages of two tokens: a locked path of two nodes and an unlocked leaf beside its end.\<close>

definition small_info :: "int list \<Rightarrow> int list \<Rightarrow> int \<Rightarrow> int \<Rightarrow> node_info" where
  "small_info toks vals l t = (new_info t t 0 \<lparr>token_ids = toks, extra_key = None\<rparr> vals)\<lparr>lock_ref := l\<rparr>"

definition small_cache :: radix_cache where
  "small_cache =
     \<lparr>root_node = Node (small_info [] [] 1 0)
        [((None, [1, 2]), Node (small_info [1, 2] [10, 11] 1 1)
           [((None, [3, 4]), Node (small_info [3, 4] [12, 13] 1 2) []), ((None, [5, 6]), Node (small_info [5, 6] [14, 15] 0 3) [])])],
      evictable_size = 2, protected_size = 4, rc_page_size = 2, rc_disable = False, eviction_policy = LRU, disable_finished_insert = False\<rparr>"

lemma small_cache_inv: "cache_inv small_cache" "\<not> rc_disable small_cache"
  by code_simp+


subsection \<open>Matching and inserting\<close>

lemma cached_shared:
  assumes "cache_inv rc" "is_node rc path" "key_ok rc path" "key_ok rc key"
  shows "shared (rc_page_size rc) path key \<le> length (cached rc key)
    \<and> take (shared (rc_page_size rc) path key) (cached rc key) = take (shared (rc_page_size rc) path key) (cached rc path)"
proof -
  let ?ps = "rc_page_size rc" and ?n = "root_node rc"
  have ok: "0 < ?ps" "tree_ok ?ps True ?n" "?ps dvd rk_len path" "?ps dvd rk_len key"
    using assms by (simp_all add: cache_inv_def root_ok_def key_ok_def)
  have eq: "take (shared ?ps path key) (lookup ?ps ?n key) = take (shared ?ps path key) (lookup ?ps ?n path)"
    using lookup_shared [OF ok] by simp
  have "shared ?ps path key \<le> rk_len path"
    using cpl_spec(2) [of ?ps "token_ids path" "token_ids key"] ok by (simp add: shared_def rk_len_def)
  then have "length (take (shared ?ps path key) (lookup ?ps ?n path)) = shared ?ps path key"
    using node_full [OF ok(1-3)] assms(2) by (simp add: is_node_def)
  then show ?thesis using eq unfolding cached_def by (metis length_take min.cobounded1)
qed

lemma child_slots:
  assumes "find_child ps n q = Some c"
  shows "set (nvalue (info c)) \<subseteq> set_mset (tree_sum slots_of n)" "set_mset (tree_sum slots_of c) \<subseteq> set_mset (tree_sum slots_of n)"
proof -
  obtain i cs where n: "n = Node i cs" by (cases n)
  obtain j ds where c: "c = Node j ds" by (cases c)
  have "c \<in> snd ` set cs" using assms n by (force simp: find_child_def dest: map_of_SomeD split: if_splits)
  then have "set_mset (tree_sum slots_of c) \<subseteq> set_mset (sum_list (map (\<lambda>p. tree_sum slots_of (snd p)) cs))"
    by (induction cs) auto
  then show sub: "set_mset (tree_sum slots_of c) \<subseteq> set_mset (tree_sum slots_of n)" by (auto simp: n)
  show "set (nvalue (info c)) \<subseteq> set_mset (tree_sum slots_of n)" using sub by (auto simp: c meas_def slots_of_def)
qed

lemma lookup_slots: "set (lookup ps n q) \<subseteq> set_mset (tree_sum slots_of n)"
proof (induction ps n q rule: lookup.induct)
  case (1 ps n q)
  show ?case
  proof (cases "find_child ps n q")
    case (Some c)
    show ?thesis using 1 [OF Some refl] child_slots [OF Some] Some
      by (auto simp: lookup_enter [of ps n] enter_def Let_def dest: in_set_takeD)
  qed (simp add: lookup_enter)
qed

text \<open>C24: A match returns the slots of the longest cached prefix of the key cut to whole pages, and
  the tokens they stand for. The slots are cached ones: they are slots of the tree, there is a node whose
  path shares exactly those tokens with the key and has exactly those slots for them, and the tokens
  lead to a node of the tree the match leaves. Nothing longer is cached: whatever node shares tokens with
  the key, the result covers them and has that node's slots for them. A match only reads: every later
  lookup, every lock and the slots in the tree are as before, although a node may have been split.\<close>

theorem match_prefix_longest:
  assumes "cache_inv rc" "\<not> rc_disable rc"
  shows "\<exists>v rc'. match_prefix clk key rc = (Inr (v, take (length v) (token_ids key)), rc') \<and> length v \<le> rk_len (aligned_key rc key)
    \<and> set v \<subseteq> set_mset (slots rc)
    \<and> (\<exists>path. is_node rc path \<and> key_ok rc path \<and> shared (rc_page_size rc) path (aligned_key rc key) = length v \<and> v = take (length v) (cached rc path))
    \<and> is_node rc' (rk_take (length v) (aligned_key rc key))
    \<and> (\<forall>path. is_node rc path \<longrightarrow> key_ok rc path \<longrightarrow>
         shared (rc_page_size rc) path (aligned_key rc key) \<le> length v
         \<and> take (shared (rc_page_size rc) path (aligned_key rc key)) v = take (shared (rc_page_size rc) path (aligned_key rc key)) (cached rc path))
    \<and> cache_inv rc' \<and> (\<forall>q. key_ok rc q \<longrightarrow> cached rc' q = cached rc q) \<and> (\<forall>q. locks rc' q = locks rc q) \<and> slots rc' = slots rc"
proof -
  let ?ps = "rc_page_size rc" and ?n = "root_node rc"
  define key1 where "key1 = aligned_key rc key"
  define v where "v = cached rc key1"
  have ok: "0 < ?ps" "tree_ok ?ps True ?n" using assms(1) by (simp_all add: cache_inv_def root_ok_def)
  have key1: "?ps dvd rk_len key1" using page_align_dvd by (simp add: key1_def aligned_key_def rk_len_def)
  have share: "shared ?ps path key1 \<le> length v \<and> take (shared ?ps path key1) v = take (shared ?ps path key1) (cached rc path)"
    if "is_node rc path" "key_ok rc path" for path
    using cached_shared [OF assms(1) that] key1 by (simp add: key_ok_def v_def)
  obtain path where "node_at ?ps ?n path \<noteq> None" "?ps dvd rk_len path" "shared ?ps path key1 = length v"
    using lookup_node [OF ok key1] by (auto simp: v_def cached_def)
  then have path: "is_node rc path" "key_ok rc path" "shared ?ps path key1 = length v" by (simp_all add: is_node_def key_ok_def)
  have "v = take (length v) (cached rc path)" using share [OF path(1,2)] by (simp add: path(3))
  moreover have "length v \<le> rk_len key1" "set v \<subseteq> set_mset (slots rc)"
    using lookup_len [OF ok key1] lookup_slots [of ?ps ?n key1] by (simp_all add: v_def cached_def slots_def)
  moreover obtain rc' where "match_prefix clk key rc = (Inr (v, take (length v) (token_ids key)), rc')" "is_node rc' (rk_take (length v) key1)"
      "cache_inv rc'" "\<forall>q. key_ok rc q \<longrightarrow> cached rc' q = cached rc q" "\<forall>q. locks rc' q = locks rc q" "slots rc' = slots rc"
    using match_prefix_ok [OF assms key1_def, of clk] unfolding v_def by blast
  ultimately show ?thesis using share path unfolding key1_def [symmetric] by blast
qed

theorem match_prefix_longest_witness:
  "\<exists>v rc'. match_prefix (\<lambda>_. 9) \<lparr>token_ids = [1, 2, 5, 6, 7], extra_key = None\<rparr> small_cache
      = (Inr (v, take (length v) [1, 2, 5, 6, 7]), rc') \<and> length v = 4 \<and> set v \<subseteq> set_mset (slots small_cache)"
proof -
  let ?path = "\<lparr>token_ids = [1, 2, 5, 6], extra_key = None\<rparr>" and ?key = "\<lparr>token_ids = [1, 2, 5, 6, 7], extra_key = None\<rparr>"
  have "is_node small_cache ?path" "key_ok small_cache ?path" "shared (rc_page_size small_cache) ?path (aligned_key small_cache ?key) = 4"
    "rk_len (aligned_key small_cache ?key) = 4"
    by code_simp+
  then show ?thesis using match_prefix_longest [OF small_cache_inv, of "\<lambda>_. 9" ?key] by fastforce
qed

text \<open>C13: An insertion of a page-aligned key with its slots ends and reports how much of the key was
  cached. Afterwards every lookup returns what it returned before, continued with the new slots as far
  as it shares the inserted key; the slots of the part that was not cached are added to the tree, the
  locks are as before, and the sizes stay exact.\<close>

theorem insert_terminates:
  assumes "cache_inv rc" "\<not> rc_disable rc" "key_ok rc key" "length val = rk_len key"
  shows "\<exists>rc'. insert_cache clk key val prio rc = Some (Inr (length (cached rc key)), rc') \<and> cache_inv rc'
    \<and> (\<forall>q. key_ok rc q \<longrightarrow> cached rc' q = cached rc q @ drop (length (cached rc q)) (take (shared (rc_page_size rc) key q) val))
    \<and> (\<forall>q. locks rc' q = locks rc q) \<and> slots rc' = slots rc + mset (drop (length (cached rc key)) val)"
  using insert_cache_ok [OF assms, of clk prio] by (fastforce simp: inserted_def)

theorem insert_terminates_witness:
  "\<exists>rc'. insert_cache (\<lambda>_. 9) \<lparr>token_ids = [1, 2, 3, 4, 7, 8], extra_key = None\<rparr> [20, 21, 22, 23, 24, 25] 0 small_cache = Some (Inr 4, rc')
     \<and> slots rc' = slots small_cache + {#24, 25#}"
proof -
  let ?key = "\<lparr>token_ids = [1, 2, 3, 4, 7, 8], extra_key = None\<rparr>"
  have "key_ok small_cache ?key" "length (cached small_cache ?key) = 4" by code_simp+
  then show ?thesis using insert_terminates [OF small_cache_inv, of ?key "[20, 21, 22, 23, 24, 25]" "\<lambda>_. 9" 0] by (auto simp: rk_len_def)
qed

text \<open>C25: What is inserted is found again: a match of the inserted key right after the insertion
  returns a slot for every token of it, the ones cached before for the part that was cached and the
  new ones for the rest, so exactly the reported part of the given slots is redundant.\<close>

theorem insert_match_roundtrip:
  assumes "cache_inv rc" "\<not> rc_disable rc" "key_ok rc key" "length val = rk_len key" "insert_cache clk key val prio rc = Some (res, rc1)"
  shows "\<exists>rc2. match_prefix clk' key rc1 = (Inr (cached rc key @ drop (length (cached rc key)) val, token_ids key), rc2)
    \<and> res = Inr (length (cached rc key)) \<and> length (cached rc key) \<le> rk_len key"
proof -
  let ?ps = "rc_page_size rc" and ?v = "cached rc key @ drop (length (cached rc key)) val"
  have ok: "0 < ?ps" "tree_ok ?ps True (root_node rc)" "?ps dvd rk_len key" using assms(1,3) by (simp_all add: cache_inv_def root_ok_def key_ok_def)
  have i: "res = Inr (length (cached rc key))" "cache_inv rc1" "same_config rc rc1" "cached rc1 key = inserted ?ps key val (cached rc) key"
    using insert_cache_ok [OF assms(1-4), of clk prio] assms(3,5) by auto
  have "shared ?ps key key = rk_len key" using cpl_self [OF ok(1)] ok(3) by (simp add: shared_def rk_len_def)
  then have v: "cached rc1 key = ?v" using i(4) assms(4) by (simp add: inserted_def)
  have len: "length (cached rc key) \<le> rk_len key" using lookup_len [OF ok] by (simp add: cached_def)
  have "key = aligned_key rc1 key" using i(3) ok(3) by (simp add: aligned_key_def same_config_def page_align_id rk_len_def)
  from match_prefix_ok [OF i(2) _ this, of clk'] i(1,3) v len assms(2,4) show ?thesis by (auto simp: same_config_def rk_len_def)
qed

theorem insert_match_roundtrip_witness:
  "\<exists>rc1 rc2. insert_cache (\<lambda>_. 9) \<lparr>token_ids = [1, 2, 3, 4, 7, 8], extra_key = None\<rparr> [20, 21, 22, 23, 24, 25] 0 small_cache = Some (Inr 4, rc1)
     \<and> match_prefix (\<lambda>_. 10) \<lparr>token_ids = [1, 2, 3, 4, 7, 8], extra_key = None\<rparr> rc1 = (Inr ([10, 11, 12, 13, 24, 25], [1, 2, 3, 4, 7, 8]), rc2)"
proof -
  let ?key = "\<lparr>token_ids = [1, 2, 3, 4, 7, 8], extra_key = None\<rparr>" and ?val = "[20, 21, 22, 23, 24, 25]"
  have k: "key_ok small_cache ?key" "cached small_cache ?key = [10, 11, 12, 13]" "length ?val = rk_len ?key" by code_simp+
  obtain res rc1 where "insert_cache (\<lambda>_. 9) ?key ?val 0 small_cache = Some (res, rc1)"
    using insert_cache_ok [OF small_cache_inv k(1,3)] by blast
  from this insert_match_roundtrip [OF small_cache_inv k(1,3) this, of "\<lambda>_. 10"] show ?thesis by (auto simp: k(2))
qed


subsection \<open>Eviction\<close>

text \<open>C14: Eviction ends and is a sequence of steps, each of which removes an unlocked leaf of least
  priority under the configured policy and frees its slots. It returns the number of freed slots, frees
  exactly the slots that leave the tree, and reaches the number asked for unless nothing unlocked is
  left. Every prefix that a request has locked stays cached with the same slots.\<close>

theorem eviction_correct:
  assumes "cache_inv rc" "\<not> rc_disable rc" "pick_ok pick"
  shows "\<exists>xs rc'. evict pick fr num rc a = Some (Inr (length (concat (map nvalue xs)), rc', fold (\<lambda>x. fr (nvalue x)) xs a))
    \<and> evict_steps (rc_page_size rc) (eviction_policy rc) (root_node rc) xs (root_node rc')
    \<and> cache_inv rc' \<and> slots rc' + mset (concat (map nvalue xs)) = slots rc \<and> (\<forall>q. locks rc' q = locks rc q)
    \<and> (\<forall>q. token_ids q \<noteq> [] \<longrightarrow> 0 < locks rc q \<longrightarrow> cached rc' q = cached rc q)
    \<and> evictable_size rc' = evictable_size rc - int (length (concat (map nvalue xs))) \<and> protected_size rc' = protected_size rc
    \<and> (num \<le> length (concat (map nvalue xs)) \<or> evictable_size rc' = 0)"
  using evict_ok [OF assms, of fr num a] by blast

theorem eviction_correct_witness:
  "\<exists>n rc' a'. evict first_least (\<lambda>v a. a @ v) 100 small_cache [] = Some (Inr (n, rc', a'))
     \<and> cached rc' \<lparr>token_ids = [1, 2, 3, 4], extra_key = None\<rparr> = [10, 11, 12, 13]"
proof -
  let ?q = "\<lparr>token_ids = [1, 2, 3, 4], extra_key = None\<rparr>"
  have "0 < locks small_cache ?q" "cached small_cache ?q = [10, 11, 12, 13]" by code_simp+
  then show ?thesis using eviction_correct [OF small_cache_inv first_least_ok, of "\<lambda>v a. a @ v" 100 "[]"] by fastforce
qed


subsection \<open>Runs\<close>

text \<open>One call on the cache. A caller locks nodes that a match returned and unlocks what it locked.\<close>

inductive cache_step :: "radix_cache \<Rightarrow> radix_cache \<Rightarrow> bool" where
  step_match: "match_prefix clk key rc = (res, rc') \<Longrightarrow> cache_step rc rc'"
| step_insert: "key_ok rc key \<Longrightarrow> length val = rk_len key \<Longrightarrow> insert_cache clk key val prio rc = Some (res, rc') \<Longrightarrow> cache_step rc rc'"
| step_lock: "is_node rc path \<Longrightarrow> inc_lock_ref path rc = (delta, rc') \<Longrightarrow> cache_step rc rc'"
| step_unlock: "is_node rc path \<Longrightarrow> token_ids path = [] \<or> 0 < locks rc path \<Longrightarrow> dec_lock_ref path rc = (delta, rc') \<Longrightarrow> cache_step rc rc'"
| step_evict: "pick_ok pick \<Longrightarrow> evict pick fr num rc (a :: allocator) = Some (Inr (n, rc', a')) \<Longrightarrow> cache_step rc rc'"
| step_reset: "cache_step rc (reset_cache clk rc)"

lemma reset_inv: "0 < rc_page_size rc \<Longrightarrow> cache_inv (reset_cache clk rc)"
  by (simp add: cache_inv_def root_ok_def reset_cache_def reset_root_def new_info_def tree_ok.simps kid_locks_def meas_eqs rk_len_def)

lemma cache_step_inv:
  assumes "cache_step rc rc'" "cache_inv rc"
  shows "cache_inv rc'"
proof (cases "rc_disable rc")
  case True
  from assms(1) show ?thesis
    by cases (use True assms(2) reset_inv in \<open>auto simp: match_prefix_def insert_cache_def inc_lock_ref_def dec_lock_ref_def change_lock_def
      evict_def cache_inv_def root_ok_def\<close>)
next
  case False
  from assms(1) show ?thesis
  proof cases
    case (step_match clk key res)
    then show ?thesis using match_prefix_ok [OF assms(2) False refl, of clk key] by auto
  next
    case (step_insert key val clk prio res)
    then show ?thesis using insert_cache_ok [OF assms(2) False, of key val clk prio] by auto
  next
    case (step_lock path delta)
    then show ?thesis using change_lock_ok [OF assms(2) False, of path 1] by (auto simp: inc_lock_ref_def)
  next
    case (step_unlock path delta)
    then show ?thesis using change_lock_ok [OF assms(2) False, of path "- 1"] by (auto simp: dec_lock_ref_def)
  next
    case (step_evict pick fr num a n a')
    then show ?thesis using evict_ok [OF assms(2) False, of pick fr num a] by auto
  next
    case (step_reset clk)
    then show ?thesis using reset_inv assms(2) by (simp add: cache_inv_def root_ok_def)
  qed
qed

text \<open>C26: The sizes the scheduler plans with are exact: from a new cache, after any sequence of matches,
  insertions, locks, unlocks, evictions and resets, the evictable size is the total key length of the
  unlocked nodes and the protected size that of the locked ones, neither is negative, and together they
  are the number of slots in the tree.\<close>

theorem cache_sizes_exact:
  assumes "0 < ps" "cache_step\<^sup>*\<^sup>* (init_cache clk ps dis pol no_finished) rc"
  shows "evictable_size rc = tree_sum unlocked_len (root_node rc) \<and> protected_size rc = tree_sum locked_len (root_node rc)
    \<and> 0 \<le> evictable_size rc \<and> 0 \<le> protected_size rc \<and> evictable_size rc + protected_size rc = int (total_size rc)
    \<and> mset (all_values_flatten rc) = slots rc"
proof -
  have "cache_inv (init_cache clk ps dis pol no_finished)" using assms(1) reset_inv by (simp add: init_cache_def)
  with assms(2) have inv: "cache_inv rc" by (induction rule: rtranclp_induct) (auto intro: cache_step_inv)
  then have root: "tree_ok (rc_page_size rc) True (root_node rc)" "length (nvalue (info (root_node rc))) = rk_len (nkey (info (root_node rc)))"
    "nvalue (info (root_node rc)) = []" by (simp_all add: cache_inv_def root_ok_def rk_len_def)
  have "all_values_flatten rc = values_below (root_node rc)"
    using root(3) by (cases "root_node rc") (simp add: all_values_flatten_def)
  then show ?thesis using sizes_sum [OF root(1,2)] inv values_sum by (simp add: cache_inv_def total_size_def slots_def)
qed

theorem cache_sizes_exact_witness:
  "\<exists>rc. cache_step\<^sup>*\<^sup>* (init_cache (\<lambda>_. 0) 2 False LRU False) rc \<and> evictable_size rc + protected_size rc = int (total_size rc) \<and> slots rc = {#7, 8#}"
proof -
  let ?c = "init_cache (\<lambda>_. 0) 2 False LRU False" and ?key = "\<lparr>token_ids = [1, 2], extra_key = None\<rparr>"
  have i: "cache_inv ?c" "\<not> rc_disable ?c" "key_ok ?c ?key" "length [7, 8] = rk_len ?key" "cached ?c ?key = []" by code_simp+
  have empty: "slots ?c = {#}" by (simp add: slots_def init_cache_def reset_cache_def reset_root_def new_info_def meas_eqs)
  obtain rc where rc: "insert_cache (\<lambda>_. 1) ?key [7, 8] 0 ?c = Some (Inr (length (cached ?c ?key)), rc)" "slots rc = slots ?c + {#7, 8#}"
    using insert_cache_ok [OF i(1-4), of "\<lambda>_. 1" 0] by (auto simp: i(5))
  have "cache_step\<^sup>*\<^sup>* ?c rc" by (intro r_into_rtranclp step_insert [OF i(3,4) rc(1)])
  then show ?thesis using cache_sizes_exact [of 2 "\<lambda>_. 0" False LRU False rc] rc(2) empty by auto
qed


subsection \<open>Allocation\<close>

text \<open>The token allocator, whose pages are single slots, outside a free group: every slot of the pool is
  free, in the tree or with another client, once.\<close>

definition pool_shared :: "allocator \<Rightarrow> int multiset \<Rightarrow> int set \<Rightarrow> bool" where
  "pool_shared a own other \<longleftrightarrow> pool_ok a (set_mset own \<union> other) \<and> pool_page_size a = 1 \<and> is_not_in_free_group a
     \<and> (\<forall>x. count own x \<le> 1) \<and> set_mset own \<inter> other = {}"

lemma distinct_part:
  assumes "own' + mset xs = own" "\<forall>x. count own x \<le> 1"
  shows "distinct xs" "set_mset own' \<inter> set xs = {}" "set_mset own = set_mset own' \<union> set xs" "\<forall>x. count own' x \<le> 1"
proof -
  have c: "count own' x + count (mset xs) x \<le> 1" for x using assms by (metis count_union)
  show "\<forall>x. count own' x \<le> 1" using c by (metis add_leD1)
  show "distinct xs"
    unfolding distinct_count_atmost_1 using c by (metis add_leD2 count_greater_zero_iff le_antisym less_one not_less set_mset_mset not_gr0)
  show "set_mset own' \<inter> set xs = {}"
  proof (rule ccontr)
    assume "set_mset own' \<inter> set xs \<noteq> {}"
    then obtain x where "x \<in># own'" "x \<in># mset xs" by auto
    then have "0 < count own' x" "0 < count (mset xs) x" by (simp_all only: count_greater_zero_iff)
    then show False using c [of x] by linarith
  qed
  show "set_mset own = set_mset own' \<union> set xs" using assms(1) by (metis set_mset_mset set_mset_union)
qed

lemma pool_shared_free:
  assumes "pool_shared a own other" "own' + mset xs = own"
  shows "pool_shared (token_free xs a) own' other" "available_size (token_free xs a) = available_size a + int (length xs)"
proof -
  note s = assms(1) [unfolded pool_shared_def] and d = distinct_part [OF assms(2)]
  have "pool_ok (token_free xs a) (set_mset own \<union> other - set xs)" using token_free_ok [of a "set_mset own \<union> other" xs] s d by auto
  moreover have "set_mset own \<union> other - set xs = set_mset own' \<union> other" using d s by auto
  ultimately show "pool_shared (token_free xs a) own' other" using s d by (auto simp: pool_shared_def token_free_def)
  show "available_size (token_free xs a) = available_size a + int (length xs)"
    using s by (auto simp: available_size_def token_free_def)
qed

lemma pool_shared_free_all:
  assumes "pool_shared a own other" "own' + mset (concat vs) = own"
  shows "pool_shared (fold token_free vs a) own' other \<and> available_size (fold token_free vs a) = available_size a + int (length (concat vs))"
  using assms
proof (induction vs arbitrary: a own)
  case (Cons v vs)
  have "(own' + mset (concat vs)) + mset v = own" using Cons.prems(2) by (simp add: ac_simps)
  from pool_shared_free [OF Cons.prems(1) this] Cons.IH [OF _ refl] show ?case by simp
qed simp

lemma pool_shared_alloc:
  assumes "pool_shared a own other" "int n \<le> available_size a"
  shows "\<exists>idx a'. token_alloc n a = (Some idx, a') \<and> length idx = n \<and> distinct idx \<and> set idx \<inter> (set_mset own \<union> other) = {}
    \<and> pool_shared a' own (other \<union> set idx)"
proof -
  note s = assms(1) [unfolded pool_shared_def]
  obtain r a' where t: "take_pages n a = (r, a')" by fastforce
  have "int (card (avail a)) = available_size a" using avail_card [OF conjunct1 [OF s]] s by (simp add: available_size_def)
  then obtain idx where r: "r = Some idx" using take_pages_ok [OF conjunct1 [OF s] t] assms(2) by (cases r) auto
  have f: "pool_ok a' (set_mset own \<union> other \<union> set idx)" "distinct idx" "length idx = n" "set idx \<subseteq> avail a"
    using take_pages_ok [OF conjunct1 [OF s] t] by (simp_all add: r)
  have "set idx \<inter> (set_mset own \<union> other) = {}" using f(4) s by (auto simp: pool_ok_def)
  moreover have "pool_page_size a' = pool_page_size a" "is_not_in_free_group a' = is_not_in_free_group a"
    using t by (auto simp: take_pages_def Let_def merge_and_sort_free_def split: if_splits)
  ultimately show ?thesis using f s t r by (auto simp: token_alloc_def pool_shared_def Un_assoc)
qed

text \<open>C15: An allocation through the cache succeeds whenever the free and the evictable slots are
  enough. It evicts what it needs, returns that many distinct slots that neither the tree nor another
  client has, keeps every slot of the pool free, in the tree or with a client, once, and leaves every
  locked prefix cached as it was. This is \<open>alloc_token_slots\<close>, so the token allocator, outside a free
  group.\<close>

theorem alloc_token_slots_succeeds:
  assumes "cache_inv rc" "\<not> rc_disable rc" "pick_ok pick" "pool_shared a (slots rc) other" "int num \<le> available_size a + evictable_size rc"
  shows "\<exists>idx rc' a'. alloc_token_slots pick num rc a = Some (Inr (idx, rc', a')) \<and> length idx = num \<and> distinct idx
    \<and> set idx \<inter> (set_mset (slots rc') \<union> other) = {} \<and> pool_shared a' (slots rc') (other \<union> set idx) \<and> cache_inv rc'
    \<and> (\<forall>q. token_ids q \<noteq> [] \<longrightarrow> 0 < locks rc q \<longrightarrow> cached rc' q = cached rc q)"
proof -
  have "\<exists>rc' a1. evict_from_tree_cache pick num rc a = Some (Inr (rc', a1)) \<and> cache_inv rc' \<and> pool_shared a1 (slots rc') other
    \<and> int num \<le> available_size a1 \<and> (\<forall>q. token_ids q \<noteq> [] \<longrightarrow> 0 < locks rc q \<longrightarrow> cached rc' q = cached rc q)"
  proof (cases "available_size a < int num")
    case True
    obtain xs :: "node_info list" and rc' where e: "evict pick token_free num rc a = Some (Inr (length (concat (map nvalue xs)), rc', fold (\<lambda>x. token_free (nvalue x)) xs a))"
        "cache_inv rc'" "slots rc' + mset (concat (map nvalue xs)) = slots rc" "\<forall>q. token_ids q \<noteq> [] \<longrightarrow> 0 < locks rc q \<longrightarrow> cached rc' q = cached rc q"
        "evictable_size rc' = evictable_size rc - int (length (concat (map nvalue xs)))" "num \<le> length (concat (map nvalue xs)) \<or> evictable_size rc' = 0"
      using evict_ok [OF assms(1-3), of token_free num a] by blast
    have "fold (\<lambda>x. token_free (nvalue x)) xs a = fold token_free (map nvalue xs) a" by (simp add: fold_map comp_def)
    moreover have "0 \<le> available_size a" using assms(4) by (simp add: available_size_def pool_shared_def)
    ultimately show ?thesis using True e assms(5) pool_shared_free_all [OF assms(4) e(3)] by (auto simp: evict_from_tree_cache_def)
  qed (use assms in \<open>auto simp: evict_from_tree_cache_def\<close>)
  then obtain rc' a1 where e: "evict_from_tree_cache pick num rc a = Some (Inr (rc', a1))" "cache_inv rc'" "pool_shared a1 (slots rc') other"
    "int num \<le> available_size a1" "\<forall>q. token_ids q \<noteq> [] \<longrightarrow> 0 < locks rc q \<longrightarrow> cached rc' q = cached rc q" by blast
  from pool_shared_alloc [OF e(3,4)] e show ?thesis by (auto simp: alloc_token_slots_def)
qed

definition tiny_cache :: radix_cache where
  "tiny_cache =
     \<lparr>root_node = Node (small_info [] [] 1 0) [((None, [1]), Node (small_info [1, 2] [4, 5] 0 1) [])],
      evictable_size = 2, protected_size = 0, rc_page_size = 1, rc_disable = False, eviction_policy = LRU, disable_finished_insert = False\<rparr>"

definition tiny_alloc :: allocator where
  "tiny_alloc = (init_alloc 5 1 False)\<lparr>free_pages := [1, 2, 3]\<rparr>"

lemma tiny_ok: "cache_inv tiny_cache" "\<not> rc_disable tiny_cache" "available_size tiny_alloc + evictable_size tiny_cache = 5"
  by code_simp+

lemma tiny_pool: "pool_shared tiny_alloc (slots tiny_cache) {}"
proof -
  have "slots tiny_cache = {#4, 5#}" by (simp add: slots_def tiny_cache_def small_info_def new_info_def meas_eqs)
  then show ?thesis
    by (auto simp: pool_shared_def pool_ok_def tiny_alloc_def init_alloc_def clear_alloc_def num_pages_def avail_def pending_def)
qed

theorem alloc_token_slots_succeeds_witness:
  "\<exists>idx rc' a'. alloc_token_slots first_least 5 tiny_cache tiny_alloc = Some (Inr (idx, rc', a')) \<and> length idx = 5 \<and> distinct idx"
  using alloc_token_slots_succeeds [OF tiny_ok(1,2) first_least_ok tiny_pool, of 5] tiny_ok(3) by auto

end
