(* ===== verification/RadixReq.thy ===== *)
theory RadixReq
  imports RadixProps
begin

section \<open>Requests on the radix cache\<close>

text \<open>
  A running request owns the slots of its row from \<open>cache_protected_len\<close> on and reads the ones before
  it from the tree, where it has locked the node they end at. \<open>req_in\<close> is this contract; storing an
  unfinished and releasing a finished request keep it for every other one and lose no slot.
\<close>

subsection \<open>The contract\<close>

definition req_path :: "req \<Rightarrow> radix_key" where
  "req_path r = node_ref r (last_node r)"

definition req_key :: "radix_cache \<Rightarrow> req \<Rightarrow> radix_key" where
  "req_key rc r = \<lparr>token_ids = page_align (rc_page_size rc) (fill_ids r), extra_key = req_extra_key r\<rparr>"

definition req_in :: "radix_cache \<Rightarrow> req \<Rightarrow> bool" where
  "req_in rc r \<longleftrightarrow> rc_page_size rc dvd cache_protected_len r \<and> length (last_node r) = cache_protected_len r
     \<and> last_node r = take (cache_protected_len r) (fill_ids r) \<and> take (cache_protected_len r) (kv_row r) = cached rc (req_path r)
     \<and> (last_node r = [] \<or> 0 < locks rc (req_path r))"

lemma req_path_simps [simp]: "token_ids (req_path r) = last_node r" "extra_key (req_path r) = req_extra_key r" "rk_len (req_path r) = length (last_node r)"
  by (simp_all add: req_path_def node_ref_def rk_len_def)

lemma locked_node: "cache_inv rc \<Longrightarrow> token_ids q \<noteq> [] \<Longrightarrow> 0 < locks rc q \<Longrightarrow> is_node rc q"
  using held_locked [of "rc_page_size rc" "root_node rc" q] by (auto simp: cache_inv_def root_ok_def locks_def is_node_def)

lemma root_node_node: "token_ids q = [] \<Longrightarrow> is_node rc q"
  by (simp add: is_node_def node_at_in)

lemma locks_nonneg:
  assumes "cache_inv rc" "token_ids q \<noteq> []"
  shows "0 \<le> locks rc q"
proof -
  let ?ps = "rc_page_size rc"
  have "0 \<le> held ps n q" if "tree_ok ps False n" for ps n q
    using that
  proof (induction ps n q rule: node_at.induct)
    case (1 ps n q)
    show ?case
    proof (cases "token_ids q = []")
      case True
      then show ?thesis using 1(2) by (simp add: held_here tree_ok_iff [of ps False n])
    next
      case False
      then show ?thesis using 1 tree_ok_child [OF 1(2)] by (auto simp: held_held_in held_in_held split: option.splits)
    qed
  qed
  then show ?thesis using assms tree_ok_child [of ?ps True "root_node rc" q]
    by (auto simp: locks_def cache_inv_def root_ok_def held_held_in held_in_held split: option.splits)
qed

lemma page_align_ge: "0 < ps \<Longrightarrow> ps dvd n \<Longrightarrow> n \<le> length ids \<Longrightarrow> n \<le> length (page_align ps ids)"
  by (auto simp: page_align_def div_le_mono elim!: dvdE dest: div_le_mono [of _ _ ps])

lemma shared_take:
  assumes "0 < ps" "ps dvd rk_len key" "ps dvd n" "n \<le> rk_len key"
  shows "shared ps (rk_take n key) key = n"
  using cpl_take [of ps "token_ids key" "token_ids key" n] cpl_self [of ps "token_ids key"] assms by (simp add: shared_def rk_len_def min_absorb1)

text \<open>The slots of a node on the way of a key are the first ones of the key.\<close>

lemma cached_path:
  assumes "cache_inv rc" "is_node rc (rk_take n key)" "key_ok rc key" "rc_page_size rc dvd n" "n \<le> rk_len key"
  shows "cached rc (rk_take n key) = take n (cached rc key)" "length (cached rc (rk_take n key)) = n"
proof -
  have ps: "0 < rc_page_size rc" "tree_ok (rc_page_size rc) True (root_node rc)" using assms(1) by (simp_all add: cache_inv_def root_ok_def)
  have key: "key_ok rc (rk_take n key)" using assms(4,5) by (simp add: key_ok_def min_absorb1)
  show len: "length (cached rc (rk_take n key)) = n"
    using node_full [OF ps, of "rk_take n key"] assms(2,5) key by (simp add: cached_def is_node_def key_ok_def)
  show "cached rc (rk_take n key) = take n (cached rc key)"
    using cached_shared [OF assms(1,2) key assms(3)] shared_take [OF ps(1) _ assms(4,5)] assms(3) len by (simp add: key_ok_def)
qed

lemma req_prefix:
  assumes "cache_inv rc" "req_in rc r"
  defines "P \<equiv> cache_protected_len r"
  shows "is_node rc (req_path r)" "key_ok rc (req_path r)" "key_ok rc (req_key rc r)" "P \<le> length (page_align (rc_page_size rc) (fill_ids r))"
    and "length (cached rc (req_path r)) = P" "P \<le> length (cached rc (req_key rc r))" "take P (cached rc (req_key rc r)) = take P (kv_row r)"
proof -
  let ?ps = "rc_page_size rc"
  have r: "?ps dvd P" "length (last_node r) = P" "last_node r = take P (fill_ids r)" "take P (kv_row r) = cached rc (req_path r)"
    "last_node r = [] \<or> 0 < locks rc (req_path r)" using assms(2) unfolding req_in_def P_def by blast+
  have ps: "0 < ?ps" "tree_ok ?ps True (root_node rc)" using assms(1) by (simp_all add: cache_inv_def root_ok_def)
  show node: "is_node rc (req_path r)" using r(5) locked_node [OF assms(1), of "req_path r"] root_node_node by (cases "last_node r = []") auto
  show key: "key_ok rc (req_path r)" "key_ok rc (req_key rc r)"
    using r(1,2) page_align_dvd by (simp_all add: key_ok_def req_key_def rk_len_def)
  have "P \<le> length (fill_ids r)" using r(2,3) by (metis length_take min.cobounded1)
  then show P: "P \<le> length (page_align ?ps (fill_ids r))" using page_align_ge [OF ps(1) r(1)] by simp
  show len: "length (cached rc (req_path r)) = P"
    using node_full [OF ps] node key(1) r(2) by (simp add: cached_def is_node_def key_ok_def)
  have "req_path r = rk_take P (req_key rc r)"
    by (rule radix_key.equality) (use r(3) page_align_take [OF P] in \<open>simp_all add: req_key_def\<close>)
  then have "cached rc (req_path r) = take P (cached rc (req_key rc r))"
    using cached_path(1) [of rc P "req_key rc r"] assms(1) node key(2) r(1) P by (simp add: req_key_def rk_len_def)
  then show "P \<le> length (cached rc (req_key rc r))" "take P (cached rc (req_key rc r)) = take P (kv_row r)"
    using r(4) len by (metis length_take min.cobounded1, simp)
qed

lemma slice_cut:
  assumes "p \<le> l" "l \<le> length xs"
  shows "drop p xs = slice p l xs @ drop l xs"
proof -
  have "drop p (take l xs @ drop l xs) = slice p l xs @ drop l xs" using assms by (simp only: drop_append slice_def) simp
  then show ?thesis by simp
qed

lemma slices:
  assumes "p \<le> l" "l \<le> k" "k \<le> length xs"
  shows "mset (drop l (take k xs)) + mset (slice p l xs) + mset (drop k xs) = mset (drop p xs)"
  using slice_cut [of p l xs] slice_cut [of l k xs] assms by (simp add: slice_def ac_simps)

text \<open>Unlocking the request's node.\<close>

lemma unlock_ok:
  assumes "cache_inv rc" "\<not> rc_disable rc" "is_node rc q" "token_ids q = [] \<or> 0 < locks rc q"
  shows "\<exists>rc'. snd (dec_lock_ref q rc) = rc' \<and> cache_inv rc' \<and> same_config rc rc' \<and> (\<forall>x. cached rc' x = cached rc x)
    \<and> (\<forall>x. token_ids x \<noteq> [] \<longrightarrow> locks rc' x = locks rc x - (if x = q then 1 else 0)) \<and> slots rc' = slots rc \<and> (\<forall>x. is_node rc' x = is_node rc x)"
  using change_lock_ok [OF assms(1-3), of "- 1"] assms(4) by (fastforce simp: dec_lock_ref_def)

lemma lock_ok:
  assumes "cache_inv rc" "\<not> rc_disable rc" "is_node rc q"
  shows "\<exists>rc'. snd (inc_lock_ref q rc) = rc' \<and> cache_inv rc' \<and> same_config rc rc' \<and> (\<forall>x. cached rc' x = cached rc x)
    \<and> (\<forall>x. token_ids x \<noteq> [] \<longrightarrow> locks rc' x = locks rc x + (if x = q then 1 else 0)) \<and> slots rc' = slots rc \<and> (\<forall>x. is_node rc' x = is_node rc x)"
  using change_lock_ok [OF assms, of 1] by (fastforce simp: inc_lock_ref_def)

text \<open>A locked prefix is complete, so an insertion adds nothing to it.\<close>

lemma inserted_locked:
  assumes "cache_inv rc" "is_node rc q" "key_ok rc q" "key_ok rc key"
  shows "inserted (rc_page_size rc) key val (cached rc) q = cached rc q"
proof -
  let ?ps = "rc_page_size rc"
  have ok: "0 < ?ps" "tree_ok ?ps True (root_node rc)" "?ps dvd rk_len q" "?ps dvd rk_len key" using assms by (simp_all add: cache_inv_def root_ok_def key_ok_def)
  have "length (cached rc q) = rk_len q" using node_full [OF ok(1-3)] assms(2) by (simp add: cached_def is_node_def)
  moreover have "shared ?ps key q \<le> rk_len q" using cpl_spec(3) [of ?ps "token_ids key" "token_ids q"] ok by (simp add: shared_def rk_len_def)
  ultimately show ?thesis by (simp add: inserted_def)
qed


subsection \<open>A finished request\<close>

definition finished_tokens :: "req \<Rightarrow> nat" where
  "finished_tokens r = length (take (kv_committed_len r) (origin_input_ids r @ output_ids r))"

lemma finished_eq:
  assumes "\<not> rc_disable rc" "\<not> kv_committed_freed r"
    and "kv = take (finished_tokens r) (kv_row r)" "ks = page_align (rc_page_size rc) (fill_ids r)"
  shows "cache_finished_req clk fr is_insert r rc a fs =
    (let finish = (\<lambda>rc a. Some (Inr (r\<lparr>kv_committed_freed := True\<rparr>, snd (dec_lock_ref (req_path r) rc), fr (drop (length ks) kv) a, fs @ [req_pool_idx r])))
     in if is_insert \<and> \<not> disable_finished_insert rc then
          Option.bind (insert_cache clk (req_key rc r) (take (length ks) kv) (req_priority r) rc)
            (\<lambda>(res, rc1). case res of
               Inl x \<Rightarrow> Some (Inl x)
             | Inr new_prefix_len \<Rightarrow> finish rc1 (fr (slice (cache_protected_len r) new_prefix_len kv) a))
        else finish rc (fr (slice (cache_protected_len r) (length ks) kv) a))"
  unfolding assms(3,4) cache_finished_req_def pop_committed_kv_cache_def finished_tokens_def Let_def req_path_def req_key_def req_pool_free_def
  using assms(1,2) by simp

lemma finished_ok:
  assumes "cache_inv rc" "\<not> rc_disable rc" "req_in rc r" "\<not> kv_committed_freed r"
    and "finished_tokens r \<le> length (kv_row r)" "length (page_align (rc_page_size rc) (fill_ids r)) \<le> finished_tokens r"
    and kv_def: "kv = take (finished_tokens r) (kv_row r)" and ks_def: "ks = page_align (rc_page_size rc) (fill_ids r)"
    and ins_def: "ins = (is_insert \<and> \<not> disable_finished_insert rc)"
    and l_def: "l = (if ins then length (cached rc (req_key rc r)) else length ks)"
  shows "\<exists>rc'. cache_finished_req clk fr is_insert r rc a fs
      = Some (Inr (r\<lparr>kv_committed_freed := True\<rparr>, rc', fr (drop (length ks) kv) (fr (slice (cache_protected_len r) l kv) a), fs @ [req_pool_idx r]))
    \<and> cache_inv rc' \<and> same_config rc rc' \<and> cache_protected_len r \<le> l \<and> l \<le> length ks
    \<and> slots rc' = slots rc + (if ins then mset (drop l (take (length ks) kv)) else {#})
    \<and> (\<forall>x. token_ids x \<noteq> [] \<longrightarrow> locks rc' x = locks rc x - (if x = req_path r then 1 else 0))
    \<and> (\<forall>x. key_ok rc x \<longrightarrow> cached rc' x = (if ins then inserted (rc_page_size rc) (req_key rc r) (take (length ks) kv) (cached rc) x else cached rc x))"
proof -
  note p = req_prefix [OF assms(1,3)]
  have ps: "0 < rc_page_size rc" "tree_ok (rc_page_size rc) True (root_node rc)" using assms(1) by (simp_all add: cache_inv_def root_ok_def)
  have un: "last_node r = [] \<or> 0 < locks rc (req_path r)" using assms(3) unfolding req_in_def by blast
  have kv: "length (take (length ks) kv) = length ks" using assms(5,6) by (simp add: kv_def ks_def)
  have key: "token_ids (req_key rc r) = ks" "rk_len (req_key rc r) = length ks" by (simp_all add: req_key_def ks_def rk_len_def)
  have l: "cache_protected_len r \<le> l" "l \<le> length ks"
    using p(4,6) lookup_len [OF ps, of "req_key rc r"] p(3) key(2) by (simp_all add: l_def ks_def cached_def key_ok_def)
  note eq = finished_eq [OF assms(2,4) kv_def ks_def, unfolded Let_def]
  have "\<exists>rc1. cache_finished_req clk fr is_insert r rc a fs
        = Some (Inr (r\<lparr>kv_committed_freed := True\<rparr>, snd (dec_lock_ref (req_path r) rc1), fr (drop (length ks) kv) (fr (slice (cache_protected_len r) l kv) a), fs @ [req_pool_idx r]))
      \<and> cache_inv rc1 \<and> same_config rc rc1 \<and> (\<forall>x. locks rc1 x = locks rc x) \<and> slots rc1 = slots rc + (if ins then mset (drop l (take (length ks) kv)) else {#})
      \<and> (\<forall>x. key_ok rc x \<longrightarrow> cached rc1 x = (if ins then inserted (rc_page_size rc) (req_key rc r) (take (length ks) kv) (cached rc) x else cached rc x))"
  proof (cases ins)
    case True
    obtain rc1 where i: "insert_cache clk (req_key rc r) (take (length ks) kv) (req_priority r) rc = Some (Inr l, rc1)"
        "cache_inv rc1" "same_config rc rc1" "\<forall>q. key_ok rc q \<longrightarrow> cached rc1 q = inserted (rc_page_size rc) (req_key rc r) (take (length ks) kv) (cached rc) q"
        "\<forall>q. locks rc1 q = locks rc q" "slots rc1 = slots rc + mset (drop l (take (length ks) kv))"
      using insert_cache_ok [OF assms(1,2) p(3), of "take (length ks) kv" clk "req_priority r"] kv key(2) True by (auto simp: l_def)
    then show ?thesis using True unfolding ins_def by (intro exI [of _ rc1]) (simp add: eq)
  next
    case False
    then show ?thesis using assms(1) l_def unfolding ins_def by (intro exI [of _ rc]) (auto simp: eq same_config_def)
  qed
  then obtain rc1 where f: "cache_finished_req clk fr is_insert r rc a fs
        = Some (Inr (r\<lparr>kv_committed_freed := True\<rparr>, snd (dec_lock_ref (req_path r) rc1), fr (drop (length ks) kv) (fr (slice (cache_protected_len r) l kv) a), fs @ [req_pool_idx r]))"
      "cache_inv rc1" "same_config rc rc1" "\<forall>x. locks rc1 x = locks rc x" "slots rc1 = slots rc + (if ins then mset (drop l (take (length ks) kv)) else {#})"
      "\<forall>x. key_ok rc x \<longrightarrow> cached rc1 x = (if ins then inserted (rc_page_size rc) (req_key rc r) (take (length ks) kv) (cached rc) x else cached rc x)"
    by blast
  have "is_node rc1 (req_path r)" using un f(2,4) locked_node [of rc1 "req_path r"] root_node_node [of "req_path r"] by (cases "last_node r = []") auto
  from unlock_ok [OF f(2) _ this] f un l assms(2) show ?thesis by (auto simp: same_config_def)
qed


subsection \<open>An unfinished request\<close>

lemma unfinished_eq:
  assumes "\<not> rc_disable rc" "kv = take (length (fill_ids r)) (kv_row r)" "ks = page_align (rc_page_size rc) (fill_ids r)"
    and "insert_cache clk (req_key rc r) (take (length ks) kv) (req_priority r) rc = Some (Inr l, rc1)"
    and "match_prefix clk' (req_key rc r) rc1 = (Inr (new, ks), rc2)" "length new = length ks" "length ks \<le> length kv"
    and "p = cache_protected_len r" "p \<le> length ks" "take p (kv_row r) = take p new"
  shows "cache_unfinished_req clk clk' fr r rc a = Some (Inr
     (r\<lparr>kv_row := new @ drop (length ks) (kv_row r), cache_protected_len := length ks, last_node := ks, prefix_indices := new @ drop (length ks) kv\<rparr>,
      snd (inc_lock_ref (req_key rc r) (snd (dec_lock_ref (req_path r) rc2))), fr (slice p l kv) a))"
proof -
  have row: "take p (kv_row r) @ drop p new @ w = new @ w" for w using assms(10) by (metis append_assoc append_take_drop_id)
  have ref: "node_ref r ks = req_key rc r" "\<lparr>token_ids = ks, extra_key = req_extra_key r\<rparr> = req_key rc r"
    by (simp_all add: node_ref_def req_key_def assms(3))
  have "(if length new < length kv then new @ drop (length new) kv else new) = new @ drop (length ks) kv" using assms(6) by simp
  moreover have "max p (length new) = length ks" using assms(6,9) by simp
  ultimately show ?thesis using assms(1,4-6,8)
    unfolding cache_unfinished_req_def Let_def assms(2,3) [symmetric] req_path_def [symmetric] ref by (simp add: ref row [unfolded assms(8)])
qed

lemma unfinished_ok:
  assumes "cache_inv rc" "\<not> rc_disable rc" "req_in rc r" "length (fill_ids r) \<le> length (kv_row r)"
    and kv_def: "kv = take (length (fill_ids r)) (kv_row r)" and ks_def: "ks = page_align (rc_page_size rc) (fill_ids r)"
    and l_def: "l = length (cached rc (req_key rc r))" and new_def: "new = cached rc (req_key rc r) @ drop l (take (length ks) kv)"
    and r'_def: "r' = r\<lparr>kv_row := new @ drop (length ks) (kv_row r), cache_protected_len := length ks, last_node := ks,
                        prefix_indices := new @ drop (length ks) kv\<rparr>"
  shows "\<exists>rc'. cache_unfinished_req clk clk' fr r rc a = Some (Inr (r', rc', fr (slice (cache_protected_len r) l kv) a))
    \<and> cache_inv rc' \<and> same_config rc rc' \<and> req_in rc' r' \<and> cache_protected_len r \<le> l \<and> l \<le> length ks
    \<and> slots rc' = slots rc + mset (drop l (take (length ks) kv))
    \<and> (\<forall>x. token_ids x \<noteq> [] \<longrightarrow> locks rc' x = locks rc x - (if x = req_path r then 1 else 0) + (if x = req_key rc r then 1 else 0))
    \<and> (\<forall>x. key_ok rc x \<longrightarrow> cached rc' x = inserted (rc_page_size rc) (req_key rc r) (take (length ks) kv) (cached rc) x)"
proof -
  let ?ps = "rc_page_size rc" and ?key = "req_key rc r"
  note p = req_prefix [OF assms(1,3)]
  have ps: "0 < ?ps" "tree_ok ?ps True (root_node rc)" using assms(1) by (simp_all add: cache_inv_def root_ok_def)
  have un: "last_node r = [] \<or> 0 < locks rc (req_path r)" using assms(3) unfolding req_in_def by blast
  have kv: "length (take (length ks) kv) = length ks" "length ks \<le> length kv"
    using assms(4) page_align_dvd(2) [of ?ps "fill_ids r"] by (simp_all add: kv_def ks_def)
  have key: "token_ids ?key = ks" "rk_len ?key = length ks" "extra_key ?key = req_extra_key r" by (simp_all add: req_key_def ks_def rk_len_def)
  have l: "cache_protected_len r \<le> l" "l \<le> length ks"
    using p(6) lookup_len [OF ps, of ?key] p(3) key(2) by (simp_all add: l_def cached_def key_ok_def)
  have new: "length new = length ks" using kv(1) l(2) by (simp add: new_def l_def)
  obtain rc1 where i: "insert_cache clk ?key (take (length ks) kv) (req_priority r) rc = Some (Inr l, rc1)" "cache_inv rc1" "same_config rc rc1"
      "\<forall>q. key_ok rc q \<longrightarrow> cached rc1 q = inserted ?ps ?key (take (length ks) kv) (cached rc) q"
      "\<forall>q. locks rc1 q = locks rc q" "slots rc1 = slots rc + mset (drop l (take (length ks) kv))"
    using insert_cache_ok [OF assms(1,2) p(3), of "take (length ks) kv" clk "req_priority r"] kv key(2) by (auto simp: l_def)
  have "shared ?ps ?key ?key = length ks" using cpl_self [OF ps(1)] p(3) key by (simp add: shared_def key_ok_def rk_len_def)
  then have c1: "cached rc1 ?key = new" using i(4) p(3) by (simp add: inserted_def new_def l_def)
  have al: "?key = aligned_key rc1 ?key" using i(3) p(3) key by (simp add: aligned_key_def same_config_def page_align_id key_ok_def rk_len_def)
  have full: "rk_take (length ks) ?key = ?key" by (rule radix_key.equality) (simp_all add: key)
  obtain rc2 where m: "match_prefix clk' ?key rc1 = (Inr (new, ks), rc2)" "cache_inv rc2" "same_config rc1 rc2" "\<forall>q. key_ok rc1 q \<longrightarrow> cached rc2 q = cached rc1 q"
      "\<forall>q. locks rc2 q = locks rc1 q" "slots rc2 = slots rc1" "is_node rc2 ?key"
    using match_prefix_ok [OF i(2) _ al, of clk'] i(3) assms(2) c1 new key(1) full by (auto simp: same_config_def)
  have "is_node rc2 (req_path r)"
    using un m(2,5) i(5) locked_node [of rc2 "req_path r"] root_node_node [of "req_path r"] by (cases "last_node r = []") auto
  then obtain rc3 where d: "snd (dec_lock_ref (req_path r) rc2) = rc3" "cache_inv rc3" "same_config rc2 rc3" "\<forall>x. cached rc3 x = cached rc2 x"
      "\<forall>x. token_ids x \<noteq> [] \<longrightarrow> locks rc3 x = locks rc2 x - (if x = req_path r then 1 else 0)" "slots rc3 = slots rc2" "is_node rc3 ?key"
    using unlock_ok [OF m(2), of "req_path r"] un m(3,5,7) i(3,5) assms(2) by (auto simp: same_config_def)
  obtain rc4 where c: "snd (inc_lock_ref ?key rc3) = rc4" "cache_inv rc4" "same_config rc3 rc4" "\<forall>x. cached rc4 x = cached rc3 x"
      "\<forall>x. token_ids x \<noteq> [] \<longrightarrow> locks rc4 x = locks rc3 x + (if x = ?key then 1 else 0)" "slots rc4 = slots rc3"
    using lock_ok [OF d(2) _ d(7)] d(3) m(3) i(3) assms(2) by (auto simp: same_config_def)
  have config: "same_config rc rc4" using i(3) m(3) d(3) c(3) by (simp add: same_config_def)
  have cached: "cached rc4 x = inserted ?ps ?key (take (length ks) kv) (cached rc) x" if "key_ok rc x" for x
    using that i(3,4) m(4) d(4) c(4) by (simp add: same_config_def key_ok_def)
  have "take (cache_protected_len r) (kv_row r) = take (cache_protected_len r) new" using p(7) l(1) by (simp add: new_def l_def)
  note eq = unfinished_eq [OF assms(2) kv_def ks_def i(1) m(1) new kv(2) refl _ this, folded r'_def]
  have path: "req_path r' = ?key" by (rule radix_key.equality) (simp_all add: r'_def key)
  have "ks = take (length ks) (fill_ids r)" using page_align_take [of "length ks" ?ps "fill_ids r"] by (simp add: ks_def)
  moreover have "ks = [] \<or> 0 < locks rc4 ?key" using locks_nonneg [OF d(2), of ?key] c(5) key(1) by (cases "ks = []") simp_all
  ultimately have "req_in rc4 r'"
    using p(3) config new c(4) d(4) m(4) i(3) c1 key(2) unfolding req_in_def path by (simp add: r'_def key_ok_def same_config_def)
  then show ?thesis using eq l c d i m config cached by (intro exI [of _ rc4]) simp
qed


subsection \<open>Admission\<close>

lemma admit_ok:
  assumes "cache_inv rc" "\<not> rc_disable rc" "init_next_round_input lp clk r rc = (res, (r1, rc1))" "inc_lock_ref (req_path r1) rc1 = (d, rc2)"
    and r2_def: "r2 = r1\<lparr>kv_row := prefix_indices r1 @ rest\<rparr>"
  shows "res = Inr () \<and> cache_inv rc2 \<and> same_config rc rc2 \<and> req_in rc2 r2 \<and> slots rc2 = slots rc \<and> (\<forall>x. key_ok rc x \<longrightarrow> cached rc2 x = cached rc x)
    \<and> (\<forall>x. token_ids x \<noteq> [] \<longrightarrow> locks rc2 x = locks rc x + (if x = req_path r2 then 1 else 0))"
proof -
  define fill where "fill = origin_input_ids r @ output_ids r"
  define n where "n = (case lp of None \<Rightarrow> length fill - 1 | Some k \<Rightarrow> min (length fill - 1) k)"
  define key where "key = \<lparr>token_ids = take n fill, extra_key = req_extra_key r\<rparr>"
  define key1 where "key1 = aligned_key rc key"
  define v where "v = cached rc key1"
  let ?ps = "rc_page_size rc"
  have ps: "0 < ?ps" "tree_ok ?ps True (root_node rc)" using assms(1) by (simp_all add: cache_inv_def root_ok_def)
  have k1: "key_ok rc key1" "token_ids key1 = page_align ?ps (take n fill)" "extra_key key1 = req_extra_key r"
    using page_align_dvd by (simp_all add: key_ok_def key1_def aligned_key_def key_def rk_len_def)
  have len: "length v \<le> length (token_ids key1)" "?ps dvd length v"
    using lookup_len [OF ps, of key1] k1(1) by (simp_all add: v_def cached_def key_ok_def rk_len_def)
  obtain rc1' where m: "match_prefix clk key rc = (Inr (v, take (length v) (token_ids key)), rc1')" "cache_inv rc1'" "same_config rc rc1'"
      "\<forall>q. key_ok rc q \<longrightarrow> cached rc1' q = cached rc q" "\<forall>q. locks rc1' q = locks rc q" "slots rc1' = slots rc" "is_node rc1' (rk_take (length v) key1)"
    using match_prefix_ok [OF assms(1,2) key1_def, of clk] unfolding v_def by blast
  have r1: "res = Inr ()" "rc1 = rc1'" "r1 = r\<lparr>fill_ids := fill, prefix_indices := v, last_node := take (length v) (token_ids key), cache_protected_len := length v\<rparr>"
    using assms(3) m(1) unfolding init_next_round_input_def Let_def fill_def [symmetric] n_def [symmetric] key_def [symmetric] by simp_all
  have tok: "take (length v) (token_ids key1) = take (length v) (take n fill)" using len(1) page_align_take k1(2) by metis
  have path: "req_path r1 = rk_take (length v) key1" "req_path r2 = rk_take (length v) key1"
    by (rule radix_key.equality; simp add: r1 r2_def tok k1(3) key_def)+
  have long: "length v \<le> length (take n fill)" "length v \<le> length fill" using len(1) page_align_dvd(2) [of ?ps "take n fill"] by (simp_all add: k1(2))
  obtain rc2' where c: "snd (inc_lock_ref (req_path r1) rc1) = rc2'" "cache_inv rc2'" "same_config rc1' rc2'" "\<forall>x. cached rc2' x = cached rc1' x"
      "\<forall>x. token_ids x \<noteq> [] \<longrightarrow> locks rc2' x = locks rc1' x + (if x = req_path r1 then 1 else 0)" "slots rc2' = slots rc1'"
    using lock_ok [OF m(2) _ m(7)] m(3) assms(2) path(1) r1(2) by (auto simp: same_config_def)
  have rc2: "rc2 = rc2'" using c(1) assms(4) by simp
  have "cached rc2' (rk_take (length v) key1) = v"
    using cached_path(1) [OF m(2,7)] m(3,4) k1(1) len c(4) by (simp add: same_config_def key_ok_def rk_len_def v_def)
  moreover have "last_node r2 = take (length v) fill" using long(1) by (simp add: r2_def r1 key_def min_absorb1)
  moreover have "last_node r2 = [] \<or> 0 < locks rc2' (req_path r2)"
    using locks_nonneg [OF m(2), of "req_path r2"] c(5) [unfolded path(1) path(2) [symmetric]] by (cases "last_node r2 = []") simp_all
  moreover have "cache_protected_len r2 = length v" "fill_ids r2 = fill" "take (length v) (kv_row r2) = v" by (simp_all add: r2_def r1)
  ultimately have "req_in rc2 r2"
    using len(2) long(2) m(3) c(3) unfolding req_in_def path(2) rc2 same_config_def by simp
  then show ?thesis using r1(1) m c rc2 path by (simp add: same_config_def)
qed


subsection \<open>Serving\<close>

text \<open>The steps of a server on the cache and its running requests: admitting a request (its prompt is
  matched, its node locked, the matched slots written to its row), anything that leaves its protected
  prefix alone (allocating slots, decoding, chunking), storing it, releasing it, and evicting.\<close>

definition same_prefix :: "req \<Rightarrow> req \<Rightarrow> bool" where
  "same_prefix r r' \<longleftrightarrow> req_path r' = req_path r \<and> cache_protected_len r' = cache_protected_len r
     \<and> take (cache_protected_len r) (fill_ids r') = take (cache_protected_len r) (fill_ids r)
     \<and> take (cache_protected_len r) (kv_row r') = take (cache_protected_len r) (kv_row r)"

inductive serve_step :: "radix_cache \<times> req multiset \<Rightarrow> radix_cache \<times> req multiset \<Rightarrow> bool" where
  serve_admit: "init_next_round_input lp clk r rc = (res, (r1, rc1)) \<Longrightarrow> inc_lock_ref (req_path r1) rc1 = (d, rc2) \<Longrightarrow>
    serve_step (rc, R) (rc2, add_mset (r1\<lparr>kv_row := prefix_indices r1 @ rest\<rparr>) R)"
| serve_run: "same_prefix r r' \<Longrightarrow> serve_step (rc, add_mset r R) (rc, add_mset r' R)"
| serve_store: "length (fill_ids r) \<le> length (kv_row r) \<Longrightarrow> cache_unfinished_req clk clk' fr r rc (a :: allocator) = Some (Inr (r', rc', a')) \<Longrightarrow>
    serve_step (rc, add_mset r R) (rc', add_mset r' R)"
| serve_finish: "finished_tokens r \<le> length (kv_row r) \<Longrightarrow> length (page_align (rc_page_size rc) (fill_ids r)) \<le> finished_tokens r \<Longrightarrow>
    cache_finished_req clk fr is_insert r rc (a :: allocator) fs = Some (Inr (r', rc', a', fs')) \<Longrightarrow>
    serve_step (rc, add_mset r R) (rc', R)"
| serve_evict: "pick_ok pick \<Longrightarrow> evict pick fr num rc (a :: allocator) = Some (Inr (n, rc', a')) \<Longrightarrow> serve_step (rc, R) (rc', R)"

definition refs :: "req multiset \<Rightarrow> radix_key \<Rightarrow> int" where
  "refs R q = int (size (filter_mset (\<lambda>r. req_path r = q) R))"

definition serve_inv :: "radix_cache \<Rightarrow> req multiset \<Rightarrow> bool" where
  "serve_inv rc R \<longleftrightarrow> cache_inv rc \<and> \<not> rc_disable rc \<and> (\<forall>r \<in># R. req_in rc r) \<and> (\<forall>q. token_ids q \<noteq> [] \<longrightarrow> locks rc q = refs R q)"

lemma refs_add: "refs (add_mset r R) q = refs R q + (if req_path r = q then 1 else 0)" "r \<in># R \<Longrightarrow> 0 < refs R (req_path r)"
proof -
  show "refs (add_mset r R) q = refs R q + (if req_path r = q then 1 else 0)" by (simp add: refs_def)
  show "0 < refs R (req_path r)" if "r \<in># R" using that by (auto simp: refs_def dest!: multi_member_split)
qed

text \<open>A change of the cache that keeps a locked prefix keeps the contract of its request.\<close>

lemma req_in_kept:
  assumes "req_in rc r" "same_config rc rc'" "cached rc' (req_path r) = cached rc (req_path r)" "last_node r \<noteq> [] \<Longrightarrow> 0 < locks rc' (req_path r)"
  shows "req_in rc' r"
  using assms unfolding req_in_def same_config_def by auto

lemma serve_kept:
  assumes "serve_inv rc (R + R0)" "cache_inv rc'" "same_config rc rc'" "\<forall>r \<in># R'. req_in rc' r"
    and "\<And>q. token_ids q \<noteq> [] \<Longrightarrow> locks rc' q = refs (R + R') q"
    and "\<And>q. key_ok rc q \<Longrightarrow> is_node rc q \<Longrightarrow> token_ids q = [] \<or> 0 < locks rc' q \<Longrightarrow> cached rc' q = cached rc q"
  shows "serve_inv rc' (R + R')"
proof -
  note inv = assms(1) [unfolded serve_inv_def]
  have "req_in rc' r" if r: "r \<in># R" for r
  proof -
    have q: "req_in rc r" using inv r by simp
    note p = req_prefix [OF conjunct1 [OF inv] q]
    have "0 < locks rc' (req_path r)" if "last_node r \<noteq> []" using assms(5) [of "req_path r"] that refs_add(2) [of r "R + R'"] r by simp
    then show ?thesis using req_in_kept [OF q assms(3)] assms(6) [OF p(2,1)] by auto
  qed
  then show ?thesis using assms inv by (auto simp: serve_inv_def same_config_def)
qed

lemma store_inv:
  assumes inv: "serve_inv rc (R + {#r#})" and len: "length (fill_ids r) \<le> length (kv_row r)"
    and step: "cache_unfinished_req clk clk' fr r rc a = Some (Inr (r', rc', a'))"
  shows "serve_inv rc' (R + {#r'#})"
proof -
  note i = inv [unfolded serve_inv_def]
  have r: "cache_inv rc" "\<not> rc_disable rc" "req_in rc r" using i by simp_all
  let ?ks = "page_align (rc_page_size rc) (fill_ids r)" and ?kv = "take (length (fill_ids r)) (kv_row r)"
  note u = unfinished_ok [OF r len refl refl refl refl refl, of clk clk' fr a]
  have u: "cache_inv rc'" "same_config rc rc'" "req_in rc' r'" "last_node r' = ?ks" "req_extra_key r' = req_extra_key r"
    "\<And>x. token_ids x \<noteq> [] \<Longrightarrow> locks rc' x = locks rc x - (if x = req_path r then 1 else 0) + (if x = req_key rc r then 1 else 0)"
    "\<And>x. key_ok rc x \<Longrightarrow> cached rc' x = inserted (rc_page_size rc) (req_key rc r) (take (length ?ks) ?kv) (cached rc) x"
    using u step by auto
  have path: "req_path r' = req_key rc r" by (rule radix_key.equality) (simp_all add: u(4,5) req_key_def)
  show ?thesis
  proof (rule serve_kept [OF inv u(1,2)])
    show "locks rc' q = refs (R + {#r'#}) q" if "token_ids q \<noteq> []" for q
      using u(6) [OF that] i that by (simp add: refs_add path)
    show "cached rc' q = cached rc q" if "key_ok rc q" "is_node rc q" for q
      using u(7) [OF that(1)] inserted_locked [OF r(1) that(2,1) req_prefix(3) [OF r(1,3)]] by simp
  qed (use u(3) in simp)
qed

lemma finish_inv:
  assumes inv: "serve_inv rc (R + {#r#})" and len: "finished_tokens r \<le> length (kv_row r)" "length (page_align (rc_page_size rc) (fill_ids r)) \<le> finished_tokens r"
    and step: "cache_finished_req clk fr is_insert r rc a fs = Some (Inr (r', rc', a', fs'))"
  shows "serve_inv rc' (R + {#})"
proof -
  note i = inv [unfolded serve_inv_def]
  have r: "cache_inv rc" "\<not> rc_disable rc" "req_in rc r" using i by simp_all
  have "\<not> kv_committed_freed r" using step by (auto simp: cache_finished_req_def pop_committed_kv_cache_def)
  note f = finished_ok [OF r this len refl refl refl refl, of clk fr is_insert a fs]
  have f: "cache_inv rc'" "same_config rc rc'" "\<And>x. token_ids x \<noteq> [] \<Longrightarrow> locks rc' x = locks rc x - (if x = req_path r then 1 else 0)"
    "\<And>x. key_ok rc x \<Longrightarrow> cached rc' x = cached rc x \<or> (\<exists>val. cached rc' x = inserted (rc_page_size rc) (req_key rc r) val (cached rc) x)"
    using f step by (auto split: if_splits)
  show ?thesis
  proof (rule serve_kept [OF inv f(1,2)])
    show "locks rc' q = refs (R + {#}) q" if "token_ids q \<noteq> []" for q using f(3) [OF that] i that by (simp add: refs_add)
    show "cached rc' q = cached rc q" if "key_ok rc q" "is_node rc q" for q
      using f(4) [OF that(1)] inserted_locked [OF r(1) that(2,1) req_prefix(3) [OF r(1,3)]] by auto
  qed simp
qed

lemma serve_step_inv:
  assumes "serve_step x y" "serve_inv (fst x) (snd x)"
  shows "serve_inv (fst y) (snd y)"
  using assms
proof (induction rule: serve_step.induct)
  case (serve_admit lp clk r rc res r1 rc1 d rc2 R rest)
  then have i: "cache_inv rc" "\<not> rc_disable rc" "serve_inv rc (R + {#})" by (simp_all add: serve_inv_def)
  note ad = admit_ok [OF i(1,2) serve_admit(1,2) refl, of rest]
  have "serve_inv rc2 (R + {#r1\<lparr>kv_row := prefix_indices r1 @ rest\<rparr>#})"
    by (rule serve_kept [OF i(3)]) (use ad i(3) in \<open>auto simp: refs_add serve_inv_def\<close>)
  then show ?case by simp
next
  case (serve_run r r' rc R)
  then have "refs (add_mset r' R) q = refs (add_mset r R) q" for q by (simp add: refs_add same_prefix_def)
  moreover have "last_node r' = last_node r" using serve_run(1) by (metis req_path_simps(1) same_prefix_def)
  ultimately show ?case using serve_run by (auto simp: serve_inv_def req_in_def same_prefix_def)
next
  case (serve_store r clk clk' fr rc a r' rc' a' R)
  then show ?case using store_inv [of rc R r] by simp
next
  case (serve_finish r rc clk fr is_insert a fs r' rc' a' fs' R)
  then show ?case using finish_inv [of rc R r] by simp
next
  case (serve_evict pick fr num rc a n rc' a' R)
  then have i: "cache_inv rc" "\<not> rc_disable rc" "serve_inv rc (R + {#})" by (simp_all add: serve_inv_def)
  have e: "cache_inv rc'" "same_config rc rc'" "\<forall>q. locks rc' q = locks rc q"
    "\<forall>q. token_ids q \<noteq> [] \<longrightarrow> 0 < locks rc q \<longrightarrow> cached rc' q = cached rc q"
    using evict_ok [OF i(1,2) serve_evict(1), of fr num a] serve_evict(2) by auto
  have "cached rc' q = cached rc q" if "token_ids q = [] \<or> 0 < locks rc' q" for q
    using that e(3,4) by (cases "token_ids q = []") (simp_all add: cached_def lookup_enter find_child_def)
  moreover have "locks rc' q = refs (R + {#}) q" if "token_ids q \<noteq> []" for q using i(3) e(3) that by (simp add: serve_inv_def)
  ultimately have "serve_inv rc' (R + {#})" by (intro serve_kept [OF i(3) e(1,2)]) simp_all
  then show ?case by simp
qed


subsection \<open>Properties\<close>

text \<open>C11: No running request loses its prefix. From a new cache, after any sequence of admissions, stores,
  releases, evictions and steps that leave the protected prefixes alone, the slots in every running
  request's row up to \<open>cache_protected_len\<close> are the ones the tree has for the request's own tokens, the
  node they end at is locked, and the locks of every node count exactly the requests that end there.\<close>

theorem running_prefix_kept:
  assumes "0 < ps" "serve_step\<^sup>*\<^sup>* (init_cache clk ps False pol no_finished, {#}) (rc, R)" "r \<in># R"
  shows "take (cache_protected_len r) (kv_row r) = cached rc \<lparr>token_ids = take (cache_protected_len r) (fill_ids r), extra_key = req_extra_key r\<rparr>
    \<and> length (take (cache_protected_len r) (kv_row r)) = cache_protected_len r \<and> rc_page_size rc dvd cache_protected_len r
    \<and> (0 < cache_protected_len r \<longrightarrow> 0 < locks rc (req_path r)) \<and> (\<forall>q. token_ids q \<noteq> [] \<longrightarrow> locks rc q = refs R q)"
proof -
  let ?c = "init_cache clk ps False pol no_finished"
  have "children (root_node ?c) = []" "\<not> rc_disable ?c" by (simp_all add: init_cache_def reset_cache_def reset_root_def)
  moreover have "cache_inv ?c" using reset_inv assms(1) by (simp add: init_cache_def)
  ultimately have "serve_inv ?c {#}" by (simp add: serve_inv_def locks_def held_held_in find_child_def refs_def)
  with assms(2) have "serve_inv (fst (rc, R)) (snd (rc, R))" by (induction rule: rtranclp_induct) (auto intro: serve_step_inv)
  then have inv: "cache_inv rc" "req_in rc r" "\<forall>q. token_ids q \<noteq> [] \<longrightarrow> locks rc q = refs R q" using assms(3) by (simp_all add: serve_inv_def)
  note p = req_prefix [OF inv(1,2)]
  have r: "length (last_node r) = cache_protected_len r" "last_node r = take (cache_protected_len r) (fill_ids r)"
    "take (cache_protected_len r) (kv_row r) = cached rc (req_path r)" "last_node r = [] \<or> 0 < locks rc (req_path r)" "rc_page_size rc dvd cache_protected_len r"
    using inv(2) unfolding req_in_def by blast+
  have path: "\<lparr>token_ids = take (cache_protected_len r) (fill_ids r), extra_key = req_extra_key r\<rparr> = req_path r"
    using r(2) by (simp add: req_path_def node_ref_def)
  show ?thesis unfolding path using r(1,3-5) p(5) inv(3) by auto
qed

text \<open>The state after one admission.\<close>

definition small_req :: req where
  "small_req = \<lparr>origin_input_ids = [1, 2, 3], output_ids = [], fill_ids = [1, 2, 3], req_extra_key = None, req_pool_idx = 1, kv_committed_len = 3,
     kv_committed_freed = False, cache_protected_len = 2, last_node = [1, 2], prefix_indices = [4, 5], req_priority = 0, kv_row = [4, 5, 1]\<rparr>"

theorem running_prefix_kept_witness:
  "\<exists>rc r. serve_step\<^sup>*\<^sup>* (init_cache (\<lambda>_. 0) 2 False LRU False, {#}) (rc, {#r#}) \<and> rc_page_size rc dvd cache_protected_len r"
proof -
  let ?c = "init_cache (\<lambda>_. 0) 2 False LRU False"
  obtain res r1 rc1 where i: "init_next_round_input None (\<lambda>_. 1) small_req ?c = (res, (r1, rc1))" by (metis prod.exhaust)
  obtain d rc2 where l: "inc_lock_ref (req_path r1) rc1 = (d, rc2)" by fastforce
  have "serve_step\<^sup>*\<^sup>* (?c, {#}) (rc2, {#r1\<lparr>kv_row := prefix_indices r1 @ []\<rparr>#})" by (intro r_into_rtranclp serve_admit [OF i l])
  then show ?thesis using running_prefix_kept [of 2 "\<lambda>_. 0" LRU False rc2 _ "r1\<lparr>kv_row := prefix_indices r1 @ []\<rparr>"] by fastforce
qed

subsection \<open>Slots and pages\<close>

text \<open>The pages of the pool are free or waiting in a free group, under slots of the tree, under slots of
  the request, or with others, each once. \<open>own\<close> is the request's row from \<open>cache_protected_len\<close> on, which is a
  page boundary: it is laid out page by page.\<close>

definition pages_shared :: "allocator \<Rightarrow> int multiset \<Rightarrow> int list \<Rightarrow> int set \<Rightarrow> bool" where
  "pages_shared a tree own other \<longleftrightarrow>
     (let pg = (\<lambda>x. x div pool_page_size a) in
        pool_ok a (pg ` set_mset tree \<union> pg ` set own \<union> other) \<and> (\<forall>x. count (tree + mset own) x \<le> 1)
        \<and> pg ` set_mset tree \<inter> pg ` set own = {} \<and> (pg ` set_mset tree \<union> pg ` set own) \<inter> other = {}
        \<and> (\<forall>i < length own. \<forall>j < length own. pg (own ! i) = pg (own ! j) \<longrightarrow> int i div pool_page_size a = int j div pool_page_size a))"

text \<open>The allocator of a radix cache: with pages of one slot the token allocator, otherwise the paged one.\<close>

definition frees :: "(int list \<Rightarrow> allocator \<Rightarrow> allocator) \<Rightarrow> allocator \<Rightarrow> bool" where
  "frees fr a \<longleftrightarrow> fr = token_free \<and> pool_page_size a = 1 \<or> fr = paged_free"

lemma frees_ok:
  assumes "frees fr a" "pool_ok a hs" "distinct idx" "(\<lambda>x. x div pool_page_size a) ` set idx \<subseteq> hs"
  shows "pool_ok (fr idx a) (hs - (\<lambda>x. x div pool_page_size a) ` set idx)"
  using assms token_pool.fr_ok [OF assms(2) _ assms(3)] paged_pool.fr_ok [OF assms(2) _ assms(3)]
  by (auto simp: frees_def pages_of_def)

lemma frees_size:
  assumes "frees fr a"
  shows "pool_page_size (fr idx a) = pool_page_size a" "frees fr (fr idx a)"
  using assms token_pool.sizes_kept(2) paged_pool.sizes_kept(2) by (auto simp: frees_def)

text \<open>A cut of the row at a page boundary is a cut of its pages.\<close>

lemma cut_pages:
  assumes "0 < ps" "ps dvd int k" "\<forall>i < length own. \<forall>j < length own. own ! i div ps = own ! j div ps \<longrightarrow> int i div ps = int j div ps"
  shows "(\<lambda>x. x div ps) ` set (take k own) \<inter> (\<lambda>x. x div ps) ` set (drop k own) = {}"
proof -
  have False if "i < k" "i < length own" "j < length (drop k own)" "own ! i div ps = drop k own ! j div ps" for i j
  proof -
    have "k + j < length own" "drop k own ! j = own ! (k + j)" using that(3) by simp_all
    then have "int i div ps = int (k + j) div ps" using assms(3) [rule_format, of i "k + j"] that(2,4) by simp
    also have "\<dots> = int k div ps + int j div ps" using assms(2) by (simp add: div_plus_div_distrib_dvd_left)
    finally have "int k div ps \<le> int i div ps" using assms(1) by (simp add: pos_imp_zdiv_nonneg_iff)
    then have "int k div ps * ps \<le> int i div ps * ps" using assms(1) by simp
    also have "\<dots> \<le> int i" using assms(1) by (simp add: minus_mod_eq_div_mult [symmetric])
    finally show False using assms(2) that(1) by simp
  qed
  moreover have "\<exists>i < length own. i < k \<and> own ! i = x" if "x \<in> set (take k own)" for x
    using that by (auto simp: in_set_conv_nth)
  moreover have "\<exists>j < length (drop k own). drop k own ! j = x" if "x \<in> set (drop k own)" for x
    using that by (simp add: in_set_conv_nth)
  ultimately show ?thesis by blast
qed

lemma pages_sharedD:
  assumes "pages_shared a tree own other" "pg = (\<lambda>x. x div pool_page_size a)"
  shows "pool_ok a (pg ` set_mset tree \<union> pg ` set own \<union> other)" "\<forall>x. count (tree + mset own) x \<le> 1"
    and "pg ` set_mset tree \<inter> pg ` set own = {}" "(pg ` set_mset tree \<union> pg ` set own) \<inter> other = {}" "0 < pool_page_size a"
    and "\<forall>i < length own. \<forall>j < length own. own ! i div pool_page_size a = own ! j div pool_page_size a \<longrightarrow> int i div pool_page_size a = int j div pool_page_size a"
proof -
  note s = assms(1) [unfolded pages_shared_def Let_def, folded assms(2)]
  note s2 = conjunct2 [OF s] and ok = conjunct1 [OF s]
  note s3 = conjunct2 [OF s2] and s4 = conjunct2 [OF conjunct2 [OF s2]]
  show "pool_ok a (pg ` set_mset tree \<union> pg ` set own \<union> other)" by (rule ok)
  show "\<forall>x. count (tree + mset own) x \<le> 1" by (rule conjunct1 [OF s2])
  show "pg ` set_mset tree \<inter> pg ` set own = {}" by (rule conjunct1 [OF s3])
  show "(pg ` set_mset tree \<union> pg ` set own) \<inter> other = {}" by (rule conjunct1 [OF s4])
  show "0 < pool_page_size a" using ok by (simp only: pool_ok_def)
  show "\<forall>i < length own. \<forall>j < length own. own ! i div pool_page_size a = own ! j div pool_page_size a \<longrightarrow> int i div pool_page_size a = int j div pool_page_size a"
    using conjunct2 [OF s4] unfolding assms(2) .
qed

lemma pages_sharedI:
  assumes "pool_page_size a = ps" "pg = (\<lambda>x. x div ps)" "pool_ok a (pg ` set_mset tree \<union> pg ` set own \<union> other)"
    and "\<forall>x. count (tree + mset own) x \<le> 1" "pg ` set_mset tree \<inter> pg ` set own = {}" "(pg ` set_mset tree \<union> pg ` set own) \<inter> other = {}"
    and "\<And>i j. i < length own \<Longrightarrow> j < length own \<Longrightarrow> own ! i div ps = own ! j div ps \<Longrightarrow> int i div ps = int j div ps"
  shows "pages_shared a tree own other"
  unfolding pages_shared_def Let_def assms(1) using assms(3-6) [unfolded assms(2), rule_format] assms(7) by (intro conjI allI impI)

lemma free_own:
  assumes "pages_shared a tree own other" "frees fr a"
  shows "pages_shared (fr own a) tree [] other"
proof -
  define pg where "pg = (\<lambda>x. x div pool_page_size a)"
  note s = pages_sharedD(1-4) [OF assms(1) pg_def]
  have "distinct own" using distinct_part(1) [OF refl s(2)] .
  then have "pool_ok (fr own a) (pg ` set_mset tree \<union> pg ` set own \<union> other - pg ` set own)"
    using frees_ok [OF assms(2) s(1)] by (auto simp: pg_def)
  moreover have "pg ` set_mset tree \<union> pg ` set own \<union> other - pg ` set own = pg ` set_mset tree \<union> other" using s(3,4) by blast
  moreover have "\<forall>x. count tree x \<le> 1" using distinct_part(4) [OF refl s(2)] .
  ultimately show ?thesis using s(4) by (intro pages_sharedI [OF frees_size(1) [OF assms(2)] pg_def]) auto
qed

lemma layout_drop:
  assumes "0 < ps" "ps dvd int k" "\<forall>i < length own. \<forall>j < length own. own ! i div ps = own ! j div ps \<longrightarrow> int i div ps = int j div ps"
    and "i < length (drop k own)" "j < length (drop k own)" "drop k own ! i div ps = drop k own ! j div ps"
  shows "int i div ps = int j div ps"
proof -
  have "k + i < length own" "k + j < length own" "own ! (k + i) div ps = own ! (k + j) div ps" using assms(4-6) by simp_all
  from assms(3) [rule_format, OF this] have "(int k + int i) div ps = (int k + int j) div ps" by simp
  then show ?thesis using assms(2) by (simp add: div_plus_div_distrib_dvd_left)
qed

lemma free_part:
  assumes "pages_shared a tree own other" "frees fr a" "pool_page_size a dvd int l" "pool_page_size a dvd int k" "l \<le> k" "k \<le> length own"
  shows "pages_shared (fr (take l own) a) (tree + mset (drop l (take k own))) (drop k own) other"
proof -
  define pg where "pg = (\<lambda>x. x div pool_page_size a)"
  note s = pages_sharedD [OF assms(1) pg_def]
  have tk: "take k own = take l own @ drop l (take k own)" using assms(5) by (metis append_take_drop_id take_take min.absorb1)
  have dl: "drop l own = drop l (take k own) @ drop k own" using slice_cut [OF assms(5,6)] by (simp add: slice_def)
  have own: "mset own = mset (take l own) + mset (drop l (take k own)) + mset (drop k own)"
    by (metis append_take_drop_id dl mset_append union_assoc)
  have sets: "set own = set (take l own) \<union> set (drop l (take k own)) \<union> set (drop k own)" using arg_cong [OF own, of set_mset] by auto
  have d: "pg ` set (take l own) \<inter> pg ` set (drop l own) = {}" "pg ` set (take k own) \<inter> pg ` set (drop k own) = {}"
    unfolding pg_def by (rule cut_pages [OF s(5) assms(3) s(6)], rule cut_pages [OF s(5) assms(4) s(6)])
  have d': "pg ` set (take l own) \<inter> pg ` set (drop l (take k own)) = {}" "pg ` set (take l own) \<inter> pg ` set (drop k own) = {}"
    "pg ` set (drop l (take k own)) \<inter> pg ` set (drop k own) = {}"
    using d arg_cong [OF dl, of set] arg_cong [OF tk, of set] by auto
  have m: "(tree + mset (drop l (take k own)) + mset (drop k own)) + mset (take l own) = tree + mset own" by (simp add: own ac_simps)
  note dp = distinct_part [OF m s(2)]
  have "pool_ok (fr (take l own) a) (pg ` set_mset tree \<union> pg ` set own \<union> other - pg ` set (take l own))"
    using frees_ok [OF assms(2) s(1) dp(1)] sets by (auto simp: pg_def)
  moreover have "pg ` set_mset tree \<union> pg ` set own \<union> other - pg ` set (take l own)
      = pg ` set_mset (tree + mset (drop l (take k own))) \<union> pg ` set (drop k own) \<union> other"
    using s(3,4) d'(1,2) by (auto simp: sets image_Un)
  ultimately have ok: "pool_ok (fr (take l own) a) (pg ` set_mset (tree + mset (drop l (take k own))) \<union> pg ` set (drop k own) \<union> other)" by simp
  show ?thesis
  proof (rule pages_sharedI [OF frees_size(1) [OF assms(2)] pg_def ok dp(4)])
    show "pg ` set_mset (tree + mset (drop l (take k own))) \<inter> pg ` set (drop k own) = {}"
      using s(3) d'(3) by (auto simp: sets image_Un)
    show "(pg ` set_mset (tree + mset (drop l (take k own))) \<union> pg ` set (drop k own)) \<inter> other = {}"
      using s(4) by (auto simp: sets image_Un)
  qed (rule layout_drop [OF s(5) assms(4) s(6)])
qed

text \<open>What both do with a row: the slots up to what was cached are freed, the ones of the aligned key go
  into the tree.\<close>

lemma free_row:
  assumes "pages_shared a tree (drop P kv) other" "frees fr a" "pool_page_size a = int ps"
    and "ps dvd P" "ps dvd l" "ps dvd k" "P \<le> l" "l \<le> k" "k \<le> length kv"
  shows "pages_shared (fr (slice P l kv) a) (tree + mset (drop l (take k kv))) (drop k kv) other"
proof -
  have "pool_page_size a dvd int (l - P)" "pool_page_size a dvd int (k - P)" using assms(3-8) by simp_all
  note f = free_part [OF assms(1,2) this]
  have "take (l - P) (drop P kv) = slice P l kv" by (simp add: slice_def drop_take)
  moreover have "drop (l - P) (take (k - P) (drop P kv)) = drop l (take k kv)" using assms(7,8) by (simp add: drop_take)
  moreover have "drop (k - P) (drop P kv) = drop k kv" using assms(7,8) by simp
  ultimately show ?thesis using f assms(7-9) by simp
qed


subsection \<open>Releasing and storing requests\<close>

text \<open>C12: Releasing a finished request loses no page and frees none twice, with the token allocator for
  pages of one slot and with the paged allocator, inside a free group (as the scheduler releases after a
  decode step) or outside one. When the pages of the pool are free or waiting in the group, under the tree,
  under the request's own slots (its row from \<open>cache_protected_len\<close> to the committed length, laid out page
  by page) or with others, each once, then after the release they are free or waiting, under the tree or
  with others, each once. The tree gains the slots of the aligned \<open>fill_ids\<close> that it did not have, so that
  this key is then cached as a whole, and nothing else: the slots of the tokens after it, the generated
  ones included, are freed. The request's slot goes back to the request pool and its lock is released.\<close>

theorem finished_req_conserves:
  assumes "cache_inv rc" "\<not> rc_disable rc" "req_in rc r" "\<not> kv_committed_freed r"
    and "finished_tokens r \<le> length (kv_row r)" "length (page_align (rc_page_size rc) (fill_ids r)) \<le> finished_tokens r"
    and "frees fr a" "pool_page_size a = int (rc_page_size rc)"
    and "pages_shared a (slots rc) (drop (cache_protected_len r) (take (finished_tokens r) (kv_row r))) other"
  shows "\<exists>rc' a'. cache_finished_req clk fr is_insert r rc a fs
      = Some (Inr (r\<lparr>kv_committed_freed := True\<rparr>, rc', a', fs @ [req_pool_idx r])) \<and> cache_inv rc' \<and> pages_shared a' (slots rc') [] other
    \<and> slots rc' = slots rc + (if is_insert \<and> \<not> disable_finished_insert rc
        then mset (drop (length (cached rc (req_key rc r))) (take (rk_len (req_key rc r)) (kv_row r))) else {#})
    \<and> (is_insert \<and> \<not> disable_finished_insert rc \<longrightarrow> length (cached rc' (req_key rc r)) = rk_len (req_key rc r))
    \<and> (\<forall>x. token_ids x \<noteq> [] \<longrightarrow> locks rc' x = locks rc x - (if x = req_path r then 1 else 0))"
proof -
  let ?ks = "page_align (rc_page_size rc) (fill_ids r)" and ?kv = "take (finished_tokens r) (kv_row r)" and ?P = "cache_protected_len r"
  define ins where "ins = (is_insert \<and> \<not> disable_finished_insert rc)"
  define l where "l = (if ins then length (cached rc (req_key rc r)) else length ?ks)"
  obtain rc' where f: "cache_finished_req clk fr is_insert r rc a fs
        = Some (Inr (r\<lparr>kv_committed_freed := True\<rparr>, rc', fr (drop (length ?ks) ?kv) (fr (slice ?P l ?kv) a), fs @ [req_pool_idx r]))"
      "cache_inv rc'" "?P \<le> l" "l \<le> length ?ks" "slots rc' = slots rc + (if ins then mset (drop l (take (length ?ks) ?kv)) else {#})"
      "\<forall>x. token_ids x \<noteq> [] \<longrightarrow> locks rc' x = locks rc x - (if x = req_path r then 1 else 0)"
      "\<forall>x. key_ok rc x \<longrightarrow> cached rc' x = (if ins then inserted (rc_page_size rc) (req_key rc r) (take (length ?ks) ?kv) (cached rc) x else cached rc x)"
    using finished_ok [OF assms(1-6) refl refl ins_def l_def, of clk fr a fs] by blast
  have kv: "length ?ks \<le> length ?kv" using assms(5,6) by simp
  have ps: "0 < rc_page_size rc" "tree_ok (rc_page_size rc) True (root_node rc)" using assms(1) by (simp_all add: cache_inv_def root_ok_def)
  have al: "rc_page_size rc dvd ?P" "rc_page_size rc dvd l" "rc_page_size rc dvd length ?ks"
    using assms(3) lookup_len [OF ps req_prefix(3) [OF assms(1,3), unfolded key_ok_def]] page_align_dvd(1) by (simp_all add: req_in_def l_def cached_def)
  have "slots rc' = slots rc + mset (drop l (take (length ?ks) ?kv))" using f(5) by (simp add: l_def)
  then have "pages_shared (fr (slice ?P l ?kv) a) (slots rc') (drop (length ?ks) ?kv) other"
    using free_row [OF assms(9,7,8) al f(3,4) kv] by simp
  from free_own [OF this frees_size(2) [OF assms(7)]]
  have "pages_shared (fr (drop (length ?ks) ?kv) (fr (slice ?P l ?kv) a)) (slots rc') [] other" .
  moreover have "length (cached rc' (req_key rc r)) = rk_len (req_key rc r)" if ins
  proof -
    have k: "key_ok rc (req_key rc r)" "rk_len (req_key rc r) = length ?ks" using page_align_dvd(1) by (simp_all add: key_ok_def req_key_def rk_len_def)
    have "shared (rc_page_size rc) (req_key rc r) (req_key rc r) = length ?ks"
      using cpl_self [OF ps(1)] page_align_dvd(1) by (simp add: shared_def req_key_def)
    then show ?thesis using f(4,7) k kv that by (simp add: inserted_def l_def)
  qed
  moreover have "slots rc' = slots rc + (if ins then mset (drop (length (cached rc (req_key rc r))) (take (rk_len (req_key rc r)) (kv_row r))) else {#})"
    using f(5) assms(6) by (simp add: l_def req_key_def rk_len_def min_absorb1)
  ultimately show ?thesis using f(1,2,6) ins_def by blast
qed

text \<open>Pages of two slots: a node of two tokens that a request of five has locked, and a pool of five pages,
  of which the tree has page 2 and the request's row pages 3 and 1.\<close>

definition busy_cache :: radix_cache where
  "busy_cache =
     \<lparr>root_node = Node (small_info [] [] 1 0) [((None, [1, 2]), Node (small_info [1, 2] [4, 5] 1 1) [])],
      evictable_size = 0, protected_size = 2, rc_page_size = 2, rc_disable = False, eviction_policy = LRU, disable_finished_insert = False\<rparr>"

definition busy_req :: req where
  "busy_req = \<lparr>origin_input_ids = [1, 2, 3, 4, 5], output_ids = [], fill_ids = [1, 2, 3, 4, 5], req_extra_key = None, req_pool_idx = 1, kv_committed_len = 5,
     kv_committed_freed = False, cache_protected_len = 2, last_node = [1, 2], prefix_indices = [4, 5], req_priority = 0, kv_row = [4, 5, 6, 7, 2]\<rparr>"

definition busy_alloc :: "bool \<Rightarrow> allocator" where
  "busy_alloc grouped = (init_alloc 10 2 False)\<lparr>free_pages := [4, 5], is_not_in_free_group := \<not> grouped\<rparr>"

lemma busy_ok: "cache_inv busy_cache" "\<not> rc_disable busy_cache" "req_in busy_cache busy_req" "\<not> kv_committed_freed busy_req"
  "finished_tokens busy_req \<le> length (kv_row busy_req)"
  "length (page_align (rc_page_size busy_cache) (fill_ids busy_req)) \<le> finished_tokens busy_req"
  by code_simp+

lemma busy_pool: "pages_shared (busy_alloc g) (slots busy_cache) [6, 7, 2] {}"
proof -
  have t: "slots busy_cache = {#4, 5#}" by (simp add: slots_def busy_cache_def small_info_def new_info_def meas_eqs)
  have a: "pool_page_size (busy_alloc g) = 2" by (simp add: busy_alloc_def init_alloc_def clear_alloc_def)
  have "pool_ok (busy_alloc g) {1, 2, 3}"
    by (auto simp: pool_ok_def busy_alloc_def init_alloc_def clear_alloc_def num_pages_def avail_def pending_def pages_of_def)
  then show ?thesis by (intro pages_sharedI [OF a refl]) (auto simp: t insert_commute less_Suc_eq)
qed

lemma busy_row: "drop (cache_protected_len busy_req) (take (finished_tokens busy_req) (kv_row busy_req)) = [6, 7, 2]"
  "drop (cache_protected_len busy_req) (take (length (fill_ids busy_req)) (kv_row busy_req)) = [6, 7, 2]"
  by code_simp+

lemma busy_sizes: "frees paged_free (busy_alloc g)" "pool_page_size (busy_alloc g) = int (rc_page_size busy_cache)"
  by (simp_all add: frees_def busy_alloc_def init_alloc_def clear_alloc_def busy_cache_def)

theorem finished_req_conserves_witness:
  "\<exists>rc' a'. cache_finished_req (\<lambda>_. 9) paged_free True busy_req busy_cache (busy_alloc True) [7]
      = Some (Inr (busy_req\<lparr>kv_committed_freed := True\<rparr>, rc', a', [7, 1])) \<and> pages_shared a' (slots rc') [] {}"
proof -
  have "req_pool_idx busy_req = 1" by (simp add: busy_req_def)
  then show ?thesis
    using finished_req_conserves [OF busy_ok busy_sizes, of True "{}" "\<lambda>_. 9" True "[7]"] busy_pool [of True] by (auto simp: busy_row)
qed

text \<open>C16: Storing an unfinished request (after a prefill chunk) always succeeds, moves its slots of whole
  pages into the tree and points its row at the slots the tree has for them: afterwards the row up to
  the aligned length is what is cached for the request's tokens, the lock has moved from the old to the
  new node, \<open>prefix_indices\<close> is the row, and again the pages of the pool are free, under the tree, under the
  request's own slots or with others, each once. This is for the token allocator with pages of one slot
  and for the paged allocator, outside a free group: inside one the code frees a view of the row that it
  then overwrites.\<close>

theorem unfinished_req_stored:
  assumes "cache_inv rc" "\<not> rc_disable rc" "req_in rc r" "length (fill_ids r) \<le> length (kv_row r)"
    and "frees fr a" "pool_page_size a = int (rc_page_size rc)" "is_not_in_free_group a"
    and "pages_shared a (slots rc) (drop (cache_protected_len r) (take (length (fill_ids r)) (kv_row r))) other"
  shows "\<exists>r' rc' a'. cache_unfinished_req clk clk' fr r rc a = Some (Inr (r', rc', a')) \<and> cache_inv rc' \<and> req_in rc' r'
    \<and> take (rk_len (req_key rc r)) (kv_row r') = cached rc' (req_key rc r)
    \<and> cache_protected_len r' = rk_len (req_key rc r) \<and> prefix_indices r' = take (length (fill_ids r)) (kv_row r')
    \<and> pages_shared a' (slots rc') (drop (cache_protected_len r') (take (length (fill_ids r')) (kv_row r'))) other
    \<and> (\<forall>x. token_ids x \<noteq> [] \<longrightarrow> locks rc' x = locks rc x - (if x = req_path r then 1 else 0) + (if x = req_key rc r then 1 else 0))"
proof -
  define ks where "ks = page_align (rc_page_size rc) (fill_ids r)"
  define kv where "kv = take (length (fill_ids r)) (kv_row r)"
  define l where "l = length (cached rc (req_key rc r))"
  define new where "new = cached rc (req_key rc r) @ drop l (take (length ks) kv)"
  define r' where "r' = r\<lparr>kv_row := new @ drop (length ks) (kv_row r), cache_protected_len := length ks, last_node := ks, prefix_indices := new @ drop (length ks) kv\<rparr>"
  obtain rc' where u: "cache_unfinished_req clk clk' fr r rc a = Some (Inr (r', rc', fr (slice (cache_protected_len r) l kv) a))"
      "cache_inv rc'" "req_in rc' r'" "cache_protected_len r \<le> l" "l \<le> length ks" "slots rc' = slots rc + mset (drop l (take (length ks) kv))"
      "\<forall>x. token_ids x \<noteq> [] \<longrightarrow> locks rc' x = locks rc x - (if x = req_path r then 1 else 0) + (if x = req_key rc r then 1 else 0)"
    using unfinished_ok [OF assms(1-4) kv_def ks_def l_def new_def r'_def, of clk clk' fr a] by blast
  have kv: "length ks \<le> length kv" "length kv = length (fill_ids r)" using assms(4) page_align_dvd(2) by (simp_all add: kv_def ks_def)
  have new: "length new = length ks" using u(5) kv(1) by (simp add: new_def l_def)
  have row: "take (length (fill_ids r)) (kv_row r') = new @ drop (length ks) kv"
    using new kv by (simp add: r'_def kv_def drop_take)
  have ps: "0 < rc_page_size rc" "tree_ok (rc_page_size rc) True (root_node rc)" using assms(1) by (simp_all add: cache_inv_def root_ok_def)
  have al: "rc_page_size rc dvd cache_protected_len r" "rc_page_size rc dvd l" "rc_page_size rc dvd length ks"
    using assms(3) lookup_len [OF ps req_prefix(3) [OF assms(1,3), unfolded key_ok_def]] page_align_dvd(1) by (simp_all add: req_in_def l_def cached_def ks_def)
  have "pages_shared (fr (slice (cache_protected_len r) l kv) a) (slots rc') (drop (length ks) kv) other"
    using free_row [OF assms(8) [folded kv_def] assms(5,6) al u(4,5) kv(1)] u(6) by simp
  moreover have f: "cache_protected_len r' = length ks" "fill_ids r' = fill_ids r" "prefix_indices r' = new @ drop (length ks) kv" "rk_len (req_key rc r) = length ks"
    by (simp_all add: r'_def req_key_def rk_len_def ks_def)
  moreover have "take (length ks) (kv_row r') = cached rc' (req_key rc r)"
  proof -
    have "req_path r' = req_key rc r" by (simp add: req_path_def node_ref_def req_key_def r'_def ks_def)
    then show ?thesis using u(3) f(1) by (simp add: req_in_def)
  qed
  ultimately show ?thesis using u row new by (intro exI [of _ r'] exI [of _ rc']) simp
qed

theorem unfinished_req_stored_witness:
  "\<exists>r' rc' a'. cache_unfinished_req (\<lambda>_. 9) (\<lambda>_. 10) paged_free busy_req busy_cache (busy_alloc False) = Some (Inr (r', rc', a'))
     \<and> cache_protected_len r' = 4 \<and> req_in rc' r'"
proof -
  have "rk_len (req_key busy_cache busy_req) = 4" "length (fill_ids busy_req) \<le> length (kv_row busy_req)" by code_simp+
  moreover have "is_not_in_free_group (busy_alloc False)" by (simp add: busy_alloc_def)
  ultimately show ?thesis using unfinished_req_stored [OF busy_ok(1-3) _ busy_sizes, of False "{}" "\<lambda>_. 9" "\<lambda>_. 10"] busy_pool [of False] by (auto simp: busy_row)
qed

end
