(* ===== verification/Spec2Isabelle.thy ===== *)
theory Spec2Isabelle
  imports SwapProps EagerRun RetrieverRun WiringProps Cadence AllocRun RadixReq
begin

text \<open>
  A verification library for the FlashMemory serving engine, the part of this repository that keeps
  the compressed (c4) key-value history of long requests on the host and recalls into GPU memory the
  part of it that attention needs.

  \<^bold>\<open>The program.\<close> Paths are relative to \<^verbatim>\<open>src/sglang/python/sglang/srt/\<close>. A request's history is a sequence
  of chunks (one per four tokens), stored in pages of 64 chunks. \<open>SwapEngineP\<close>
  (\<^verbatim>\<open>layers/attention/compressed/swap_engine_p.py\<close>) holds all of it in a host mirror and a bounded reserve
  of cells on the GPU, with a lookup table from chunks to cells per layer. Which chunks are in the
  reserve is decided by a retriever: eagerly by \<open>InlineRetrieverHook\<close> (\<^verbatim>\<open>inline_retriever_hook.py\<close>), or
  under CUDA graphs by \<open>ResidentMaskCapturer\<close> (\<^verbatim>\<open>resident_mask_capturer.py\<close>), whose side band runs
  between forwards: it scores the chunks of the due requests, selects pages, writes a mask and the
  row buffers the graph reads, and has the engine recall the selection. The indexer (\<^verbatim>\<open>indexer.py\<close>)
  picks the 512 best chunks from masked logits, and the attention backend
  (\<^verbatim>\<open>deepseek_v4_backend_radix.py\<close>) turns them into cells through the lookup table. Slots of the
  uncompressed cache come from the allocators of \<^verbatim>\<open>mem_cache/allocator.py\<close>; prefixes are shared
  through the radix cache of \<^verbatim>\<open>mem_cache/radix_cache.py\<close>.

  \<^bold>\<open>Conventions.\<close> An index tensor is an \<^typ>\<open>int list\<close>, a byte tensor a function from addresses to bytes, a
  Python dict an association list in insertion order (\<open>odict\<close>), an object a record. An operation that
  can raise returns an \<open>outcome\<close>: an exception or a value, together with the state it leaves. Loops
  are recursive functions with termination proofs; the two loops whose end depends
  on the shape of the state, \<open>insert_loop\<close> and \<open>evict_loop\<close>, are partial functions into \<open>option\<close>, and are
  proved to return on every state that satisfies the invariant. No fuel is used. Library and kernel
  code outside the repository (\<open>torch.topk\<close>, the sigmoid, the trained scorer, a heap's choice among
  equals) is an argument of the definitions, with its documented behaviour as a named hypothesis
  such as \<open>topk_ok\<close> or \<open>pick_ok\<close> and a concrete instance such as \<open>topk_sort\<close> or \<open>first_least\<close> in the witnesses.

  \<^bold>\<open>The theories and the code they model.\<close>
  \<^item> \<open>Prelude\<close>: ranges, scatter writes, ordered dictionaries, bit length, rounded division.
  \<^item> \<open>C4Layout\<close>: the byte layout of a page row, the two chunk copies of the engine and the two stores
    of quantised packs (\<^verbatim>\<open>nsa/index_buf_accessor_v4.py\<close>). The copies and the stores agree, and chunks own
    disjoint bytes.
  \<^item> \<open>SwapEngine\<close>, \<open>SwapRecall\<close>: every operation of \<open>SwapEngineP\<close> that changes its state; one record holds
    the attributes. \<open>SlotPool\<close>, \<open>SwapInv\<close>, \<open>SwapOwner\<close>: the invariant (a mapped chunk's cell is owned by it
    and holds the mirror's bytes) and the locale \<open>cell_owner\<close>, the contract of a cell allocator.
    \<open>SwapPage\<close>, \<open>SwapChunk\<close>, \<open>SwapEager\<close> interpret it for the three allocators of the engine. \<open>SwapRun\<close>,
    \<open>EagerRun\<close>: runs of the interface, with the locale \<open>swap_path\<close>. In the page mode a run has no
    \<open>recall_chunks\<close>, the recall of an extend forward, so its read guarantees are for servers that only
    decode; in the eager mode it has no \<open>reset_recall_state\<close>. Both are left out because they break the
    guarantees (\<open>prefill_recall_collides\<close>, \<open>reset_shares_cell\<close>). \<open>SwapProps\<close>: reads, recalls, evictions,
    decode stores, releases.
  \<^item> \<open>TopK\<close>, \<open>Retriever\<close>, \<open>RetrieverRun\<close>: the hook's resident set and its cycle state machine; it never
    fails inside a batch and its selection is sound.
  \<^item> \<open>ResidentMask\<close>, \<open>SideBand\<close>: the capturer; the background thread is a job that runs between its
    dispatch and its join. \<open>Indexer\<close>: selection over logits; of the top-512 the torch implementation, which
    is off by default, is modelled, and the CUDA kernel is an argument. \<open>MaskProps\<close>: the mask the graph applies is
    the selection the side band made. \<open>SystemRun\<close>: capturer and engine together; every interleaving of
    hooks, side bands, request boundaries and calls on the engine is a run of the engine. \<open>TurnoverProps\<close>,
    \<open>PageSelect\<close>: rows that change their occupant, the page selection and its budget. \<open>Cadence\<close>: decode
    forwards with both hooks, and that every request that stays in the batch comes due.
  \<^item> \<open>Wiring\<close>, \<open>WiringProps\<close>: the call sites in \<^verbatim>\<open>model_executor/model_runner_kv_cache_mixin.py\<close>,
    \<^verbatim>\<open>compressor.py\<close>, \<^verbatim>\<open>deepseek_v4_backend_radix.py\<close> and \<^verbatim>\<open>disaggregation/decode.py\<close>: sizing of the reserve,
    stores, attention, admission. What attention reads is the history; a side band delivers what it
    selects.
  \<^item> \<open>Allocator\<close>, \<open>AllocProps\<close>, \<open>AllocRun\<close>: \<^verbatim>\<open>mem_cache/allocator.py\<close> with its two Triton kernels as lists of
    writes. The kernels compute the positions of a reference definition, and every page is free,
    pending or held by one client (the locale \<open>kv_pool\<close>, interpreted for both allocators).
  \<^item> \<open>RadixTree\<close>: \<^verbatim>\<open>mem_cache/radix_cache.py\<close>, \<^verbatim>\<open>mem_cache/evict_policy.py\<close>, the request operations on them, the
    request slots of \<^verbatim>\<open>mem_cache/memory_pool.py\<close> and the allocation of \<^verbatim>\<open>mem_cache/common.py\<close> that evicts first.
    \<open>RadixInv\<close>: the invariant and the observations \<open>lookup\<close>, \<open>held\<close> and \<open>tree_sum\<close> that specify the operations.
    \<open>RadixOps\<close>: splits are invisible, a match only reads, an insertion ends and adds what was missing; the
    locale \<open>node_measure\<close>, interpreted for the evictable and the protected size and for the slots, is what
    a sum over the nodes needs for this. \<open>RadixLocks\<close>: locks, and eviction as a sequence of steps.
    \<open>RadixProps\<close>: the contract of every operation of the cache, exact sizes on every run, and an allocation
    that succeeds when free and evictable slots are enough. \<open>RadixReq\<close>: running requests keep their
    prefixes, and storing and releasing them loses no page and frees none twice, with the token and with
    the paged allocator.

  \<^bold>\<open>Defects shown.\<close> Some theorems state what the code does where that is not what it means to do: among
  them a prefill recall that shares cells with a page recall, pages of a reused range that are never
  recalled, a scratch with shifted keys, a release policy that releases nothing, and a fused remap
  that never publishes on the page path.

  \<^bold>\<open>Not modelled.\<close> The scorer's network (\<^verbatim>\<open>retriever_hook_impl.py\<close>), its training (\<^verbatim>\<open>src/training\<close>) and data
  generation (\<^verbatim>\<open>src/data_generation\<close>): numerical code whose correctness is statistical. The compressor's
  projections, quantisation and the attention kernels: floating-point kernels, of which the models
  take the results as arguments. \<^verbatim>\<open>pathp_profile.py\<close>: timing. The transfer engines, servers, schedulers,
  models, entry points and benchmarks of sglang, the Rust gateway and the C++ and CUDA sources of
  \<^verbatim>\<open>sgl-kernel\<close>, and the prefix caches for other memory tiers and model families: they are the host program around the parts above. Streams and memory ordering of the GPU:
  operations take effect in program order. Real-valued scores stand for floats; integers of the
  engine are unbounded, since they are indices below the sizes of the pools.
\<close>

end
